(* ===== verification/Prelude.thy ===== *)
theory Prelude
  imports Main "HOL-Library.Word" "HOL-Library.Finite_Map"
begin

text \<open>
  Types and generic facts shared by every component: machine integers, hash maps, ordered maps
  and hash sets of the Rust standard library as finite maps and finite sets, the multi-map idiom
  \<open>map.entry(k).or_default().insert(x)\<close>, and the interface of a store of blocks that are
  linked by the hash of their parent, with the induction principle every walk over such a store
  is proved by.
\<close>

section \<open>Machine integers, hashes, bytes\<close>

type_synonym u8 = "8 word"
type_synonym u32 = "32 word"
type_synonym u64 = "64 word"
type_synonym u256 = "256 word"
type_synonym b256 = "256 word"
type_synonym bytes = "u8 list"

named_theorems map_specs \<open>lookup after an update, for the operations on the components' maps\<close>
named_theorems inv_intros \<open>preservation of the components' invariants\<close>

text \<open>Rust's \<open>saturating_sub\<close> on unsigned integers.\<close>

definition saturating_sub :: "'a::len word \<Rightarrow> 'a word \<Rightarrow> 'a word" where
  "saturating_sub a b = (if a < b then 0 else a - b)"

lemma saturating_sub_le: "saturating_sub a b \<le> a"
  by (auto simp: saturating_sub_def word_le_nat_alt unat_sub not_less)

lemma unat_saturating_sub: "unat (saturating_sub a b) = unat a - unat b"
  by (auto simp: saturating_sub_def word_less_nat_alt unat_sub word_le_nat_alt)

lemma find_SomeD: "find P xs = Some x \<Longrightarrow> x \<in> set xs \<and> P x"
  by (induction xs) (auto split: if_splits)

section \<open>Ordered maps\<close>

text \<open>
  A \<open>BTreeMap\<close> is a finite map with ordered keys; \<open>first_key_value\<close>,
  \<open>first_entry\<close> and \<open>pop_first\<close> all act on its least key.
\<close>

definition first_key :: "('k::linorder, 'v) fmap \<Rightarrow> 'k option" where
  "first_key m = (if fmdom m = {||} then None else Some (fMin (fmdom m)))"

lemma first_key_None: "first_key m = None \<longleftrightarrow> m = fmempty"
  by (auto simp: first_key_def intro: fmap_ext)
     (metis fempty_iff fmap_ext fmdom_notD fmempty_lookup)

lemma first_key_SomeD:
  assumes "first_key m = Some k"
  shows "fmlookup m k \<noteq> None" and "fmlookup m k' \<noteq> None \<Longrightarrow> k \<le> k'"
proof -
  from assms have ne: "fmdom m \<noteq> {||}" and k: "k = fMin (fmdom m)"
    by (auto simp: first_key_def split: if_splits)
  then have "k |\<in>| fmdom m" by simp
  then show "fmlookup m k \<noteq> None" by auto
  assume "fmlookup m k' \<noteq> None"
  then have "k' |\<in>| fmdom m" by (metis fmdom_notD)
  then show "k \<le> k'" using k by simp
qed

lemma first_key_not_below:
  assumes "\<not> (\<exists>k. first_key m = Some k \<and> k < n)" and "k' < n"
  shows "fmlookup m k' = None"
proof (cases "first_key m")
  case None
  then show ?thesis by (simp add: first_key_None)
next
  case (Some k)
  with assms have "\<not> k \<le> k'" by (meson le_less_trans)
  then show ?thesis using first_key_SomeD(2) [OF Some] by blast
qed

lemma fcard_fmdom_drop: "fmlookup m k \<noteq> None \<Longrightarrow> fcard (fmdom (fmdrop k m)) < fcard (fmdom m)"
  by (metis fcard_fminus1_less fmdom_drop fmdom_notD)

section \<open>Maps from keys to sets of values\<close>

text \<open>
  \<open>values_at m k\<close> reads a map of sets with the empty set for a missing key. The updates are
  the two idioms of the code: \<open>m.entry(k).or_default().insert(x)\<close>, and \<open>remove(x)\<close> from the
  set at \<open>k\<close> followed by dropping the entry once its set is empty.
\<close>

definition values_at :: "('k, 'a fset) fmap \<Rightarrow> 'k \<Rightarrow> 'a fset" where
  "values_at m k = (case fmlookup m k of None \<Rightarrow> {||} | Some s \<Rightarrow> s)"

definition entry_insert :: "'k \<Rightarrow> 'a \<Rightarrow> ('k, 'a fset) fmap \<Rightarrow> ('k, 'a fset) fmap" where
  "entry_insert k x m = fmupd k (finsert x (values_at m k)) m"

definition entry_remove :: "'k \<Rightarrow> 'a \<Rightarrow> ('k, 'a fset) fmap \<Rightarrow> ('k, 'a fset) fmap" where
  "entry_remove k x m =
     (case fmlookup m k of
        None \<Rightarrow> m
      | Some s \<Rightarrow>
          (let s' = s |-| {|x|}
           in if s' = {||} then fmdrop k m else fmupd k s' m))"

definition no_empty_entry :: "('k, 'a fset) fmap \<Rightarrow> bool" where
  "no_empty_entry m \<longleftrightarrow> (\<forall>k. fmlookup m k \<noteq> Some {||})"

lemma values_at_empty [simp]: "values_at fmempty k = {||}"
  by (simp add: values_at_def)

lemma values_at_drop [map_specs]:
  "values_at (fmdrop k m) k' = (if k' = k then {||} else values_at m k')"
  by (simp add: values_at_def)

lemma values_at_entry_insert [map_specs]:
  "values_at (entry_insert k x m) k' =
     (if k' = k then finsert x (values_at m k) else values_at m k')"
  by (simp add: values_at_def entry_insert_def)

lemma values_at_entry_remove [map_specs]:
  "values_at (entry_remove k x m) k' =
     (if k' = k then values_at m k |-| {|x|} else values_at m k')"
  by (auto simp: values_at_def entry_remove_def Let_def split: option.splits)

lemma fmdom_entry_remove: "fmdom (entry_remove k x m) |\<subseteq>| fmdom m"
  by (auto simp: entry_remove_def Let_def split: option.splits if_splits)
     (simp add: fmdomI)

lemma fmdom_entry_removeD: "y |\<in>| fmdom (entry_remove k x m) \<Longrightarrow> y |\<in>| fmdom m"
  using fmdom_entry_remove by fastforce

lemma no_empty_entry_empty [simp]: "no_empty_entry fmempty"
  by (simp add: no_empty_entry_def)

lemma no_empty_entry_insert [inv_intros]:
  "no_empty_entry m \<Longrightarrow> no_empty_entry (entry_insert k x m)"
  by (simp add: no_empty_entry_def entry_insert_def)

lemma no_empty_entry_remove [inv_intros]:
  "no_empty_entry m \<Longrightarrow> no_empty_entry (entry_remove k x m)"
  by (auto simp: no_empty_entry_def entry_remove_def Let_def split: option.splits)

lemma no_empty_entry_drop [inv_intros]:
  "no_empty_entry m \<Longrightarrow> no_empty_entry (fmdrop k m)"
  by (simp add: no_empty_entry_def)

lemma values_at_SomeD: "fmlookup m k = Some s \<Longrightarrow> values_at m k = s"
  by (simp add: values_at_def)

lemma values_at_NoneD: "fmlookup m k = None \<Longrightarrow> values_at m k = {||}"
  by (simp add: values_at_def)

section \<open>Walking from a block to its ancestors\<close>

text \<open>
  \<open>is_ancestor lk par h a\<close>: hash \<open>a\<close> is reached from hash \<open>h\<close> by zero or more steps from a
  stored block to the hash of its parent. The last hash need not be stored.
\<close>

inductive is_ancestor :: "('k \<Rightarrow> 'b option) \<Rightarrow> ('b \<Rightarrow> 'k) \<Rightarrow> 'k \<Rightarrow> 'k \<Rightarrow> bool"
  for lk :: "'k \<Rightarrow> 'b option" and par :: "'b \<Rightarrow> 'k" where
  is_ancestor_refl: "is_ancestor lk par h h"
| is_ancestor_step: "lk h = Some b \<Longrightarrow> is_ancestor lk par (par b) a \<Longrightarrow> is_ancestor lk par h a"

inductive_cases ancestor_storedE: "is_ancestor lk par h a"

lemma ancestor_trans:
  "is_ancestor lk par h a \<Longrightarrow> is_ancestor lk par a c \<Longrightarrow> is_ancestor lk par h c"
  by (induction rule: is_ancestor.induct) (auto intro: is_ancestor.intros)

lemma ancestor_step_iff:
  "lk h = Some b \<Longrightarrow> is_ancestor lk par h a \<longleftrightarrow> a = h \<or> is_ancestor lk par (par b) a"
  by (auto intro: is_ancestor.intros elim: ancestor_storedE)

lemma ancestor_end: "lk h = None \<Longrightarrow> is_ancestor lk par h a \<longleftrightarrow> a = h"
  by (auto intro: is_ancestor.intros elim: ancestor_storedE)

text \<open>The ancestors of a hash form a chain.\<close>

lemma ancestor_linear:
  assumes "is_ancestor lk par h a" and "is_ancestor lk par h c"
  shows "is_ancestor lk par a c \<or> is_ancestor lk par c a"
  using assms
proof (induction rule: is_ancestor.induct)
  case (is_ancestor_step h b a)
  then show ?case
    by (metis is_ancestor.is_ancestor_step ancestor_step_iff)
qed auto

text \<open>
  A store keyed by hash whose blocks name their parent. \<open>rk\<close> ranks hashes so that a block's
  parent ranks below it: a collision-free hash gives such a rank on every finite set of blocks,
  since a block's hash is computed from its parent's.
\<close>

locale block_store =
  fixes lookup :: "'s \<Rightarrow> 'k \<Rightarrow> 'b option"
    and key :: "'b \<Rightarrow> 'k"
    and parent :: "'b \<Rightarrow> 'k"
    and rk :: "'k \<Rightarrow> nat"
    and invar :: "'s \<Rightarrow> bool"
  assumes lookup_key: "invar s \<Longrightarrow> lookup s h = Some b \<Longrightarrow> key b = h"
    and lookup_rank: "invar s \<Longrightarrow> lookup s h = Some b \<Longrightarrow> rk (parent b) < rk h"
begin

lemma walk_induct [consumes 1, case_names step]:
  assumes inv: "invar s"
    and step: "\<And>h. (\<And>b. lookup s h = Some b \<Longrightarrow> P (parent b)) \<Longrightarrow> P h"
  shows "P h"
proof (induction h rule: measure_induct_rule [where f = rk])
  case (less h)
  show ?case
    by (rule step) (rule less.IH, erule lookup_rank [OF inv])
qed

lemma ancestor_rank:
  assumes "invar s"
  shows "is_ancestor (lookup s) parent h a \<Longrightarrow> a = h \<or> rk a < rk h"
  using assms
proof (induction h rule: walk_induct)
  case (step h)
  from step.prems show ?case
  proof (rule ancestor_storedE)
    fix b assume b: "lookup s h = Some b" and "is_ancestor (lookup s) parent (parent b) a"
    with step.IH [of b] lookup_rank [OF assms b] show ?thesis by auto
  qed simp
qed

lemma ancestor_antisym:
  assumes "invar s" "is_ancestor (lookup s) parent h a" "is_ancestor (lookup s) parent a h"
  shows "a = h"
  using ancestor_rank [OF assms(1,2)] ancestor_rank [OF assms(1,3)] by auto

lemma parent_not_descendant:
  assumes inv: "invar s" and "lookup s h = Some b"
  shows "\<not> is_ancestor (lookup s) parent (parent b) h"
  using ancestor_rank [OF inv, of "parent b" h] lookup_rank [OF inv assms(2)] by auto


end

section \<open>What a worklist over a graph visits\<close>

text \<open>
  \<open>closure kids S\<close> is what is reached from \<open>S\<close> along \<open>kids\<close>. Popping \<open>p\<close> from a worklist,
  dropping its edges and appending its children visits the same nodes.
\<close>

inductive_set closure :: "('k \<Rightarrow> 'k fset) \<Rightarrow> 'k set \<Rightarrow> 'k set"
  for kids :: "'k \<Rightarrow> 'k fset" and S :: "'k set" where
  closure_start: "x \<in> S \<Longrightarrow> x \<in> closure kids S"
| closure_step: "q \<in> closure kids S \<Longrightarrow> c |\<in>| kids q \<Longrightarrow> c \<in> closure kids S"

lemma closure_empty [simp]: "closure kids {} = {}"
proof -
  have "x \<in> closure kids {} \<Longrightarrow> False" for x
    by (induction rule: closure.induct) auto
  then show ?thesis by blast
qed

lemma closure_mono_kids:
  assumes "\<And>q. kids' q |\<subseteq>| kids q" and "S' \<subseteq> closure kids S"
  shows "closure kids' S' \<subseteq> closure kids S"
proof
  fix x assume "x \<in> closure kids' S'"
  then show "x \<in> closure kids S"
    by (induction rule: closure.induct) (use assms in \<open>auto intro: closure.intros\<close>)
qed

lemma closure_pop:
  "closure kids (insert p S) = insert p (closure (kids(p := {||})) (S \<union> fset (kids p)))"
proof (intro equalityI subsetI)
  fix x assume "x \<in> closure kids (insert p S)"
  then show "x \<in> insert p (closure (kids(p := {||})) (S \<union> fset (kids p)))"
  proof (induction rule: closure.induct)
    case (closure_step q c)
    then show ?case
      by (cases "q = p") (auto intro: closure.intros)
  qed (auto intro: closure.intros)
next
  fix x assume x: "x \<in> insert p (closure (kids(p := {||})) (S \<union> fset (kids p)))"
  have "closure (kids(p := {||})) (S \<union> fset (kids p)) \<subseteq> closure kids (insert p S)"
    by (rule closure_mono_kids) (auto intro: closure.intros)
  with x show "x \<in> closure kids (insert p S)" by (auto intro: closure.intros)
qed

end
