(* ===== verification/Chain_Types.thy ===== *)
theory Chain_Types
  imports Prelude
begin

text \<open>
  The data the program passes around: block headers, sealed blocks and recovered blocks, each
  extending the one before as the Rust types dereference to one another, and the identifiers
  derived from them. A header carries the fields the program reads; the others are the opaque
  \<open>header_rest\<close>. Bodies are opaque. These are types of the libraries, so only their data is
  modelled here; library functions with behaviour of their own (hashing, \<open>parent_num_hash\<close>,
  sender recovery, consensus checks) are arguments of the definitions that call them.
\<close>

section \<open>Headers and blocks\<close>

type_synonym address = "160 word"

record header =
  number :: u64
  parent_hash :: b256
  state_root :: b256
  difficulty :: u256
  header_rest :: bytes

record sealed_header = header +
  hash :: b256

record sealed_block = sealed_header +
  body :: bytes

record recovered_block = sealed_block +
  senders :: "address list"

text \<open>The coercions between them: forgetting the senders, the body, the hash.\<close>

definition clone_sealed_block :: "'a sealed_block_scheme \<Rightarrow> sealed_block" where
  "clone_sealed_block b = sealed_block.truncate b"

definition clone_sealed_header :: "'a sealed_header_scheme \<Rightarrow> sealed_header" where
  "clone_sealed_header b = sealed_header.truncate b"

definition clone_header :: "'a header_scheme \<Rightarrow> header" where
  "clone_header b = header.truncate b"

lemma clone_sealed_block_sel [simp]:
  "number (clone_sealed_block b) = number b"
  "parent_hash (clone_sealed_block b) = parent_hash b"
  "state_root (clone_sealed_block b) = state_root b"
  "difficulty (clone_sealed_block b) = difficulty b"
  "header_rest (clone_sealed_block b) = header_rest b"
  "hash (clone_sealed_block b) = hash b"
  "body (clone_sealed_block b) = body b"
  by (simp_all add: clone_sealed_block_def sealed_block.defs)

lemma clone_sealed_header_sel [simp]:
  "number (clone_sealed_header b) = number b"
  "parent_hash (clone_sealed_header b) = parent_hash b"
  "state_root (clone_sealed_header b) = state_root b"
  "difficulty (clone_sealed_header b) = difficulty b"
  "header_rest (clone_sealed_header b) = header_rest b"
  "hash (clone_sealed_header b) = hash b"
  by (simp_all add: clone_sealed_header_def sealed_header.defs)

lemma clone_header_sel [simp]:
  "number (clone_header b) = number b"
  "parent_hash (clone_header b) = parent_hash b"
  "state_root (clone_header b) = state_root b"
  "difficulty (clone_header b) = difficulty b"
  "header_rest (clone_header b) = header_rest b"
  by (simp_all add: clone_header_def header.defs)

lemma clone_sealed_header_block [simp]:
  "clone_sealed_header (clone_sealed_block b) = clone_sealed_header b"
  by (simp add: clone_sealed_header_def clone_sealed_block_def sealed_header.defs
      sealed_block.defs)

section \<open>Identifiers\<close>

record num_hash =
  nh_number :: u64
  nh_hash :: b256

definition num_hash :: "'a sealed_header_scheme \<Rightarrow> num_hash" where
  "num_hash b = \<lparr>nh_number = number b, nh_hash = hash b\<rparr>"

lemma num_hash_sel [simp]:
  "nh_number (num_hash b) = number b" "nh_hash (num_hash b) = hash b"
  by (simp_all add: num_hash_def)

text \<open>
  \<open>parent_num_hash()\<close> of a header is a library function. Its documentation: the parent's
  number and hash; the genesis block's parent has number 0.
\<close>

type_synonym parent_num_hash_fn = "sealed_header \<Rightarrow> num_hash"

definition parent_num_hash_law :: "parent_num_hash_fn \<Rightarrow> bool" where
  "parent_num_hash_law pnh \<longleftrightarrow>
     (\<forall>h. nh_hash (pnh h) = parent_hash h \<and> nh_number (pnh h) = saturating_sub (number h) 1)"

definition std_parent_num_hash :: parent_num_hash_fn where
  "std_parent_num_hash h = \<lparr>nh_number = saturating_sub (number h) 1, nh_hash = parent_hash h\<rparr>"

lemma std_parent_num_hash_law [simp]: "parent_num_hash_law std_parent_num_hash"
  by (simp add: parent_num_hash_law_def std_parent_num_hash_def)

section \<open>Errors of the libraries the program constructs or inspects\<close>

datatype provider_error =
    HeaderNotFound b256
  | SenderRecoveryError
  | TrieWitnessError string
  | StateForNumberNotFound u64
  | OtherProviderError string

datatype consensus_error =
    BodyStateRootDiff b256 b256
  | OtherConsensusError string

text \<open>
  A hash function without collisions on the blocks that occur ranks every block above its
  parent.
\<close>

definition hash_ranked :: "(b256 \<Rightarrow> nat) \<Rightarrow> 'a sealed_header_scheme \<Rightarrow> bool" where
  "hash_ranked rk b \<longleftrightarrow> rk (parent_hash b) < rk (hash b)"

text \<open>Blocks of a chain for the concrete instances.\<close>

definition mk_block :: "u64 \<Rightarrow> b256 \<Rightarrow> b256 \<Rightarrow> recovered_block" where
  "mk_block n h p = \<lparr>number = n, parent_hash = p, state_root = 0, difficulty = 0,
     header_rest = [], hash = h, body = [], senders = []\<rparr>"

lemma mk_block_sel [simp]:
  "number (mk_block n h p) = n" "parent_hash (mk_block n h p) = p"
  "hash (mk_block n h p) = h" "state_root (mk_block n h p) = 0"
  "difficulty (mk_block n h p) = 0" "body (mk_block n h p) = []"
  by (simp_all add: mk_block_def)

definition ex_blocks :: "recovered_block set" where
  "ex_blocks = {mk_block 1 11 10, mk_block 2 12 11, mk_block 3 13 12}"

lemma ex_blocks_ranked: "b \<in> ex_blocks \<Longrightarrow> hash_ranked unat b"
  by (auto simp: hash_ranked_def ex_blocks_def)

end
