(* ===== verification/Chain_State.thy ===== *)
theory Chain_State
  imports Chain_Types
begin

text \<open>
  The in-memory blockchain state, \<open>crates/provider/src/chain_state.rs\<close>: every validated block by
  hash, the block hashes by number, the canonical hash of each number and the proofs. The lock
  around the state is held for the whole of each operation, so an operation is a function on the
  state.
\<close>

section \<open>State and operations\<close>

record 'p chain_state =
  canonical_hashes_by_number :: "(u64, b256) fmap"
  blocks_by_hash :: "(b256, recovered_block) fmap"
  block_hashes_by_number :: "(u64, b256 fset) fmap"
  proofs :: "(b256, 'p) fmap"

definition chain_state_default :: "'p chain_state" where
  "chain_state_default = \<lparr>canonical_hashes_by_number = fmempty, blocks_by_hash = fmempty,
     block_hashes_by_number = fmempty, proofs = fmempty\<rparr>"

definition is_hash_canonical :: "'p chain_state \<Rightarrow> b256 \<Rightarrow> bool" where
  "is_hash_canonical cs h \<longleftrightarrow> h |\<in>| fmran (canonical_hashes_by_number cs)"

definition map_recovered_block ::
  "'p chain_state \<Rightarrow> b256 \<Rightarrow> (recovered_block \<Rightarrow> 'r) \<Rightarrow> 'r option" where
  "map_recovered_block cs h to_type = map_option to_type (fmlookup (blocks_by_hash cs) h)"

text \<open>
  The loop of \<open>block_hash\<close>. It ends with the hash of the ancestor at \<open>target\<close>, or with the
  first ancestor that is not in memory. \<open>None\<close> is a loop that does not end.
\<close>

partial_function (option) block_hash_loop ::
  "parent_num_hash_fn \<Rightarrow> 'p chain_state \<Rightarrow> num_hash \<Rightarrow> u64 \<Rightarrow> (b256 + num_hash) option" where
  "block_hash_loop pnh cs ancestor target =
     (case fmlookup (blocks_by_hash cs) (nh_hash ancestor) of
        Some block \<Rightarrow>
          if number block = target then Some (Inl (hash block))
          else block_hash_loop pnh cs (pnh (clone_sealed_header block)) target
      | None \<Rightarrow> Some (Inr ancestor))"

declare block_hash_loop.simps [code]

definition block_hash ::
  "parent_num_hash_fn \<Rightarrow> 'p chain_state \<Rightarrow> num_hash \<Rightarrow> u64 \<Rightarrow> b256 option option" where
  "block_hash pnh cs parent target =
     (case block_hash_loop pnh cs parent target of
        None \<Rightarrow> None
      | Some (Inl h) \<Rightarrow> Some (Some h)
      | Some (Inr ancestor) \<Rightarrow>
          if target \<le> nh_number ancestor \<and>
             fmlookup (canonical_hashes_by_number cs) (nh_number ancestor) = Some (nh_hash ancestor)
          then Some (fmlookup (canonical_hashes_by_number cs) target)
          else Some None)"

definition insert_canonical_hash :: "u64 \<Rightarrow> b256 \<Rightarrow> 'p chain_state \<Rightarrow> 'p chain_state" where
  "insert_canonical_hash n h cs =
     cs\<lparr>canonical_hashes_by_number := fmupd n h (canonical_hashes_by_number cs)\<rparr>"

definition remove_canonical_hash :: "u64 \<Rightarrow> b256 \<Rightarrow> 'p chain_state \<Rightarrow> 'p chain_state" where
  "remove_canonical_hash n h cs =
     (case fmlookup (canonical_hashes_by_number cs) n of
        Some h' \<Rightarrow>
          if h' = h
          then cs\<lparr>canonical_hashes_by_number := fmdrop n (canonical_hashes_by_number cs)\<rparr>
          else cs
      | None \<Rightarrow> cs)"

definition block_number :: "'p chain_state \<Rightarrow> b256 \<Rightarrow> u64 option" where
  "block_number cs h = map_recovered_block cs h number"

definition header_of :: "'p chain_state \<Rightarrow> b256 \<Rightarrow> header option" where
  "header_of cs h = map_recovered_block cs h clone_header"

definition sealed_header :: "'p chain_state \<Rightarrow> b256 \<Rightarrow> sealed_header option" where
  "sealed_header cs h = map_recovered_block cs h clone_sealed_header"

definition block_body :: "'p chain_state \<Rightarrow> b256 \<Rightarrow> bytes option" where
  "block_body cs h = map_recovered_block cs h body"

definition sealed_block :: "'p chain_state \<Rightarrow> b256 \<Rightarrow> sealed_block option" where
  "sealed_block cs h = map_recovered_block cs h clone_sealed_block"

definition recovered_block :: "'p chain_state \<Rightarrow> b256 \<Rightarrow> recovered_block option" where
  "recovered_block cs h = map_recovered_block cs h id"

definition proof_of :: "'p chain_state \<Rightarrow> b256 \<Rightarrow> 'p option" where
  "proof_of cs h = fmlookup (proofs cs) h"

definition insert_block :: "recovered_block \<Rightarrow> 'p option \<Rightarrow> 'p chain_state \<Rightarrow> 'p chain_state" where
  "insert_block block maybe_proof cs =
     (let h = hash block;
          cs = cs\<lparr>block_hashes_by_number :=
                 entry_insert (number block) h (block_hashes_by_number cs)\<rparr>;
          cs = cs\<lparr>blocks_by_hash := fmupd h block (blocks_by_hash cs)\<rparr>
      in case maybe_proof of
           Some p \<Rightarrow> cs\<lparr>proofs := fmupd h p (proofs cs)\<rparr>
         | None \<Rightarrow> cs)"

text \<open>
  The first loop of \<open>remove_blocks_on_finalized\<close>: pop the least number while it is below the
  finalized one, and remove each of its hashes from the blocks and the proofs. The removals of
  one number do not depend on the order of the hash set.
\<close>

definition pop_number :: "u64 \<Rightarrow> 'p chain_state \<Rightarrow> 'p chain_state" where
  "pop_number k cs =
     (let block_hashes = values_at (block_hashes_by_number cs) k
      in cs\<lparr>block_hashes_by_number := fmdrop k (block_hashes_by_number cs),
            blocks_by_hash := fmdrop_fset block_hashes (blocks_by_hash cs),
            proofs := fmdrop_fset block_hashes (proofs cs)\<rparr>)"

function remove_blocks_below :: "u64 \<Rightarrow> 'p chain_state \<Rightarrow> 'p chain_state" where
  "remove_blocks_below n cs =
     (case first_key (block_hashes_by_number cs) of
        Some k \<Rightarrow>
          if k < n then remove_blocks_below n (pop_number k cs)
          else cs
      | None \<Rightarrow> cs)"
  by pat_completeness auto
termination
  by (relation "measure (\<lambda>(n, cs). fcard (fmdom (block_hashes_by_number cs)))")
     (auto simp: pop_number_def Let_def simp del: fmdom_drop intro!: fcard_fmdom_drop dest: first_key_SomeD(1))

text \<open>The second loop: pop the canonical hashes below the given number.\<close>

function remove_canonical_below :: "u64 \<Rightarrow> 'p chain_state \<Rightarrow> 'p chain_state" where
  "remove_canonical_below n cs =
     (case first_key (canonical_hashes_by_number cs) of
        Some k \<Rightarrow>
          if k < n then
            remove_canonical_below n
              (cs\<lparr>canonical_hashes_by_number := fmdrop k (canonical_hashes_by_number cs)\<rparr>)
          else cs
      | None \<Rightarrow> cs)"
  by pat_completeness auto
termination
  by (relation "measure (\<lambda>(n, cs). fcard (fmdom (canonical_hashes_by_number cs)))")
     (auto simp del: fmdom_drop intro!: fcard_fmdom_drop dest: first_key_SomeD(1))

declare remove_blocks_below.simps [simp del] remove_canonical_below.simps [simp del]

definition remove_blocks_on_finalized :: "b256 \<Rightarrow> 'p chain_state \<Rightarrow> 'p chain_state" where
  "remove_blocks_on_finalized finalized_hash cs =
     (case fmlookup (blocks_by_hash cs) finalized_hash of
        Some finalized \<Rightarrow>
          (let finalized_number = number finalized;
               cs = remove_blocks_below finalized_number cs;
               last_block_hash_number = saturating_sub finalized_number 256
           in remove_canonical_below last_block_hash_number cs)
      | None \<Rightarrow> cs)"

section \<open>Lookup after each operation\<close>

lemma insert_canonical_hash_sel [simp]:
  "blocks_by_hash (insert_canonical_hash n h cs) = blocks_by_hash cs"
  "block_hashes_by_number (insert_canonical_hash n h cs) = block_hashes_by_number cs"
  "proofs (insert_canonical_hash n h cs) = proofs cs"
  "canonical_hashes_by_number (insert_canonical_hash n h cs) =
     fmupd n h (canonical_hashes_by_number cs)"
  by (simp_all add: insert_canonical_hash_def)

lemma remove_canonical_hash_sel [simp]:
  "blocks_by_hash (remove_canonical_hash n h cs) = blocks_by_hash cs"
  "block_hashes_by_number (remove_canonical_hash n h cs) = block_hashes_by_number cs"
  "proofs (remove_canonical_hash n h cs) = proofs cs"
  by (simp_all add: remove_canonical_hash_def split: option.splits)

lemma remove_canonical_hash_lookup [map_specs]:
  "fmlookup (canonical_hashes_by_number (remove_canonical_hash n h cs)) k =
     (if k = n \<and> fmlookup (canonical_hashes_by_number cs) n = Some h then None
      else fmlookup (canonical_hashes_by_number cs) k)"
  by (auto simp: remove_canonical_hash_def split: option.splits)

lemma insert_block_sel [simp]:
  "canonical_hashes_by_number (insert_block b mp cs) = canonical_hashes_by_number cs"
  "blocks_by_hash (insert_block b mp cs) = fmupd (hash b) b (blocks_by_hash cs)"
  "block_hashes_by_number (insert_block b mp cs) =
     entry_insert (number b) (hash b) (block_hashes_by_number cs)"
  "proofs (insert_block b mp cs) =
     (case mp of Some p \<Rightarrow> fmupd (hash b) p (proofs cs) | None \<Rightarrow> proofs cs)"
  by (simp_all add: insert_block_def Let_def split: option.splits)

lemma sealed_header_None: "sealed_header cs h = None \<longleftrightarrow> fmlookup (blocks_by_hash cs) h = None"
  by (simp add: sealed_header_def map_recovered_block_def)

lemma sealed_header_Some:
  "sealed_header cs h = Some x \<longleftrightarrow>
     (\<exists>b. fmlookup (blocks_by_hash cs) h = Some b \<and> x = clone_sealed_header b)"
  by (auto simp: sealed_header_def map_recovered_block_def)

section \<open>Well-formed states\<close>

text \<open>
  The index by number lists exactly the stored blocks, and a proof belongs to a stored block.
\<close>

definition cs_wf :: "'p chain_state \<Rightarrow> bool" where
  "cs_wf cs \<longleftrightarrow>
     (\<forall>h b. fmlookup (blocks_by_hash cs) h = Some b \<longrightarrow> hash b = h) \<and>
     (\<forall>n h. h |\<in>| values_at (block_hashes_by_number cs) n \<longleftrightarrow>
        (\<exists>b. fmlookup (blocks_by_hash cs) h = Some b \<and> number b = n)) \<and>
     no_empty_entry (block_hashes_by_number cs) \<and>
     (\<forall>h. fmlookup (proofs cs) h \<noteq> None \<longrightarrow> fmlookup (blocks_by_hash cs) h \<noteq> None)"

definition cs_ranked :: "(b256 \<Rightarrow> nat) \<Rightarrow> 'p chain_state \<Rightarrow> bool" where
  "cs_ranked rk cs \<longleftrightarrow> (\<forall>h b. fmlookup (blocks_by_hash cs) h = Some b \<longrightarrow> hash_ranked rk b)"

lemma cs_wf_hash: "cs_wf cs \<Longrightarrow> fmlookup (blocks_by_hash cs) h = Some b \<Longrightarrow> hash b = h"
  by (simp add: cs_wf_def)

lemma cs_wf_index:
  "cs_wf cs \<Longrightarrow> h |\<in>| values_at (block_hashes_by_number cs) n \<longleftrightarrow>
     (\<exists>b. fmlookup (blocks_by_hash cs) h = Some b \<and> number b = n)"
  by (simp add: cs_wf_def)

lemma cs_wf_default [simp, inv_intros]: "cs_wf chain_state_default"
  by (simp add: cs_wf_def chain_state_default_def)

lemma cs_wf_insert_canonical_hash [inv_intros]: "cs_wf cs \<Longrightarrow> cs_wf (insert_canonical_hash n h cs)"
  by (simp add: cs_wf_def)

lemma cs_wf_remove_canonical_hash [inv_intros]: "cs_wf cs \<Longrightarrow> cs_wf (remove_canonical_hash n h cs)"
  by (simp add: cs_wf_def)

lemma cs_wf_insert_block [inv_intros]:
  assumes wf: "cs_wf cs"
    and same: "\<And>b'. fmlookup (blocks_by_hash cs) (hash b) = Some b' \<Longrightarrow> number b' = number b"
  shows "cs_wf (insert_block b mp cs)"
proof -
  have "no_empty_entry (entry_insert (number b) (hash b) (block_hashes_by_number cs))"
    using wf by (simp add: cs_wf_def inv_intros)
  moreover have "h |\<in>| values_at (block_hashes_by_number (insert_block b mp cs)) n \<longleftrightarrow>
      (\<exists>b'. fmlookup (blocks_by_hash (insert_block b mp cs)) h = Some b' \<and> number b' = n)" for n h
  proof (cases "h = hash b")
    case True
    have "hash b |\<in>| values_at (block_hashes_by_number cs) n \<Longrightarrow> n = number b"
      unfolding cs_wf_index [OF wf] by (elim exE conjE) (drule same, simp)
    with True show ?thesis by (auto simp: map_specs)
  next
    case False
    then show ?thesis by (simp add: map_specs cs_wf_index [OF wf])
  qed
  ultimately show ?thesis
    using wf by (auto simp: cs_wf_def split: option.splits if_splits)
qed

lemma cs_ranked_sel [inv_intros]:
  "cs_ranked rk chain_state_default"
  "cs_ranked rk cs \<Longrightarrow> cs_ranked rk (insert_canonical_hash n h cs)"
  "cs_ranked rk cs \<Longrightarrow> cs_ranked rk (remove_canonical_hash n h cs)"
  "cs_ranked rk cs \<Longrightarrow> hash_ranked rk b \<Longrightarrow> cs_ranked rk (insert_block b mp cs)"
  by (simp_all add: cs_ranked_def chain_state_default_def)

text \<open>A well-formed state of ranked blocks is a store of linked blocks.\<close>

interpretation cs: block_store "\<lambda>cs. fmlookup (blocks_by_hash cs)" hash parent_hash rk
    "\<lambda>cs. cs_wf cs \<and> cs_ranked rk cs" for rk
  by unfold_locales (auto simp: cs_wf_hash cs_ranked_def hash_ranked_def)

section \<open>Pruning on finalization\<close>

lemma pop_number_sel [simp]:
  "canonical_hashes_by_number (pop_number k cs) = canonical_hashes_by_number cs"
  "block_hashes_by_number (pop_number k cs) = fmdrop k (block_hashes_by_number cs)"
  by (simp_all add: pop_number_def Let_def)

lemma pop_number_lookup:
  assumes "cs_wf cs"
  shows "fmlookup (blocks_by_hash (pop_number k cs)) h =
      (case fmlookup (blocks_by_hash cs) h of
         Some b \<Rightarrow> if number b = k then None else Some b | None \<Rightarrow> None)"
    and "fmlookup (proofs (pop_number k cs)) h =
      (if \<exists>b. fmlookup (blocks_by_hash cs) h = Some b \<and> number b = k then None
       else fmlookup (proofs cs) h)"
  using cs_wf_index [OF assms, of h k]
  by (auto simp: pop_number_def Let_def split: option.splits)

lemma pop_number_wf [inv_intros]:
  assumes "cs_wf cs"
  shows "cs_wf (pop_number k cs)"
proof -
  have "h |\<in>| values_at (fmdrop k (block_hashes_by_number cs)) n \<longleftrightarrow>
      (\<exists>b. fmlookup (blocks_by_hash (pop_number k cs)) h = Some b \<and> number b = n)" for h n
    by (auto simp: map_specs cs_wf_index [OF assms] pop_number_lookup(1) [OF assms]
        split: option.splits)
  moreover have "no_empty_entry (fmdrop k (block_hashes_by_number cs))"
    using assms by (simp add: cs_wf_def inv_intros)
  ultimately show ?thesis
    using assms unfolding cs_wf_def [of "pop_number k cs"]
    by (auto simp: pop_number_lookup [OF assms] cs_wf_hash split: option.splits)
       (auto simp: cs_wf_def)
qed

lemma remove_blocks_below_correct:
  assumes "cs_wf cs"
  shows "cs_wf (remove_blocks_below n cs) \<and>
     canonical_hashes_by_number (remove_blocks_below n cs) = canonical_hashes_by_number cs \<and>
     (\<forall>h. fmlookup (blocks_by_hash (remove_blocks_below n cs)) h =
        (case fmlookup (blocks_by_hash cs) h of
           Some b \<Rightarrow> if number b < n then None else Some b | None \<Rightarrow> None)) \<and>
     (\<forall>h. fmlookup (proofs (remove_blocks_below n cs)) h =
        (if \<exists>b. fmlookup (blocks_by_hash cs) h = Some b \<and> number b < n then None
         else fmlookup (proofs cs) h))"
  using assms
proof (induction n cs rule: remove_blocks_below.induct)
  case (1 n cs)
  show ?case
  proof (cases "\<exists>k. first_key (block_hashes_by_number cs) = Some k \<and> k < n")
    case True
    then obtain k where k: "first_key (block_hashes_by_number cs) = Some k" "k < n" by blast
    have step: "remove_blocks_below n cs = remove_blocks_below n (pop_number k cs)"
      using k by (subst remove_blocks_below.simps) simp
    show ?thesis
      unfolding step using "1.IH" [OF k pop_number_wf [OF "1.prems"]] k(2)
      by (auto simp: pop_number_lookup [OF "1.prems"] split: option.splits)
  next
    case False
    then have stop: "remove_blocks_below n cs = cs"
      by (subst remove_blocks_below.simps) (auto split: option.splits)
    have "\<not> number b < n" if "fmlookup (blocks_by_hash cs) h = Some b" for h b
    proof -
      have "h |\<in>| values_at (block_hashes_by_number cs) (number b)"
        using that by (simp add: cs_wf_index [OF "1.prems"])
      then have "fmlookup (block_hashes_by_number cs) (number b) \<noteq> None"
        by (auto simp: values_at_def split: option.splits)
      then show ?thesis using first_key_not_below [OF False] by auto
    qed
    then show ?thesis unfolding stop using "1.prems" by (auto split: option.splits)
  qed
qed

lemma remove_canonical_below_correct:
  "blocks_by_hash (remove_canonical_below n cs) = blocks_by_hash cs \<and>
   block_hashes_by_number (remove_canonical_below n cs) = block_hashes_by_number cs \<and>
   proofs (remove_canonical_below n cs) = proofs cs \<and>
   (\<forall>k. fmlookup (canonical_hashes_by_number (remove_canonical_below n cs)) k =
      (if k < n then None else fmlookup (canonical_hashes_by_number cs) k))"
proof (induction n cs rule: remove_canonical_below.induct)
  case (1 n cs)
  show ?case
  proof (cases "\<exists>k. first_key (canonical_hashes_by_number cs) = Some k \<and> k < n")
    case True
    then obtain k where k: "first_key (canonical_hashes_by_number cs) = Some k" "k < n" by blast
    then have step: "remove_canonical_below n cs = remove_canonical_below n
        (cs\<lparr>canonical_hashes_by_number := fmdrop k (canonical_hashes_by_number cs)\<rparr>)"
      by (subst remove_canonical_below.simps) simp
    show ?thesis unfolding step using "1.IH" [OF k] k(2) by auto
  next
    case False
    then have stop: "remove_canonical_below n cs = cs"
      by (subst remove_canonical_below.simps) (auto split: option.splits)
    have "fmlookup (canonical_hashes_by_number cs) k = None" if "k < n" for k
      using first_key_not_below [OF False that] .
    then show ?thesis unfolding stop by simp
  qed
qed

lemma cs_wf_remove_canonical_below [inv_intros]:
  "cs_wf cs \<Longrightarrow> cs_wf (remove_canonical_below n cs)"
  using remove_canonical_below_correct [of n cs] by (simp add: cs_wf_def)

lemma cs_wf_remove_blocks_on_finalized [inv_intros]:
  "cs_wf cs \<Longrightarrow> cs_wf (remove_blocks_on_finalized h cs)"
  by (auto simp: remove_blocks_on_finalized_def Let_def remove_blocks_below_correct
      intro!: inv_intros split: option.splits)

section \<open>The loop of block hash\<close>

lemma block_hash_loop_step:
  "fmlookup (blocks_by_hash cs) (nh_hash a) = Some b \<Longrightarrow> number b \<noteq> target \<Longrightarrow>
   block_hash_loop pnh cs a target = block_hash_loop pnh cs (pnh (clone_sealed_header b)) target"
  by (subst block_hash_loop.simps) simp

lemma block_hash_loop_stop:
  "fmlookup (blocks_by_hash cs) (nh_hash a) = Some b \<Longrightarrow> number b = target \<Longrightarrow>
   block_hash_loop pnh cs a target = Some (Inl (hash b))"
  "fmlookup (blocks_by_hash cs) (nh_hash a) = None \<Longrightarrow>
   block_hash_loop pnh cs a target = Some (Inr a)"
  by (subst block_hash_loop.simps, simp)+

text \<open>
  The loop returns; it finds the nearest stored ancestor with the target number if there is one,
  and otherwise ends at the ancestor that is not stored.
\<close>

definition stored_ancestor_at :: "'p chain_state \<Rightarrow> b256 \<Rightarrow> u64 \<Rightarrow> b256 \<Rightarrow> bool" where
  "stored_ancestor_at cs h n a \<longleftrightarrow>
     is_ancestor (fmlookup (blocks_by_hash cs)) parent_hash h a \<and>
     (\<exists>b. fmlookup (blocks_by_hash cs) a = Some b \<and> number b = n)"

lemma stored_ancestor_at_step:
  assumes "fmlookup (blocks_by_hash cs) h = Some b"
  shows "stored_ancestor_at cs h n a \<longleftrightarrow>
     (a = h \<and> number b = n) \<or> stored_ancestor_at cs (parent_hash b) n a"
  using assms by (auto simp: stored_ancestor_at_def ancestor_step_iff)

lemma block_hash_loop_correct:
  assumes inv: "cs_wf cs" "cs_ranked rk cs" and pnh: "parent_num_hash_law pnh"
  shows "\<exists>r. block_hash_loop pnh cs a target = Some r \<and>
    (case r of
       Inl h \<Rightarrow> stored_ancestor_at cs (nh_hash a) target h
     | Inr e \<Rightarrow> (\<forall>h. \<not> stored_ancestor_at cs (nh_hash a) target h) \<and>
               is_ancestor (fmlookup (blocks_by_hash cs)) parent_hash (nh_hash a) (nh_hash e) \<and>
               fmlookup (blocks_by_hash cs) (nh_hash e) = None)"
    (is "?P a")
proof -
  from inv have "cs_wf cs \<and> cs_ranked rk cs" by simp
  then have "\<forall>a. nh_hash a = h \<longrightarrow> ?P a" for h
  proof (induction h rule: cs.walk_induct)
    case (step h)
    show ?case
    proof (intro allI impI)
      fix a :: num_hash assume a: "nh_hash a = h"
      show "?P a"
      proof (cases "fmlookup (blocks_by_hash cs) h")
        case None
        then show ?thesis
          using a block_hash_loop_stop(2) [of cs a]
          by (auto simp: stored_ancestor_at_def ancestor_end intro: is_ancestor.intros)
      next
        case (Some b)
        note sb = Some
        show ?thesis
        proof (cases "number b = target")
          case True
          then show ?thesis
            using a sb block_hash_loop_stop(1) [of cs a b target pnh] cs_wf_hash [OF inv(1) sb]
            by (auto simp: stored_ancestor_at_def intro: is_ancestor.intros)
        next
          case False
          let ?p = "pnh (clone_sealed_header b)"
          have p: "nh_hash ?p = parent_hash b"
            using pnh by (simp add: parent_num_hash_law_def)
          have "?P ?p" using step [OF sb] p by blast
          then obtain r where "block_hash_loop pnh cs ?p target = Some r"
            and "case r of
               Inl h \<Rightarrow> stored_ancestor_at cs (parent_hash b) target h
             | Inr e \<Rightarrow> (\<forall>h. \<not> stored_ancestor_at cs (parent_hash b) target h) \<and>
               is_ancestor (fmlookup (blocks_by_hash cs)) parent_hash (parent_hash b) (nh_hash e) \<and>
               fmlookup (blocks_by_hash cs) (nh_hash e) = None"
            unfolding p by blast
          then show ?thesis
            using a False block_hash_loop_step [of cs a b target pnh] sb
            by (auto simp: stored_ancestor_at_step [OF sb] split: sum.splits
                intro: is_ancestor.intros)
        qed
      qed
    qed
  qed
  then show ?thesis by blast
qed

lemma block_hash_spec:
  assumes "cs_wf cs" and "cs_ranked rk cs" and "parent_num_hash_law pnh"
  shows "\<exists>r. block_hash pnh cs parent n = Some r \<and>
    (if \<exists>a. stored_ancestor_at cs (nh_hash parent) n a
     then \<exists>a. r = Some a \<and> stored_ancestor_at cs (nh_hash parent) n a
     else r = None \<or>
       (r = fmlookup (canonical_hashes_by_number cs) n \<and>
        (\<exists>e k. is_ancestor (fmlookup (blocks_by_hash cs)) parent_hash (nh_hash parent) e \<and>
               fmlookup (blocks_by_hash cs) e = None \<and> n \<le> k \<and>
               fmlookup (canonical_hashes_by_number cs) k = Some e)))"
proof -
  obtain r where r: "block_hash_loop pnh cs parent n = Some r"
    and spec: "case r of
       Inl h \<Rightarrow> stored_ancestor_at cs (nh_hash parent) n h
     | Inr e \<Rightarrow> (\<forall>h. \<not> stored_ancestor_at cs (nh_hash parent) n h) \<and>
               is_ancestor (fmlookup (blocks_by_hash cs)) parent_hash (nh_hash parent) (nh_hash e) \<and>
               fmlookup (blocks_by_hash cs) (nh_hash e) = None"
    using block_hash_loop_correct [OF assms, of parent n] by blast
  show ?thesis
  proof (cases r)
    case (Inl h)
    with r spec show ?thesis by (auto simp: block_hash_def)
  next
    case (Inr e)
    with spec have none: "\<not> (\<exists>a. stored_ancestor_at cs (nh_hash parent) n a)" by simp
    show ?thesis
      using Inr r spec by (simp add: block_hash_def none) blast
  qed
qed

section \<open>Properties\<close>

text \<open>
  The states of a chain state whose inserted blocks come from \<open>U\<close>, under any sequence of its
  operations.
\<close>

inductive cs_reachable :: "recovered_block set \<Rightarrow> 'p chain_state \<Rightarrow> bool"
  for U :: "recovered_block set" where
  cs_start: "cs_reachable U chain_state_default"
| cs_insert: "cs_reachable U cs \<Longrightarrow> b \<in> U \<Longrightarrow> cs_reachable U (insert_block b mp cs)"
| cs_canonical: "cs_reachable U cs \<Longrightarrow> cs_reachable U (insert_canonical_hash n h cs)"
| cs_uncanonical: "cs_reachable U cs \<Longrightarrow> cs_reachable U (remove_canonical_hash n h cs)"
| cs_finalized: "cs_reachable U cs \<Longrightarrow> cs_reachable U (remove_blocks_on_finalized h cs)"

definition hashes_agree :: "recovered_block set \<Rightarrow> bool" where
  "hashes_agree U \<longleftrightarrow> (\<forall>a b. a \<in> U \<longrightarrow> b \<in> U \<longrightarrow> hash a = hash b \<longrightarrow> number a = number b)"

lemma remove_blocks_on_finalized_lookup:
  assumes wf: "cs_wf cs" and f: "fmlookup (blocks_by_hash cs) h\<^sub>f = Some f"
  shows "fmlookup (blocks_by_hash (remove_blocks_on_finalized h\<^sub>f cs)) h =
      (case fmlookup (blocks_by_hash cs) h of
         Some b \<Rightarrow> if number b < number f then None else Some b | None \<Rightarrow> None)"
    and "fmlookup (proofs (remove_blocks_on_finalized h\<^sub>f cs)) h =
      (if \<exists>b. fmlookup (blocks_by_hash cs) h = Some b \<and> number b < number f then None
       else fmlookup (proofs cs) h)"
    and "fmlookup (canonical_hashes_by_number (remove_blocks_on_finalized h\<^sub>f cs)) k =
      (if k < saturating_sub (number f) 256 then None
       else fmlookup (canonical_hashes_by_number cs) k)"
  using remove_blocks_below_correct [OF wf, of "number f"]
    remove_canonical_below_correct [of "saturating_sub (number f) 256"
      "remove_blocks_below (number f) cs"]
  by (simp_all add: remove_blocks_on_finalized_def f Let_def)

lemma remove_blocks_on_finalized_unknown:
  "fmlookup (blocks_by_hash cs) h = None \<Longrightarrow> remove_blocks_on_finalized h cs = cs"
  by (simp add: remove_blocks_on_finalized_def)

lemma remove_blocks_on_finalized_subset:
  assumes "cs_wf cs"
    and "fmlookup (blocks_by_hash (remove_blocks_on_finalized h\<^sub>f cs)) h = Some b"
  shows "fmlookup (blocks_by_hash cs) h = Some b"
  using assms remove_blocks_on_finalized_unknown [of cs h\<^sub>f]
    remove_blocks_on_finalized_lookup(1) [OF assms(1), of h\<^sub>f _ h]
  by (cases "fmlookup (blocks_by_hash cs) h\<^sub>f") (auto split: option.splits if_splits)

lemma cs_ranked_remove_blocks_on_finalized [inv_intros]:
  "cs_wf cs \<Longrightarrow> cs_ranked rk cs \<Longrightarrow> cs_ranked rk (remove_blocks_on_finalized h cs)"
  by (auto simp: cs_ranked_def dest: remove_blocks_on_finalized_subset)

text \<open>
  C15: in every state a chain state can reach, the index by number lists exactly the stored blocks
  under their numbers, every block is stored under its own hash, no number has an empty set and
  every proof belongs to a stored block; and only inserted blocks are stored. The blocks inserted
  must agree on the number whenever they agree on the hash.
\<close>

theorem chain_state_wf:
  assumes "hashes_agree U" and "cs_reachable U cs"
  shows "cs_wf cs \<and> (\<forall>h b. fmlookup (blocks_by_hash cs) h = Some b \<longrightarrow> b \<in> U)"
  using assms(2)
proof (induction rule: cs_reachable.induct)
  case cs_start
  show ?case by (simp add: chain_state_default_def [of] inv_intros cs_wf_def)
next
  case (cs_insert cs b mp)
  then have wf: "cs_wf cs" and sub: "\<And>h b. fmlookup (blocks_by_hash cs) h = Some b \<Longrightarrow> b \<in> U"
    by blast+
  have "number b' = number b" if "fmlookup (blocks_by_hash cs) (hash b) = Some b'" for b'
    using assms(1) sub [OF that] cs_wf_hash [OF wf that] cs_insert.hyps(2)
    unfolding hashes_agree_def by blast
  then have "cs_wf (insert_block b mp cs)" by (rule cs_wf_insert_block [OF wf])
  with cs_insert show ?case by simp
next
  case (cs_finalized cs h)
  then show ?case by (auto intro!: inv_intros dest: remove_blocks_on_finalized_subset)
qed (auto intro: inv_intros)

text \<open>
  C21: once the finalized block is known, pruning keeps exactly the blocks at or above its number
  (with their proofs), and exactly the canonical hashes at or above its number less 256, stopping
  at zero.
\<close>

theorem remove_blocks_on_finalized_effect:
  assumes "cs_wf cs" and "fmlookup (blocks_by_hash cs) h\<^sub>f = Some f"
  shows "(fmlookup (blocks_by_hash (remove_blocks_on_finalized h\<^sub>f cs)) h = Some b \<longleftrightarrow>
           fmlookup (blocks_by_hash cs) h = Some b \<and> number f \<le> number b) \<and>
         (fmlookup (proofs (remove_blocks_on_finalized h\<^sub>f cs)) h = Some p \<longleftrightarrow>
           fmlookup (proofs cs) h = Some p \<and>
           fmlookup (blocks_by_hash (remove_blocks_on_finalized h\<^sub>f cs)) h \<noteq> None) \<and>
         (fmlookup (canonical_hashes_by_number (remove_blocks_on_finalized h\<^sub>f cs)) k = Some c \<longleftrightarrow>
           fmlookup (canonical_hashes_by_number cs) k = Some c \<and> unat (number f) - 256 \<le> unat k)"
proof -
  have "fmlookup (proofs cs) h \<noteq> None \<Longrightarrow> fmlookup (blocks_by_hash cs) h \<noteq> None"
    using assms(1) by (simp add: cs_wf_def)
  then show ?thesis
    by (auto simp: remove_blocks_on_finalized_lookup [OF assms] word_less_nat_alt
        unat_saturating_sub word_le_nat_alt split: option.splits)
qed


section \<open>Concrete instances\<close>

text \<open>Blocks 11, 12 and 13 with one proof; the first two are canonical.\<close>

definition ex_chain :: "nat chain_state" where
  "ex_chain = insert_canonical_hash 2 12 (insert_canonical_hash 1 11
     (insert_block (mk_block 3 13 12) None (insert_block (mk_block 2 12 11) (Some 7)
        (insert_block (mk_block 1 11 10) None chain_state_default))))"

lemma ex_chain_reachable: "cs_reachable ex_blocks ex_chain"
  unfolding ex_chain_def by (intro cs_reachable.intros) (simp_all add: ex_blocks_def)

lemma ex_blocks_hashes_agree: "hashes_agree ex_blocks"
  by (auto simp: hashes_agree_def ex_blocks_def)

lemma ex_chain_wf: "cs_wf ex_chain"
  unfolding ex_chain_def
  by (intro inv_intros) (auto simp: chain_state_default_def intro: inv_intros)

theorem chain_state_wf_witness:
  "cs_wf ex_chain \<and> mk_block 2 12 11 \<in> ex_blocks"
proof -
  have "fmlookup (blocks_by_hash ex_chain) 12 = Some (mk_block 2 12 11)" by code_simp
  then show ?thesis
    using chain_state_wf [OF ex_blocks_hashes_agree ex_chain_reachable] by blast
qed

theorem remove_blocks_on_finalized_witness:
  "fmlookup (blocks_by_hash (remove_blocks_on_finalized 12 ex_chain)) 11 = None \<and>
   fmlookup (proofs (remove_blocks_on_finalized 12 ex_chain)) 12 = Some 7 \<and>
   fmlookup (canonical_hashes_by_number (remove_blocks_on_finalized 12 ex_chain)) 1 = Some 11"
proof -
  have f: "fmlookup (blocks_by_hash ex_chain) 12 = Some (mk_block 2 12 11)"
    "fmlookup (blocks_by_hash ex_chain) 11 = Some (mk_block 1 11 10)"
    "fmlookup (proofs ex_chain) 12 = Some 7"
    "fmlookup (canonical_hashes_by_number ex_chain) 1 = Some 11"
    by code_simp+
  note effect = remove_blocks_on_finalized_effect [OF ex_chain_wf f(1)]
  have "fmlookup (blocks_by_hash (remove_blocks_on_finalized 12 ex_chain)) 12 =
      Some (mk_block 2 12 11)"
    using effect [of 12 "mk_block 2 12 11"] f by simp
  moreover have "fmlookup (blocks_by_hash (remove_blocks_on_finalized 12 ex_chain)) 11 \<noteq> Some b" for b
    using effect [of 11 b] f by (auto simp: word_le_nat_alt)
  then have "fmlookup (blocks_by_hash (remove_blocks_on_finalized 12 ex_chain)) 11 = None"
    by (metis not_None_eq)
  ultimately show ?thesis
    using effect [of 12 "mk_block 2 12 11" 7 1 11] f by simp
qed


end
