(* ===== verification/Provider.thy ===== *)
theory Provider
  imports Chain_State
begin

text \<open>
  The provider, \<open>crates/provider/src/provider.rs\<close>: the chain spec and the shared chain state, the
  updates of the canonical chain and of finality, and the data it serves to peers.
\<close>

section \<open>State and operations\<close>

text \<open>
  The chain spec is a library object; the program reads its genesis header and the hash of it
  (\<open>genesis_header().hash_slow()\<close> and \<open>num_hash_slow()\<close>).
\<close>

record chain_spec =
  genesis_header :: header
  genesis_hash :: b256

record 'p provider =
  chain_spec_of :: chain_spec
  chain_state_of :: "'p chain_state"

definition provider_new :: "chain_spec \<Rightarrow> 'p provider" where
  "provider_new spec = \<lparr>chain_spec_of = spec, chain_state_of = chain_state_default\<rparr>"

definition provider_chain_spec :: "'p provider \<Rightarrow> chain_spec" where
  "provider_chain_spec pr = chain_spec_of pr"

definition provider_is_hash_canonical :: "'p provider \<Rightarrow> b256 \<Rightarrow> bool" where
  "provider_is_hash_canonical pr h = is_hash_canonical (chain_state_of pr) h"

definition provider_block_hash ::
  "parent_num_hash_fn \<Rightarrow> 'p provider \<Rightarrow> num_hash \<Rightarrow> u64 \<Rightarrow> b256 option option" where
  "provider_block_hash pnh pr parent n = block_hash pnh (chain_state_of pr) parent n"

definition provider_block_number :: "'p provider \<Rightarrow> b256 \<Rightarrow> u64 option" where
  "provider_block_number pr h = block_number (chain_state_of pr) h"

definition provider_sealed_header :: "'p provider \<Rightarrow> b256 \<Rightarrow> sealed_header option" where
  "provider_sealed_header pr h = sealed_header (chain_state_of pr) h"

definition provider_insert_block ::
  "recovered_block \<Rightarrow> 'p option \<Rightarrow> 'p provider \<Rightarrow> 'p provider" where
  "provider_insert_block block maybe_witness pr =
     pr\<lparr>chain_state_of := insert_block block maybe_witness (chain_state_of pr)\<rparr>"

definition provider_insert_canonical_hash :: "u64 \<Rightarrow> b256 \<Rightarrow> 'p provider \<Rightarrow> 'p provider" where
  "provider_insert_canonical_hash n h pr =
     pr\<lparr>chain_state_of := insert_canonical_hash n h (chain_state_of pr)\<rparr>"

definition on_chain_update ::
  "sealed_header list \<Rightarrow> sealed_header list \<Rightarrow> 'p provider \<Rightarrow> 'p provider" where
  "on_chain_update new old pr =
     (let cs = chain_state_of pr;
          cs = foldl (\<lambda>cs h. remove_canonical_hash (number h) (hash h) cs) cs old;
          cs = foldl (\<lambda>cs h. insert_canonical_hash (number h) (hash h) cs) cs new
      in pr\<lparr>chain_state_of := cs\<rparr>)"

definition on_finalized :: "b256 \<Rightarrow> 'p provider \<Rightarrow> 'p provider" where
  "on_finalized finalized_hash pr =
     (if finalized_hash \<noteq> 0
      then pr\<lparr>chain_state_of := remove_blocks_on_finalized finalized_hash (chain_state_of pr)\<rparr>
      else pr)"

text \<open>What the protocol serves; the RLP encoding of a proof is an argument.\<close>

definition protocol_header :: "'p provider \<Rightarrow> b256 \<Rightarrow> provider_error + header option" where
  "protocol_header pr h = Inr (header_of (chain_state_of pr) h)"

definition protocol_block_body :: "'p provider \<Rightarrow> b256 \<Rightarrow> provider_error + bytes option" where
  "protocol_block_body pr h = Inr (block_body (chain_state_of pr) h)"

definition protocol_proof :: "('p \<Rightarrow> bytes) \<Rightarrow> 'p provider \<Rightarrow> b256 \<Rightarrow> provider_error + bytes" where
  "protocol_proof encode pr h =
     Inr (case proof_of (chain_state_of pr) h of Some p \<Rightarrow> encode p | None \<Rightarrow> [])"

section \<open>The effect of a chain update\<close>

lemma provider_insert_block_sel [simp]:
  "chain_state_of (provider_insert_block b mp pr) = insert_block b mp (chain_state_of pr)"
  "chain_spec_of (provider_insert_block b mp pr) = chain_spec_of pr"
  by (simp_all add: provider_insert_block_def)

lemma provider_insert_canonical_hash_sel [simp]:
  "chain_state_of (provider_insert_canonical_hash n h pr) =
     insert_canonical_hash n h (chain_state_of pr)"
  "chain_spec_of (provider_insert_canonical_hash n h pr) = chain_spec_of pr"
  by (simp_all add: provider_insert_canonical_hash_def)

lemma provider_sealed_header_None:
  "provider_sealed_header pr h = None \<longleftrightarrow> fmlookup (blocks_by_hash (chain_state_of pr)) h = None"
  by (simp add: provider_sealed_header_def sealed_header_None)

lemma provider_sealed_header_Some:
  "provider_sealed_header pr h = Some x \<longleftrightarrow>
     (\<exists>b. fmlookup (blocks_by_hash (chain_state_of pr)) h = Some b \<and> x = clone_sealed_header b)"
  by (simp add: provider_sealed_header_def sealed_header_Some)

text \<open>Only the canonical hashes are touched.\<close>

lemma foldl_remove_canonical_sel:
  "blocks_by_hash (foldl (\<lambda>cs h. remove_canonical_hash (number h) (hash h) cs) cs hs) =
     blocks_by_hash cs"
  "block_hashes_by_number (foldl (\<lambda>cs h. remove_canonical_hash (number h) (hash h) cs) cs hs) =
     block_hashes_by_number cs"
  "proofs (foldl (\<lambda>cs h. remove_canonical_hash (number h) (hash h) cs) cs hs) = proofs cs"
  by (induction hs arbitrary: cs) simp_all

lemma foldl_insert_canonical_sel:
  "blocks_by_hash (foldl (\<lambda>cs h. insert_canonical_hash (number h) (hash h) cs) cs hs) =
     blocks_by_hash cs"
  "block_hashes_by_number (foldl (\<lambda>cs h. insert_canonical_hash (number h) (hash h) cs) cs hs) =
     block_hashes_by_number cs"
  "proofs (foldl (\<lambda>cs h. insert_canonical_hash (number h) (hash h) cs) cs hs) = proofs cs"
  by (induction hs arbitrary: cs) simp_all

lemma on_chain_update_sel [simp]:
  "blocks_by_hash (chain_state_of (on_chain_update new old pr)) = blocks_by_hash (chain_state_of pr)"
  "block_hashes_by_number (chain_state_of (on_chain_update new old pr)) =
     block_hashes_by_number (chain_state_of pr)"
  "proofs (chain_state_of (on_chain_update new old pr)) = proofs (chain_state_of pr)"
  "chain_spec_of (on_chain_update new old pr) = chain_spec_of pr"
  by (simp_all add: on_chain_update_def foldl_remove_canonical_sel foldl_insert_canonical_sel)

lemma foldl_remove_canonical:
  "fmlookup (canonical_hashes_by_number
       (foldl (\<lambda>cs h. remove_canonical_hash (number h) (hash h) cs) cs old)) k =
     (if \<exists>h \<in> set old. number h = k \<and> fmlookup (canonical_hashes_by_number cs) k = Some (hash h)
      then None else fmlookup (canonical_hashes_by_number cs) k)"
  by (induction old arbitrary: cs) (auto simp: map_specs)

lemma foldl_insert_canonical:
  "fmlookup (canonical_hashes_by_number
       (foldl (\<lambda>cs h. insert_canonical_hash (number h) (hash h) cs) cs new)) k =
     (case find (\<lambda>h. number h = k) (rev new) of
        Some h \<Rightarrow> Some (hash h) | None \<Rightarrow> fmlookup (canonical_hashes_by_number cs) k)"
  by (induction new rule: rev_induct) auto

text \<open>
  The canonical hash of every number after an update: the last new header of that number, else
  nothing if it was the hash of an old header, else what it was.
\<close>

lemma on_chain_update_canonical:
  "fmlookup (canonical_hashes_by_number (chain_state_of (on_chain_update new old pr))) k =
     (case find (\<lambda>h. number h = k) (rev new) of
        Some h \<Rightarrow> Some (hash h)
      | None \<Rightarrow>
          (if \<exists>h \<in> set old. number h = k \<and>
                fmlookup (canonical_hashes_by_number (chain_state_of pr)) k = Some (hash h)
           then None else fmlookup (canonical_hashes_by_number (chain_state_of pr)) k))"
proof -
  have "chain_state_of (on_chain_update new old pr) =
     foldl (\<lambda>cs h. insert_canonical_hash (number h) (hash h) cs)
       (foldl (\<lambda>cs h. remove_canonical_hash (number h) (hash h) cs) (chain_state_of pr) old) new"
    by (simp add: on_chain_update_def)
  then show ?thesis by (simp only: foldl_insert_canonical foldl_remove_canonical)
qed

section \<open>Properties\<close>

text \<open>
  A chain update leaves blocks and proofs alone and sets the canonical hash of a number to the
  hash of the last new header of that number; a number without a new header loses its hash exactly
  if an old header of that number has it.
\<close>

theorem on_chain_update_effect:
  "blocks_by_hash (chain_state_of (on_chain_update new old pr)) =
     blocks_by_hash (chain_state_of pr) \<and>
   proofs (chain_state_of (on_chain_update new old pr)) = proofs (chain_state_of pr) \<and>
   fmlookup (canonical_hashes_by_number (chain_state_of (on_chain_update new old pr))) k =
     (case find (\<lambda>h. number h = k) (rev new) of
        Some h \<Rightarrow> Some (hash h)
      | None \<Rightarrow>
          (if \<exists>h \<in> set old. number h = k \<and>
                fmlookup (canonical_hashes_by_number (chain_state_of pr)) k = Some (hash h)
           then None else fmlookup (canonical_hashes_by_number (chain_state_of pr)) k))"
  by (simp add: on_chain_update_canonical)

end
