(* ===== verification/Block_Buffer.thy ===== *)
theory Block_Buffer
  imports Chain_Types
begin

text \<open>
  The buffer of pending blocks, \<open>crates/engine/src/tree/block_buffer.rs\<close>: blocks and proofs by
  hash, the children of every parent hash, the hashes of every number, and the LRU that bounds
  the number of blocks.
\<close>

section \<open>What the buffer takes from its libraries\<close>

text \<open>
  The LRU map of \<open>schnellru\<close> with a length limiter, and the order in which a hash set hands out
  its elements. Both are arguments of the operations. \<open>lru_pop_oldest\<close> returns the key and the
  map without it.
\<close>

record 'l buffer_lib =
  lru_new :: "u32 \<Rightarrow> 'l"
  lru_peek :: "b256 \<Rightarrow> 'l \<Rightarrow> bool"
  lru_len :: "'l \<Rightarrow> nat"
  lru_max_length :: "'l \<Rightarrow> u32"
  lru_pop_oldest :: "'l \<Rightarrow> (b256 \<times> 'l) option"
  lru_get_or_insert :: "b256 \<Rightarrow> 'l \<Rightarrow> 'l"
  lru_remove :: "b256 \<Rightarrow> 'l \<Rightarrow> 'l"
  set_iter :: "b256 fset \<Rightarrow> b256 list"

text \<open>
  Documented behaviour, over the keys of the map from the oldest to the newest: an access moves
  a key to the newest end, an insertion adds it there, and the oldest key is popped first. A set
  hands out each of its elements once.
\<close>

definition buffer_lib_laws :: "'l buffer_lib \<Rightarrow> ('l \<Rightarrow> b256 list) \<Rightarrow> bool" where
  "buffer_lib_laws L keys \<longleftrightarrow>
     (\<forall>n. keys (lru_new L n) = [] \<and> lru_max_length L (lru_new L n) = n) \<and>
     (\<forall>l. distinct (keys l)) \<and>
     (\<forall>h l. lru_peek L h l \<longleftrightarrow> h \<in> set (keys l)) \<and>
     (\<forall>l. lru_len L l = length (keys l)) \<and>
     (\<forall>l. keys l = [] \<longrightarrow> lru_pop_oldest L l = None) \<and>
     (\<forall>l x xs. keys l = x # xs \<longrightarrow>
        (\<exists>l'. lru_pop_oldest L l = Some (x, l') \<and> keys l' = xs \<and>
              lru_max_length L l' = lru_max_length L l)) \<and>
     (\<forall>h l. (h \<in> set (keys l) \<or> length (keys l) < unat (lru_max_length L l)) \<longrightarrow>
        keys (lru_get_or_insert L h l) = filter (\<lambda>x. x \<noteq> h) (keys l) @ [h] \<and>
        lru_max_length L (lru_get_or_insert L h l) = lru_max_length L l) \<and>
     (\<forall>h l. keys (lru_remove L h l) = filter (\<lambda>x. x \<noteq> h) (keys l) \<and>
        lru_max_length L (lru_remove L h l) = lru_max_length L l) \<and>
     (\<forall>s. set (set_iter L s) = fset s \<and> distinct (set_iter L s))"

section \<open>State and operations\<close>

record ('p, 'l) block_buffer =
  blocks :: "(b256, recovered_block) fmap"
  buffered_proofs :: "(b256, 'p) fmap"
  parent_to_child :: "(b256, b256 fset) fmap"
  earliest_blocks :: "(u64, b256 fset) fmap"
  lru :: 'l

definition buffer_new :: "'l buffer_lib \<Rightarrow> u32 \<Rightarrow> ('p, 'l) block_buffer" where
  "buffer_new L limit = \<lparr>blocks = fmempty, buffered_proofs = fmempty, parent_to_child = fmempty,
     earliest_blocks = fmempty, lru = lru_new L limit\<rparr>"

definition buffer_proof :: "('p, 'l) block_buffer \<Rightarrow> b256 \<Rightarrow> 'p option" where
  "buffer_proof buf h = fmlookup (buffered_proofs buf) h"

text \<open>The loop of \<open>lowest_ancestor\<close>; \<open>None\<close> is a loop that does not end.\<close>

partial_function (option) lowest_ancestor_loop ::
  "('p, 'l) block_buffer \<Rightarrow> recovered_block \<Rightarrow> recovered_block option" where
  "lowest_ancestor_loop buf current_block =
     (case fmlookup (blocks buf) (parent_hash current_block) of
        Some parent \<Rightarrow> lowest_ancestor_loop buf parent
      | None \<Rightarrow> Some current_block)"

declare lowest_ancestor_loop.simps [code]

definition lowest_ancestor ::
  "('p, 'l) block_buffer \<Rightarrow> b256 \<Rightarrow> recovered_block option option" where
  "lowest_ancestor buf h =
     (case fmlookup (blocks buf) h of
        None \<Rightarrow> Some None
      | Some current_block \<Rightarrow> map_option Some (lowest_ancestor_loop buf current_block))"

definition remove_from_earliest_blocks ::
  "u64 \<Rightarrow> b256 \<Rightarrow> ('p, 'l) block_buffer \<Rightarrow> ('p, 'l) block_buffer" where
  "remove_from_earliest_blocks n h buf =
     buf\<lparr>earliest_blocks := entry_remove n h (earliest_blocks buf)\<rparr>"

definition remove_from_parent ::
  "b256 \<Rightarrow> b256 \<Rightarrow> ('p, 'l) block_buffer \<Rightarrow> ('p, 'l) block_buffer" where
  "remove_from_parent parent h buf =
     buf\<lparr>parent_to_child := entry_remove parent h (parent_to_child buf)\<rparr>"

definition remove_proof :: "b256 \<Rightarrow> ('p, 'l) block_buffer \<Rightarrow> 'p option \<times> ('p, 'l) block_buffer" where
  "remove_proof h buf =
     (fmlookup (buffered_proofs buf) h,
      buf\<lparr>buffered_proofs := fmdrop h (buffered_proofs buf)\<rparr>)"

definition insert_proof :: "b256 \<Rightarrow> 'p \<Rightarrow> ('p, 'l) block_buffer \<Rightarrow> ('p, 'l) block_buffer" where
  "insert_proof h p buf = buf\<lparr>buffered_proofs := fmupd h p (buffered_proofs buf)\<rparr>"

definition evict_block ::
  "'l buffer_lib \<Rightarrow> b256 \<Rightarrow> ('p, 'l) block_buffer \<Rightarrow>
     recovered_block option \<times> ('p, 'l) block_buffer" where
  "evict_block L h buf =
     (case fmlookup (blocks buf) h of
        None \<Rightarrow> (None, buf)
      | Some block \<Rightarrow>
          (let buf = buf\<lparr>blocks := fmdrop h (blocks buf)\<rparr>;
               buf = buf\<lparr>buffered_proofs := fmdrop h (buffered_proofs buf)\<rparr>;
               buf = remove_from_earliest_blocks (number block) h buf;
               buf = remove_from_parent (parent_hash block) h buf;
               buf = buf\<lparr>lru := lru_remove L h (lru buf)\<rparr>
           in (Some block, buf)))"

text \<open>A block without its proof is not removed.\<close>

definition remove_block ::
  "'l buffer_lib \<Rightarrow> b256 \<Rightarrow> ('p, 'l) block_buffer \<Rightarrow>
     (recovered_block \<times> 'p) option \<times> ('p, 'l) block_buffer" where
  "remove_block L h buf =
     (case fmlookup (blocks buf) h of
        None \<Rightarrow> (None, buf)
      | Some block \<Rightarrow>
          (case remove_proof h buf of
             (None, buf) \<Rightarrow> (None, buf)
           | (Some prf, buf) \<Rightarrow>
               (let buf = buf\<lparr>blocks := fmdrop h (blocks buf)\<rparr>;
                    buf = remove_from_earliest_blocks (number block) h buf;
                    buf = remove_from_parent (parent_hash block) h buf;
                    buf = buf\<lparr>lru := lru_remove L h (lru buf)\<rparr>
                in (Some (block, prf), buf))))"

definition insert_hash_and_get_evicted ::
  "'l buffer_lib \<Rightarrow> b256 \<Rightarrow> ('p, 'l) block_buffer \<Rightarrow>
     b256 option \<times> ('p, 'l) block_buffer" where
  "insert_hash_and_get_evicted L entry buf =
     (let new = (\<not> lru_peek L entry (lru buf));
          (evicted, l) =
            (if new \<and> unat (lru_max_length L (lru buf)) \<le> lru_len L (lru buf)
             then (case lru_pop_oldest L (lru buf) of
                     Some (k, l) \<Rightarrow> (Some k, l)
                   | None \<Rightarrow> (None, lru buf))
             else (None, lru buf))
      in (evicted, buf\<lparr>lru := lru_get_or_insert L entry l\<rparr>))"

definition insert_block ::
  "'l buffer_lib \<Rightarrow> recovered_block \<Rightarrow> ('p, 'l) block_buffer \<Rightarrow> ('p, 'l) block_buffer" where
  "insert_block L block buf =
     (let h = hash block;
          buf = buf\<lparr>parent_to_child :=
                  entry_insert (parent_hash block) h (parent_to_child buf)\<rparr>;
          buf = buf\<lparr>earliest_blocks := entry_insert (number block) h (earliest_blocks buf)\<rparr>;
          buf = buf\<lparr>blocks := fmupd h block (blocks buf)\<rparr>
      in case insert_hash_and_get_evicted L h buf of
           (Some evicted_hash, buf) \<Rightarrow>
             (case evict_block L evicted_hash buf of
                (Some evicted_block, buf) \<Rightarrow>
                  remove_from_parent (parent_hash evicted_block) evicted_hash buf
              | (None, buf) \<Rightarrow> buf)
         | (None, buf) \<Rightarrow> buf)"

lemma evict_block_keys: "fmdom (parent_to_child (snd (evict_block L h buf))) |\<subseteq>| fmdom (parent_to_child buf)"
  by (auto simp: evict_block_def Let_def remove_from_parent_def remove_from_earliest_blocks_def
      dest: fmdom_entry_removeD split: option.splits)

lemma remove_block_keys: "fmdom (parent_to_child (snd (remove_block L h buf))) |\<subseteq>| fmdom (parent_to_child buf)"
  by (auto simp: remove_block_def remove_proof_def Let_def remove_from_parent_def
      remove_from_earliest_blocks_def dest: fmdom_entry_removeD split: option.splits)

text \<open>The inner loops over the children of one parent.\<close>

fun remove_each ::
  "'l buffer_lib \<Rightarrow> b256 list \<Rightarrow> ('p, 'l) block_buffer \<Rightarrow>
     (recovered_block \<times> 'p) list \<times> ('p, 'l) block_buffer" where
  "remove_each L [] buf = ([], buf)"
| "remove_each L (child_hash # cs) buf =
     (case remove_block L child_hash buf of
        (Some r, buf) \<Rightarrow> (let (removed, buf) = remove_each L cs buf in (r # removed, buf))
      | (None, buf) \<Rightarrow> remove_each L cs buf)"

fun evict_each ::
  "'l buffer_lib \<Rightarrow> b256 list \<Rightarrow> ('p, 'l) block_buffer \<Rightarrow> ('p, 'l) block_buffer" where
  "evict_each L [] buf = buf"
| "evict_each L (h # hs) buf = evict_each L hs (snd (evict_block L h buf))"

lemma remove_each_keys:
  "fmdom (parent_to_child (snd (remove_each L cs buf))) |\<subseteq>| fmdom (parent_to_child buf)"
proof (induction L cs buf rule: remove_each.induct)
  case (2 L h cs buf)
  then show ?case
    using remove_block_keys [of L h buf]
    by (fastforce simp: Let_def split: prod.splits option.splits)
qed simp

lemma evict_each_keys:
  "fmdom (parent_to_child (evict_each L hs buf)) |\<subseteq>| fmdom (parent_to_child buf)"
  by (induction L hs buf rule: evict_each.induct) (use evict_block_keys in fastforce)+

text \<open>
  The worklists. The Rust vector is a list whose last element is popped; the children are
  appended. Every iteration either drops an entry of \<open>parent_to_child\<close> or shortens the worklist.
\<close>

function remove_children ::
  "'l buffer_lib \<Rightarrow> b256 list \<Rightarrow> ('p, 'l) block_buffer \<Rightarrow>
     (recovered_block \<times> 'p) list \<times> ('p, 'l) block_buffer" where
  "remove_children L work buf =
     (if work = [] then ([], buf)
      else
        (let parent = last work; work = butlast work
         in case fmlookup (parent_to_child buf) parent of
              None \<Rightarrow> remove_children L work buf
            | Some parent_children \<Rightarrow>
                (let buf = buf\<lparr>parent_to_child := fmdrop parent (parent_to_child buf)\<rparr>;
                     children = set_iter L parent_children;
                     (removed, buf) = remove_each L children buf;
                     (removed', buf) = remove_children L (work @ children) buf
                 in (removed @ removed', buf))))"
  by pat_completeness auto

function evict_children ::
  "'l buffer_lib \<Rightarrow> b256 list \<Rightarrow> ('p, 'l) block_buffer \<Rightarrow> ('p, 'l) block_buffer" where
  "evict_children L work buf =
     (if work = [] then buf
      else
        (let parent = last work; work = butlast work
         in case fmlookup (parent_to_child buf) parent of
              None \<Rightarrow> evict_children L work buf
            | Some parent_children \<Rightarrow>
                (let buf = buf\<lparr>parent_to_child := fmdrop parent (parent_to_child buf)\<rparr>;
                     children = set_iter L parent_children;
                     buf = evict_each L children buf
                 in evict_children L (work @ children) buf)))"
  by pat_completeness auto

lemma drop_then_keys_less:
  assumes "fmlookup m k = Some s" and "fmdom m' |\<subseteq>| fmdom (fmdrop k m)"
  shows "fcard (fmdom m') < fcard (fmdom m)"
  using fcard_mono [OF assms(2)] fcard_fmdom_drop [of m k] assms(1) by simp

termination remove_children
proof (relation "measures [\<lambda>(L, work, buf). fcard (fmdom (parent_to_child buf)),
                           \<lambda>(L, work, buf). length work]", goal_cases)
  case (3 L work buf p work' s buf' children r removed buf'')
  have "buf'' = snd (remove_each L children buf')" using 3 by (metis snd_conv)
  then have "fmdom (parent_to_child buf'') |\<subseteq>| fmdom (parent_to_child buf')"
    using remove_each_keys by simp
  then have "fcard (fmdom (parent_to_child buf'')) < fcard (fmdom (parent_to_child buf))"
    using 3 by (intro drop_then_keys_less [of _ p s]) (simp_all del: fmdom_drop)
  then show ?case by simp
qed auto

termination evict_children
proof (relation "measures [\<lambda>(L, work, buf). fcard (fmdom (parent_to_child buf)),
                           \<lambda>(L, work, buf). length work]", goal_cases)
  case (3 L work buf p work' s buf' children buf'')
  have "buf'' = evict_each L children buf'" using 3 by simp
  then have "fmdom (parent_to_child buf'') |\<subseteq>| fmdom (parent_to_child buf')"
    by (simp only: evict_each_keys)
  then have "fcard (fmdom (parent_to_child buf'')) < fcard (fmdom (parent_to_child buf))"
    using 3 by (intro drop_then_keys_less [of _ p s]) (simp_all del: fmdom_drop)
  then show ?case by simp
qed auto

declare remove_children.simps [simp del] evict_children.simps [simp del]

definition remove_block_with_children ::
  "'l buffer_lib \<Rightarrow> b256 \<Rightarrow> ('p, 'l) block_buffer \<Rightarrow>
     (recovered_block \<times> 'p) list \<times> ('p, 'l) block_buffer" where
  "remove_block_with_children L parent buf =
     (let (removed, buf) = remove_block L parent buf;
          (children, buf) = remove_children L [parent] buf
      in ((case removed of Some r \<Rightarrow> [r] | None \<Rightarrow> []) @ children, buf))"

text \<open>The first loop of \<open>evict_old_blocks\<close>: take the entries up to the finalized number.\<close>

function take_old_blocks ::
  "'l buffer_lib \<Rightarrow> u64 \<Rightarrow> ('p, 'l) block_buffer \<Rightarrow> b256 list \<times> ('p, 'l) block_buffer" where
  "take_old_blocks L n buf =
     (case first_key (earliest_blocks buf) of
        Some k \<Rightarrow>
          if n < k then ([], buf)
          else
            (let block_hashes = set_iter L (values_at (earliest_blocks buf) k);
                 (hs, buf) = take_old_blocks L n
                   (buf\<lparr>earliest_blocks := fmdrop k (earliest_blocks buf)\<rparr>)
             in (block_hashes @ hs, buf))
      | None \<Rightarrow> ([], buf))"
  by pat_completeness auto
termination
  by (relation "measure (\<lambda>(L, n, buf). fcard (fmdom (earliest_blocks buf)))")
     (auto simp del: fmdom_drop intro!: fcard_fmdom_drop dest: first_key_SomeD(1))

declare take_old_blocks.simps [simp del]

definition evict_old_blocks ::
  "'l buffer_lib \<Rightarrow> u64 \<Rightarrow> ('p, 'l) block_buffer \<Rightarrow> ('p, 'l) block_buffer" where
  "evict_old_blocks L n buf =
     (let (block_hashes_to_remove, buf) = take_old_blocks L n buf;
          buf = evict_each L block_hashes_to_remove buf
      in evict_children L block_hashes_to_remove buf)"

section \<open>The invariant\<close>

text \<open>
  \<open>links_inv P\<close>: every block is stored under its hash; the children of a hash are stored blocks
  with that parent; and the index by number lists exactly the stored blocks whose number
  satisfies \<open>P\<close>. Between operations \<open>P\<close> holds of every number; while old blocks are being
  evicted, of the numbers above the finalized one. \<open>buffer_inv\<close> adds that the LRU holds the
  hashes of the stored blocks and is within its limit.
\<close>

definition links_inv :: "(u64 \<Rightarrow> bool) \<Rightarrow> ('p, 'l) block_buffer \<Rightarrow> bool" where
  "links_inv P buf \<longleftrightarrow>
     (\<forall>h b. fmlookup (blocks buf) h = Some b \<longrightarrow> hash b = h) \<and>
     (\<forall>p h. h |\<in>| values_at (parent_to_child buf) p \<longrightarrow>
        (\<exists>b. fmlookup (blocks buf) h = Some b \<and> parent_hash b = p)) \<and>
     (\<forall>n h. h |\<in>| values_at (earliest_blocks buf) n \<longleftrightarrow>
        (\<exists>b. fmlookup (blocks buf) h = Some b \<and> number b = n \<and> P n)) \<and>
     no_empty_entry (parent_to_child buf) \<and> no_empty_entry (earliest_blocks buf)"

definition buffer_inv ::
  "'l buffer_lib \<Rightarrow> ('l \<Rightarrow> b256 list) \<Rightarrow> (u64 \<Rightarrow> bool) \<Rightarrow> ('p, 'l) block_buffer \<Rightarrow> bool" where
  "buffer_inv L keys P buf \<longleftrightarrow>
     links_inv P buf \<and>
     set (keys (lru buf)) = fset (fmdom (blocks buf)) \<and>
     length (keys (lru buf)) \<le> unat (lru_max_length L (lru buf))"

lemma buffer_links: "buffer_inv L keys P buf \<Longrightarrow> links_inv P buf"
  by (simp add: buffer_inv_def)

lemma links_hash:
  "links_inv P buf \<Longrightarrow> fmlookup (blocks buf) h = Some b \<Longrightarrow> hash b = h"
  by (simp add: links_inv_def)

lemma links_child:
  "links_inv P buf \<Longrightarrow> h |\<in>| values_at (parent_to_child buf) p \<Longrightarrow>
     \<exists>b. fmlookup (blocks buf) h = Some b \<and> parent_hash b = p"
  by (simp add: links_inv_def)

lemma links_earliest:
  "links_inv P buf \<Longrightarrow> h |\<in>| values_at (earliest_blocks buf) n \<longleftrightarrow>
     (\<exists>b. fmlookup (blocks buf) h = Some b \<and> number b = n \<and> P n)"
  by (simp add: links_inv_def)

lemmas buffer_inv_hash = links_hash [OF buffer_links]
lemmas buffer_inv_child = links_child [OF buffer_links]
lemmas buffer_inv_earliest = links_earliest [OF buffer_links]

lemma buffer_inv_child_unique:
  assumes "buffer_inv L keys P buf"
    and "h |\<in>| values_at (parent_to_child buf) p" and "h |\<in>| values_at (parent_to_child buf) q"
  shows "p = q"
  using buffer_inv_child [OF assms(1,2)] buffer_inv_child [OF assms(1,3)] by auto

lemma buffer_lib_lru_remove:
  assumes "buffer_lib_laws L keys"
  shows "keys (lru_remove L h l) = filter (\<lambda>x. x \<noteq> h) (keys l)"
    and "lru_max_length L (lru_remove L h l) = lru_max_length L l"
  using assms by (auto simp: buffer_lib_laws_def)

lemma buffer_lib_iter:
  assumes "buffer_lib_laws L keys"
  shows "set (set_iter L s) = fset s" and "distinct (set_iter L s)"
  using assms by (auto simp: buffer_lib_laws_def)

section \<open>Removing one block\<close>

lemma evict_block_fst: "fst (evict_block L h buf) = fmlookup (blocks buf) h"
  by (simp add: evict_block_def Let_def split: option.splits)

lemma evict_block_blocks [simp]: "blocks (snd (evict_block L h buf)) = fmdrop h (blocks buf)"
  by (auto simp: evict_block_def Let_def remove_from_parent_def remove_from_earliest_blocks_def
      fmdrop_idle' fmlookup_dom'_iff split: option.splits)

lemma evict_block_proofs:
  "buffered_proofs (snd (evict_block L h buf)) =
     (if fmlookup (blocks buf) h = None then buffered_proofs buf
      else fmdrop h (buffered_proofs buf))"
  by (auto simp: evict_block_def Let_def remove_from_parent_def remove_from_earliest_blocks_def
      split: option.splits)

lemma evict_block_lru:
  "lru (snd (evict_block L h buf)) =
     (if fmlookup (blocks buf) h = None then lru buf else lru_remove L h (lru buf))"
  by (auto simp: evict_block_def Let_def remove_from_parent_def remove_from_earliest_blocks_def
      split: option.splits)

lemma evict_block_children:
  assumes "links_inv P buf"
  shows "values_at (parent_to_child (snd (evict_block L h buf))) p =
     values_at (parent_to_child buf) p |-| {|h|}"
proof -
  have "h |\<notin>| values_at (parent_to_child buf) p"
    if "\<not> (\<exists>b. fmlookup (blocks buf) h = Some b \<and> parent_hash b = p)"
    using that links_child [OF assms] by blast
  then show ?thesis
    by (auto simp: evict_block_def Let_def remove_from_parent_def
        remove_from_earliest_blocks_def map_specs split: option.splits)
qed

lemma evict_block_earliest:
  assumes "links_inv P buf"
  shows "values_at (earliest_blocks (snd (evict_block L h buf))) n =
     values_at (earliest_blocks buf) n |-| {|h|}"
proof -
  have "h |\<notin>| values_at (earliest_blocks buf) n"
    if "\<not> (\<exists>b. fmlookup (blocks buf) h = Some b \<and> number b = n)"
    using that links_earliest [OF assms] by blast
  then show ?thesis
    by (auto simp: evict_block_def Let_def remove_from_parent_def
        remove_from_earliest_blocks_def map_specs split: option.splits)
qed

lemma evict_block_no_empty:
  assumes "links_inv P buf"
  shows "no_empty_entry (parent_to_child (snd (evict_block L h buf)))"
    and "no_empty_entry (earliest_blocks (snd (evict_block L h buf)))"
  using assms
  by (auto simp: links_inv_def evict_block_def Let_def remove_from_parent_def
        remove_from_earliest_blocks_def intro: inv_intros split: option.splits)

lemma evict_block_links [inv_intros]:
  assumes inv: "links_inv P buf"
  shows "links_inv P (snd (evict_block L h buf))"
  using links_child [OF inv] evict_block_no_empty [OF inv]
  unfolding links_inv_def [of P "snd (evict_block L h buf)"]
  by (auto simp: evict_block_children [OF inv] evict_block_earliest [OF inv]
      links_earliest [OF inv] dest: links_hash [OF inv] split: if_splits)

lemma evict_block_inv [inv_intros]:
  assumes laws: "buffer_lib_laws L keys" and inv: "buffer_inv L keys P buf"
  shows "buffer_inv L keys P (snd (evict_block L h buf))"
proof -
  let ?b = "snd (evict_block L h buf)"
  have keys: "set (keys (lru buf)) = fset (fmdom (blocks buf))"
    and len: "length (keys (lru buf)) \<le> unat (lru_max_length L (lru buf))"
    using inv by (simp_all add: buffer_inv_def)
  have "filter (\<lambda>x. x \<noteq> h) (keys (lru buf)) = keys (lru buf)" if "fmlookup (blocks buf) h = None"
    using that keys fmdom_notI [OF that] by (auto simp: filter_id_conv)
  then have lru: "keys (lru ?b) = filter (\<lambda>x. x \<noteq> h) (keys (lru buf))"
    "lru_max_length L (lru ?b) = lru_max_length L (lru buf)"
    by (auto simp: evict_block_lru buffer_lib_lru_remove [OF laws])
  have len': "length (keys (lru ?b)) \<le> unat (lru_max_length L (lru ?b))"
    unfolding lru using len length_filter_le le_trans by blast
  have keys': "set (keys (lru ?b)) = fset (fmdom (blocks ?b))"
    unfolding lru using keys by auto
  show ?thesis
    unfolding buffer_inv_def using keys' len' evict_block_links [OF buffer_links [OF inv]] by simp
qed

lemma remove_block_alt:
  "remove_block L h buf =
     (case (fmlookup (blocks buf) h, fmlookup (buffered_proofs buf) h) of
        (Some b, Some p) \<Rightarrow> (Some (b, p), snd (evict_block L h buf))
      | _ \<Rightarrow> (None, buf))"
  by (auto simp: remove_block_def remove_proof_def evict_block_def Let_def
      remove_from_earliest_blocks_def remove_from_parent_def fmdrop_idle' fmlookup_dom'_iff
      split: option.splits)

lemma remove_block_inv [inv_intros]:
  "buffer_lib_laws L keys \<Longrightarrow> buffer_inv L keys P buf \<Longrightarrow>
     buffer_inv L keys P (snd (remove_block L h buf))"
  by (auto simp: remove_block_alt intro: inv_intros split: option.splits)

section \<open>The inner loops\<close>

lemma evict_each_correct:
  assumes laws: "buffer_lib_laws L keys" and inv: "buffer_inv L keys P buf"
  shows "buffer_inv L keys P (evict_each L hs buf) \<and>
     (\<forall>h. fmlookup (blocks (evict_each L hs buf)) h =
        (if h \<in> set hs then None else fmlookup (blocks buf) h)) \<and>
     (\<forall>h. fmlookup (buffered_proofs (evict_each L hs buf)) h =
        (if h \<in> set hs \<and> fmlookup (blocks buf) h \<noteq> None then None
         else fmlookup (buffered_proofs buf) h)) \<and>
     (\<forall>p. values_at (parent_to_child (evict_each L hs buf)) p =
        values_at (parent_to_child buf) p |-| fset_of_list hs) \<and>
     (\<forall>n. values_at (earliest_blocks (evict_each L hs buf)) n =
        values_at (earliest_blocks buf) n |-| fset_of_list hs)"
  using inv
proof (induction hs arbitrary: buf)
  case (Cons h hs)
  note IH = Cons.IH [OF evict_block_inv [OF laws Cons.prems, of h]]
  show ?case
    using IH
    by (auto simp: evict_block_children [OF buffer_links [OF Cons.prems]]
        evict_block_earliest [OF buffer_links [OF Cons.prems]]
        evict_block_proofs)
qed (auto simp: fset_of_list_elem)

definition removable :: "('p, 'l) block_buffer \<Rightarrow> b256 \<Rightarrow> (recovered_block \<times> 'p) option" where
  "removable buf h =
     (case (fmlookup (blocks buf) h, fmlookup (buffered_proofs buf) h) of
        (Some b, Some p) \<Rightarrow> Some (b, p) | _ \<Rightarrow> None)"

lemma removable_Some:
  "removable buf h = Some (b, p) \<longleftrightarrow>
     fmlookup (blocks buf) h = Some b \<and> fmlookup (buffered_proofs buf) h = Some p"
  by (auto simp: removable_def split: option.splits)

definition is_removable :: "('p, 'l) block_buffer \<Rightarrow> b256 \<Rightarrow> bool" where
  "is_removable buf h \<longleftrightarrow>
     fmlookup (blocks buf) h \<noteq> None \<and> fmlookup (buffered_proofs buf) h \<noteq> None"

lemma removable_None: "removable buf h = None \<longleftrightarrow> \<not> is_removable buf h"
  by (auto simp: removable_def is_removable_def split: option.splits)

lemma remove_block_removable:
  "remove_block L h buf =
     (case removable buf h of
        Some r \<Rightarrow> (Some r, snd (evict_block L h buf)) | None \<Rightarrow> (None, buf))"
  by (auto simp: remove_block_alt removable_def split: option.splits)

lemma removable_evict_other:
  "h' \<noteq> h \<Longrightarrow> removable (snd (evict_block L h buf)) h' = removable buf h'"
  by (auto simp: removable_def evict_block_proofs split: option.splits)

lemma map_filter_cong_on:
  "(\<And>x. x \<in> set xs \<Longrightarrow> f x = g x) \<Longrightarrow> List.map_filter f xs = List.map_filter g xs"
  by (induction xs) (auto split: option.splits)

lemma set_map_filter_Some: "y \<in> set (List.map_filter f xs) \<longleftrightarrow> (\<exists>x \<in> set xs. f x = Some y)"
  by (induction xs) (auto simp: List.map_filter_simps split: option.splits)

lemma remove_each_correct:
  assumes laws: "buffer_lib_laws L keys" and inv: "buffer_inv L keys P buf" and "distinct cs"
  shows "buffer_inv L keys P (snd (remove_each L cs buf)) \<and>
     (\<forall>h. fmlookup (blocks (snd (remove_each L cs buf))) h =
        (if h \<in> set cs \<and> is_removable buf h then None else fmlookup (blocks buf) h)) \<and>
     (\<forall>h. fmlookup (buffered_proofs (snd (remove_each L cs buf))) h =
        (if h \<in> set cs \<and> is_removable buf h then None
         else fmlookup (buffered_proofs buf) h)) \<and>
     (\<forall>p h. h |\<in>| values_at (parent_to_child (snd (remove_each L cs buf))) p \<longleftrightarrow>
        h |\<in>| values_at (parent_to_child buf) p \<and> \<not> (h \<in> set cs \<and> is_removable buf h)) \<and>
     fst (remove_each L cs buf) = List.map_filter (removable buf) cs"
  using inv \<open>distinct cs\<close>
proof (induction cs arbitrary: buf)
  case Nil
  then show ?case by (simp add: List.map_filter_simps)
next
  case (Cons h cs)
  show ?case
  proof (cases "removable buf h")
    case None
    then have "\<not> is_removable buf h" using removable_None [of buf h] by simp
    moreover have "remove_each L (h # cs) buf = remove_each L cs buf"
      by (simp add: remove_block_removable None)
    ultimately show ?thesis
      using Cons.IH [OF Cons.prems(1)] Cons.prems(2) None by auto
  next
    case (Some r)
    let ?b = "snd (evict_block L h buf)"
    have mf: "List.map_filter (removable ?b) cs = List.map_filter (removable buf) cs"
      using Cons.prems(2) by (intro map_filter_cong_on removable_evict_other) auto
    have rm: "is_removable ?b x \<longleftrightarrow> x \<noteq> h \<and> is_removable buf x" for x
      by (auto simp: is_removable_def evict_block_proofs)
    have rh: "is_removable buf h" using Some removable_None [of buf h] by auto
    have eq: "remove_each L (h # cs) buf =
        (r # fst (remove_each L cs ?b), snd (remove_each L cs ?b))"
      by (simp add: remove_block_removable Some split: prod.splits)
    note IH = Cons.IH [OF evict_block_inv [OF laws Cons.prems(1), of h]]
    show ?thesis
      unfolding eq using IH Cons.prems(2) Some rh
      by (auto simp: evict_block_children [OF buffer_links [OF Cons.prems(1)]] evict_block_proofs mf rm
          is_removable_def)
  qed
qed

end
