(* ===== verification/Tree_Types.thy ===== *)
theory Tree_Types
  imports Provider Block_Buffer "HOL-Library.Monad_Syntax"
begin

text \<open>
  The types the engine tree works with: the outcomes and events of
  \<open>crates/engine/src/tree/outcome.rs\<close>, the block statuses and chain updates of
  \<open>crates/engine/src/tree/mod.rs\<close>, the verifier errors of \<open>crates/verifier/src/lib.rs\<close>, and the data
  of the engine API, as the libraries document it.
\<close>

section \<open>Outcomes and events\<close>

datatype download_request =
    DownloadBlock b256
  | DownloadProof b256
  | DownloadFinalized b256

datatype tree_action = MakeCanonical b256

datatype tree_event =
    TreeAction tree_action
  | Download download_request

record 'a tree_outcome =
  outcome :: 'a
  event :: "tree_event option"

definition tree_outcome_new :: "'a \<Rightarrow> 'a tree_outcome" where
  "tree_outcome_new x = \<lparr>outcome = x, event = None\<rparr>"

definition with_event :: "'a tree_outcome \<Rightarrow> tree_event \<Rightarrow> 'a tree_outcome" where
  "with_event o' e = o'\<lparr>event := Some e\<rparr>"

definition download_proof_event :: "b256 \<Rightarrow> tree_event" where
  "download_proof_event h = Download (DownloadProof h)"

definition download_block_event :: "b256 \<Rightarrow> tree_event" where
  "download_block_event h = Download (DownloadBlock h)"

definition download_finalized_event :: "b256 \<Rightarrow> tree_event" where
  "download_finalized_event h = Download (DownloadFinalized h)"

definition make_canonical_event :: "b256 \<Rightarrow> tree_event" where
  "make_canonical_event h = TreeAction (MakeCanonical h)"

definition as_proof_download :: "tree_event \<Rightarrow> b256 option" where
  "as_proof_download e = (case e of Download (DownloadProof h) \<Rightarrow> Some h | _ \<Rightarrow> None)"

section \<open>Statuses and chain updates of the tree\<close>

datatype block_status =
    Valid
  | Disconnected (disconnected_head: num_hash) (missing_ancestor: num_hash)
  | NoProof

datatype insert_payload_ok =
    AlreadySeen
  | Inserted block_status

datatype new_canonical_chain =
    Commit "sealed_header list"
  | Reorg "sealed_header list" "sealed_header list"

text \<open>\<open>expect\<close> on an empty chain panics: the tip is then \<open>None\<close>.\<close>

definition chain_tip :: "new_canonical_chain \<Rightarrow> sealed_header option" where
  "chain_tip c =
     (let new = (case c of Commit new \<Rightarrow> new | Reorg new _ \<Rightarrow> new)
      in if new = [] then None else Some (last new))"

definition new_block_count :: "new_canonical_chain \<Rightarrow> nat" where
  "new_block_count c = (case c of Commit new \<Rightarrow> length new | Reorg new _ \<Rightarrow> length new)"

definition reorged_block_count :: "new_canonical_chain \<Rightarrow> nat" where
  "reorged_block_count c = (case c of Commit _ \<Rightarrow> 0 | Reorg _ old \<Rightarrow> length old)"

section \<open>Errors\<close>

text \<open>Execution errors of the library, and the errors of the verifier and of inserting a block.\<close>

datatype execution_error =
    ExecutionValidation string
  | ExecutionInternal string

datatype verifier_error =
    VerifierConsensus consensus_error
  | VerifierExecution execution_error
  | VerifierProvider provider_error
  | VerifierOther string

datatype insert_block_error_kind =
    KindConsensus consensus_error
  | KindExecution execution_error
  | KindProvider provider_error
  | KindOther string

definition kind_of_verifier_error :: "verifier_error \<Rightarrow> insert_block_error_kind" where
  "kind_of_verifier_error err =
     (case err of
        VerifierConsensus e \<Rightarrow> KindConsensus e
      | VerifierExecution e \<Rightarrow> KindExecution e
      | VerifierProvider e \<Rightarrow> KindProvider e
      | VerifierOther e \<Rightarrow> KindOther e)"

datatype insert_block_fatal_error =
    FatalProvider provider_error
  | FatalExecution string

section \<open>The data of the engine API\<close>

datatype payload_status_enum =
    StatusValid
  | StatusInvalid string
  | StatusSyncing
  | StatusAccepted

record payload_status =
  status :: payload_status_enum
  latest_valid_hash :: "b256 option"

definition payload_status_new :: "payload_status_enum \<Rightarrow> b256 option \<Rightarrow> payload_status" where
  "payload_status_new s h = \<lparr>status = s, latest_valid_hash = h\<rparr>"

definition payload_status_from_status :: "payload_status_enum \<Rightarrow> payload_status" where
  "payload_status_from_status s = \<lparr>status = s, latest_valid_hash = None\<rparr>"

definition with_latest_valid_hash :: "payload_status \<Rightarrow> b256 \<Rightarrow> payload_status" where
  "with_latest_valid_hash p h = p\<lparr>latest_valid_hash := Some h\<rparr>"

record forkchoice_state =
  head_block_hash :: b256
  safe_block_hash :: b256
  finalized_block_hash :: b256

text \<open>The four ways the program builds a response to a forkchoice update.\<close>

datatype on_fork_choice_updated =
    FcuValid payload_status
  | FcuWithInvalid payload_status
  | FcuInvalidState
  | FcuInvalidPayloadAttributes

datatype forkchoice_status = FcValid | FcInvalid | FcSyncing

datatype beacon_event =
    CanonicalChainCommitted sealed_header
  | ForkBlockAdded recovered_block
  | CanonicalBlockAdded recovered_block
  | ForkchoiceUpdated forkchoice_state forkchoice_status

text \<open>An entry of the invalid header cache: a block and the parent it names.\<close>

record block_with_parent =
  bwp_parent :: b256
  bwp_block :: num_hash

definition block_with_parent_of :: "'a sealed_header_scheme \<Rightarrow> block_with_parent" where
  "block_with_parent_of b = \<lparr>bwp_parent = parent_hash b, bwp_block = num_hash b\<rparr>"

lemma block_with_parent_sel [simp]:
  "bwp_parent (block_with_parent_of b) = parent_hash b"
  "bwp_block (block_with_parent_of b) = num_hash b"
  by (simp_all add: block_with_parent_of_def)

lemma tree_outcome_sel [simp]:
  "outcome (tree_outcome_new x) = x" "event (tree_outcome_new x) = None"
  "outcome (with_event t e) = outcome t" "event (with_event t e) = Some e"
  by (simp_all add: tree_outcome_new_def with_event_def)

lemma payload_status_sel [simp]:
  "status (payload_status_new s h) = s" "latest_valid_hash (payload_status_new s h) = h"
  "status (payload_status_from_status s) = s"
  "latest_valid_hash (payload_status_from_status s) = None"
  "status (with_latest_valid_hash p b) = status p"
  "latest_valid_hash (with_latest_valid_hash p b) = Some b"
  by (simp_all add: payload_status_new_def payload_status_from_status_def
      with_latest_valid_hash_def)

end
