(* ===== verification/Engine_Tree.thy ===== *)
theory Engine_Tree
  imports Tree_Types
begin

text \<open>
  The engine tree, \<open>crates/engine/src/tree/mod.rs\<close>: its state, one definition per method, and the
  handlers for new payloads, downloaded blocks and forkchoice updates. An operation that can walk
  forever or panic returns an option, \<open>None\<close> when it does not return.
\<close>

section \<open>What the tree takes from its libraries\<close>

text \<open>
  \<open>'p\<close> is the type of a proof, \<open>'x\<close> of an execution payload, \<open>'e\<close> of an error of its decoding,
  \<open>'a\<close> of payload attributes, \<open>'i\<close> of the invalid header cache, \<open>'f\<close> of the forkchoice state
  tracker and \<open>'l\<close> of the LRU of the buffer. The verifier is a trait of the program; it reads the
  chain state it shares with the tree. A lookup in the invalid header cache counts the hit and can
  evict the entry, so it returns the cache too.
\<close>

record ('p, 'x, 'e, 'a, 'i, 'f, 'l) tree_lib =
  parent_num_hash :: parent_num_hash_fn
  buffer_ops :: "'l buffer_lib"
  validate_header :: "sealed_header \<Rightarrow> consensus_error option"
  validate_block_pre_execution :: "sealed_block \<Rightarrow> consensus_error option"
  verify :: "'p chain_state \<Rightarrow> recovered_block \<Rightarrow> sealed_header \<Rightarrow> 'p \<Rightarrow> verifier_error option"
  payload_parent_hash :: "'x \<Rightarrow> b256"
  payload_block_hash :: "'x \<Rightarrow> b256"
  ensure_well_formed_payload :: "'x \<Rightarrow> 'e + recovered_block"
  is_block_hash_mismatch :: "'e \<Rightarrow> bool"
  is_invalid_versioned_hashes :: "'e \<Rightarrow> bool"
  status_of_payload_error :: "'e \<Rightarrow> payload_status_enum"
  attributes_match_header :: "'a \<Rightarrow> header \<Rightarrow> bool"
  builder_attributes_ok :: "b256 \<Rightarrow> 'a \<Rightarrow> u8 \<Rightarrow> bool"
  ensure_validation_error :: "insert_block_error_kind \<Rightarrow> insert_block_fatal_error + string"
  links_to_rejected_payload :: string
  invalid_cache_new :: "u32 \<Rightarrow> 'i"
  invalid_get :: "b256 \<Rightarrow> 'i \<Rightarrow> block_with_parent option \<times> 'i"
  invalid_insert :: "block_with_parent \<Rightarrow> 'i \<Rightarrow> 'i"
  invalid_insert_with_ancestor :: "b256 \<Rightarrow> block_with_parent \<Rightarrow> 'i \<Rightarrow> 'i"
  tracker_new :: 'f
  sync_target_state :: "'f \<Rightarrow> forkchoice_state option"
  tracker_set_latest :: "forkchoice_state \<Rightarrow> forkchoice_status \<Rightarrow> 'f \<Rightarrow> 'f"
  forkchoice_status_of :: "on_fork_choice_updated \<Rightarrow> forkchoice_status"

section \<open>State\<close>

record ('p, 'i, 'f, 'l) engine_tree =
  provider :: "'p provider"
  canonical_head :: num_hash
  forkchoice_state_tracker :: 'f
  block_buffer :: "('p, 'l) block_buffer"
  invalid_headers :: 'i
  events :: "beacon_event list"

definition engine_tree_new ::
  "('p, 'x, 'e, 'a, 'i, 'f, 'l) tree_lib \<Rightarrow> 'p provider \<Rightarrow> ('p, 'i, 'f, 'l) engine_tree" where
  "engine_tree_new L pr =
     (let canonical_head = \<lparr>nh_number = number (genesis_header (provider_chain_spec pr)),
                            nh_hash = genesis_hash (provider_chain_spec pr)\<rparr>
      in \<lparr>provider = pr, canonical_head = canonical_head,
          forkchoice_state_tracker = tracker_new L,
          block_buffer = buffer_new (buffer_ops L) 256,
          invalid_headers = invalid_cache_new L 256, events = []\<rparr>)"

section \<open>Queries\<close>

definition is_sync_target_head ::
  "('p, 'x, 'e, 'a, 'i, 'f, 'l) tree_lib \<Rightarrow> ('p, 'i, 'f, 'l) engine_tree \<Rightarrow> b256 \<Rightarrow> bool" where
  "is_sync_target_head L t bh =
     (case sync_target_state L (forkchoice_state_tracker t) of
        Some target \<Rightarrow> head_block_hash target = bh
      | None \<Rightarrow> False)"

definition is_block_persisted_or_buffered :: "('p, 'i, 'f, 'l) engine_tree \<Rightarrow> b256 \<Rightarrow> bool" where
  "is_block_persisted_or_buffered t h \<longleftrightarrow>
     provider_sealed_header (provider t) h \<noteq> None \<or> fmlookup (blocks (block_buffer t)) h \<noteq> None"

partial_function (option) is_fork_loop ::
  "'p provider \<Rightarrow> num_hash \<Rightarrow> b256 \<Rightarrow> bool option" where
  "is_fork_loop pr head current_hash =
     (case provider_sealed_header pr current_hash of
        Some current_block \<Rightarrow>
          if hash current_block = nh_hash head then Some False
          else if number current_block \<le> nh_number head then Some True
          else is_fork_loop pr head (parent_hash current_block)
      | None \<Rightarrow> Some True)"

declare is_fork_loop.simps [code]

definition is_fork :: "('p, 'i, 'f, 'l) engine_tree \<Rightarrow> b256 \<Rightarrow> bool option" where
  "is_fork t target_hash = is_fork_loop (provider t) (canonical_head t) target_hash"

definition emit_event ::
  "beacon_event \<Rightarrow> ('p, 'i, 'f, 'l) engine_tree \<Rightarrow> ('p, 'i, 'f, 'l) engine_tree" where
  "emit_event e t = t\<lparr>events := events t @ [e]\<rparr>"

definition set_canonical_head ::
  "num_hash \<Rightarrow> ('p, 'i, 'f, 'l) engine_tree \<Rightarrow> ('p, 'i, 'f, 'l) engine_tree" where
  "set_canonical_head head t = t\<lparr>canonical_head := head\<rparr>"

definition lowest_buffered_ancestor_or ::
  "('p, 'i, 'f, 'l) engine_tree \<Rightarrow> b256 \<Rightarrow> b256 option" where
  "lowest_buffered_ancestor_or t h =
     map_option (\<lambda>r. case r of Some block \<Rightarrow> parent_hash block | None \<Rightarrow> h)
       (lowest_ancestor (block_buffer t) h)"

definition validate_block ::
  "('p, 'x, 'e, 'a, 'i, 'f, 'l) tree_lib \<Rightarrow> sealed_block \<Rightarrow> consensus_error option" where
  "validate_block L block =
     (case validate_header L (clone_sealed_header block) of
        Some e \<Rightarrow> Some e
      | None \<Rightarrow> validate_block_pre_execution L block)"

definition validate_payload_attributes ::
  "('p, 'x, 'e, 'a, 'i, 'f, 'l) tree_lib \<Rightarrow> 'a \<Rightarrow> header \<Rightarrow> forkchoice_state \<Rightarrow> u8 \<Rightarrow>
     on_fork_choice_updated option" where
  "validate_payload_attributes L attrs head state version =
     (if \<not> attributes_match_header L attrs head then Some FcuInvalidPayloadAttributes
      else if \<not> builder_attributes_ok L (head_block_hash state) attrs version
      then Some FcuInvalidPayloadAttributes
      else None)"

definition ensure_consistent_forkchoice_state ::
  "('p, 'i, 'f, 'l) engine_tree \<Rightarrow> forkchoice_state \<Rightarrow> on_fork_choice_updated option" where
  "ensure_consistent_forkchoice_state t state =
     (if finalized_block_hash state \<noteq> 0 \<and>
         \<not> provider_is_hash_canonical (provider t) (finalized_block_hash state)
      then Some FcuInvalidState
      else if safe_block_hash state \<noteq> 0 \<and>
         \<not> provider_is_hash_canonical (provider t) (safe_block_hash state)
      then Some FcuInvalidState
      else None)"

section \<open>The latest valid hash\<close>

text \<open>The loop of \<open>latest_valid_hash_for_invalid_payload\<close> over the invalid header cache.\<close>

partial_function (option) invalid_ancestors_loop ::
  "('p, 'x, 'e, 'a, 'i, 'f, 'l) tree_lib \<Rightarrow> 'p provider \<Rightarrow> block_with_parent option \<Rightarrow> 'i \<Rightarrow>
     (b256 option \<times> 'i) option" where
  "invalid_ancestors_loop L pr current_block i =
     (case current_block of
        None \<Rightarrow> Some (None, i)
      | Some block_with_parent \<Rightarrow>
          (let current_hash = bwp_parent block_with_parent;
               (current_block, i) = invalid_get L current_hash i
           in if current_block = None \<and> provider_sealed_header pr current_hash \<noteq> None
              then Some (Some current_hash, i)
              else invalid_ancestors_loop L pr current_block i))"

declare invalid_ancestors_loop.simps [code]

definition latest_valid_hash_for_invalid_payload ::
  "('p, 'x, 'e, 'a, 'i, 'f, 'l) tree_lib \<Rightarrow> b256 \<Rightarrow> ('p, 'i, 'f, 'l) engine_tree \<Rightarrow>
     (b256 option \<times> ('p, 'i, 'f, 'l) engine_tree) option" where
  "latest_valid_hash_for_invalid_payload L parent t =
     (if provider_sealed_header (provider t) parent \<noteq> None then Some (Some parent, t)
      else
        (let (current_block, i) = invalid_get L parent (invalid_headers t)
         in map_option (\<lambda>(h, i). (h, t\<lparr>invalid_headers := i\<rparr>))
              (invalid_ancestors_loop L (provider t) current_block i)))"

definition prepare_invalid_response ::
  "('p, 'x, 'e, 'a, 'i, 'f, 'l) tree_lib \<Rightarrow> b256 \<Rightarrow> ('p, 'i, 'f, 'l) engine_tree \<Rightarrow>
     (payload_status \<times> ('p, 'i, 'f, 'l) engine_tree) option" where
  "prepare_invalid_response L parent t =
     (let parent =
            (case provider_sealed_header (provider t) parent of
               Some p \<Rightarrow> if difficulty p \<noteq> 0 then 0 else parent
             | None \<Rightarrow> parent)
      in map_option
           (\<lambda>(valid_parent_hash, t).
              (with_latest_valid_hash
                 (payload_status_from_status (StatusInvalid (links_to_rejected_payload L)))
                 (case valid_parent_hash of Some h \<Rightarrow> h | None \<Rightarrow> 0), t))
           (latest_valid_hash_for_invalid_payload L parent t))"

definition check_invalid_ancestor_with_head ::
  "('p, 'x, 'e, 'a, 'i, 'f, 'l) tree_lib \<Rightarrow> b256 \<Rightarrow> b256 \<Rightarrow> ('p, 'i, 'f, 'l) engine_tree \<Rightarrow>
     (payload_status option \<times> ('p, 'i, 'f, 'l) engine_tree) option" where
  "check_invalid_ancestor_with_head L check head t =
     (let (r, i) = invalid_get L check (invalid_headers t);
          t = t\<lparr>invalid_headers := i\<rparr>
      in case r of
           None \<Rightarrow> Some (None, t)
         | Some header \<Rightarrow> do {
             (st, t) \<leftarrow> prepare_invalid_response L (bwp_parent header) t;
             Some (Some st,
               t\<lparr>invalid_headers :=
                   invalid_insert_with_ancestor L head header (invalid_headers t)\<rparr>)
           })"

definition check_invalid_ancestor ::
  "('p, 'x, 'e, 'a, 'i, 'f, 'l) tree_lib \<Rightarrow> b256 \<Rightarrow> ('p, 'i, 'f, 'l) engine_tree \<Rightarrow>
     (payload_status option \<times> ('p, 'i, 'f, 'l) engine_tree) option" where
  "check_invalid_ancestor L head t =
     (let (r, i) = invalid_get L head (invalid_headers t);
          t = t\<lparr>invalid_headers := i\<rparr>
      in case r of
           None \<Rightarrow> Some (None, t)
         | Some header \<Rightarrow> do {
             (st, t) \<leftarrow> prepare_invalid_response L (bwp_parent header) t;
             Some (Some st, t)
           })"

definition on_insert_block_error ::
  "('p, 'x, 'e, 'a, 'i, 'f, 'l) tree_lib \<Rightarrow> sealed_block \<Rightarrow> insert_block_error_kind \<Rightarrow>
     ('p, 'i, 'f, 'l) engine_tree \<Rightarrow>
     ((insert_block_fatal_error + payload_status) \<times> ('p, 'i, 'f, 'l) engine_tree) option" where
  "on_insert_block_error L block err t =
     (case ensure_validation_error L err of
        Inl fatal \<Rightarrow> Some (Inl fatal, t)
      | Inr validation_err \<Rightarrow> do {
          (lvh, t) \<leftarrow> latest_valid_hash_for_invalid_payload L (parent_hash block) t;
          let t = t\<lparr>invalid_headers :=
                      invalid_insert L (block_with_parent_of block) (invalid_headers t)\<rparr>;
          Some (Inr (payload_status_new (StatusInvalid validation_err) lvh), t)
        })"

section \<open>The canonical chain\<close>

text \<open>
  The three loops of \<open>on_new_head\<close>. \<open>current_number\<close> and \<open>current_canonical_number\<close> go down by one
  per step of the first two; the third ends when both walks meet. A result \<open>None\<close> of the first two,
  and \<open>Some None\<close> of the third, is the early return.
\<close>

function walk_new_chain ::
  "'p provider \<Rightarrow> u64 \<Rightarrow> u64 \<Rightarrow> b256 \<Rightarrow> sealed_header list \<Rightarrow>
     (u64 \<times> b256 \<times> sealed_header list) option" where
  "walk_new_chain pr current_canonical_number current_number current_hash new_chain =
     (if current_canonical_number < current_number
      then
        (case provider_sealed_header pr current_hash of
           Some header \<Rightarrow>
             walk_new_chain pr current_canonical_number (current_number - 1) (parent_hash header)
               (new_chain @ [header])
         | None \<Rightarrow> None)
      else Some (current_number, current_hash, new_chain))"
  by pat_completeness auto
termination
  by (relation "measure (\<lambda>(pr, c, n, h, l). unat n)") (auto simp: word_less_nat_alt unat_sub_if')

function walk_old_chain ::
  "'p provider \<Rightarrow> u64 \<Rightarrow> u64 \<Rightarrow> b256 \<Rightarrow> sealed_header list \<Rightarrow>
     (b256 \<times> sealed_header list) option" where
  "walk_old_chain pr current_canonical_number current_number old_hash old_chain =
     (if current_number < current_canonical_number
      then
        (case provider_sealed_header pr old_hash of
           Some header \<Rightarrow>
             walk_old_chain pr (current_canonical_number - 1) current_number (parent_hash header)
               (old_chain @ [header])
         | None \<Rightarrow> None)
      else Some (old_hash, old_chain))"
  by pat_completeness auto
termination
  by (relation "measure (\<lambda>(pr, c, n, h, l). unat c)") (auto simp: word_less_nat_alt unat_sub_if')

declare walk_new_chain.simps [simp del] walk_old_chain.simps [simp del]

partial_function (option) walk_to_fork ::
  "'p provider \<Rightarrow> b256 \<Rightarrow> b256 \<Rightarrow> sealed_header list \<Rightarrow> sealed_header list \<Rightarrow>
     (sealed_header list \<times> sealed_header list) option option" where
  "walk_to_fork pr old_hash current_hash old_chain new_chain =
     (if old_hash = current_hash then Some (Some (old_chain, new_chain))
      else
        (case provider_sealed_header pr old_hash of
           None \<Rightarrow> Some None
         | Some old_header \<Rightarrow>
             (case provider_sealed_header pr current_hash of
                None \<Rightarrow> Some None
              | Some header \<Rightarrow>
                  walk_to_fork pr (parent_hash old_header) (parent_hash header)
                    (old_chain @ [old_header]) (new_chain @ [header]))))"

declare walk_to_fork.simps [code]

definition on_new_head ::
  "('p, 'x, 'e, 'a, 'i, 'f, 'l) tree_lib \<Rightarrow> ('p, 'i, 'f, 'l) engine_tree \<Rightarrow> b256 \<Rightarrow>
     new_canonical_chain option option" where
  "on_new_head L t new_head =
     (case provider_sealed_header (provider t) new_head of
        None \<Rightarrow> Some None
      | Some new_head_block \<Rightarrow>
          (let current_canonical_number = nh_number (canonical_head t);
               p = parent_num_hash L new_head_block
           in case walk_new_chain (provider t) current_canonical_number (nh_number p) (nh_hash p)
                     [new_head_block] of
                None \<Rightarrow> Some None
              | Some (current_number, current_hash, new_chain) \<Rightarrow>
                  if current_hash = nh_hash (canonical_head t)
                  then Some (Some (Commit (rev new_chain)))
                  else
                    (case walk_old_chain (provider t) current_canonical_number current_number
                            (nh_hash (canonical_head t)) [] of
                       None \<Rightarrow> Some None
                     | Some (old_hash, old_chain) \<Rightarrow>
                         map_option (map_option (\<lambda>(old_chain, new_chain).
                             Reorg (rev new_chain) (rev old_chain)))
                           (walk_to_fork (provider t) old_hash current_hash old_chain new_chain))))"

definition on_canonical_chain_update ::
  "new_canonical_chain \<Rightarrow> ('p, 'i, 'f, 'l) engine_tree \<Rightarrow> ('p, 'i, 'f, 'l) engine_tree option" where
  "on_canonical_chain_update update t =
     (case chain_tip update of
        None \<Rightarrow> None
      | Some tip \<Rightarrow>
          (let t = set_canonical_head (num_hash tip) t;
               (new, old) = (case update of Commit new \<Rightarrow> (new, []) | Reorg new old \<Rightarrow> (new, old));
               t = t\<lparr>provider := on_chain_update new old (provider t)\<rparr>
           in Some (emit_event (CanonicalChainCommitted tip) t)))"

definition make_canonical ::
  "('p, 'x, 'e, 'a, 'i, 'f, 'l) tree_lib \<Rightarrow> b256 \<Rightarrow> ('p, 'i, 'f, 'l) engine_tree \<Rightarrow>
     ('p, 'i, 'f, 'l) engine_tree option" where
  "make_canonical L target t = do {
     r \<leftarrow> on_new_head L t target;
     (case r of Some chain_update \<Rightarrow> on_canonical_chain_update chain_update t | None \<Rightarrow> Some t)
   }"

section \<open>Inserting blocks\<close>

definition insert_block ::
  "('p, 'x, 'e, 'a, 'i, 'f, 'l) tree_lib \<Rightarrow> recovered_block \<Rightarrow> 'p option \<Rightarrow>
     ('p, 'i, 'f, 'l) engine_tree \<Rightarrow>
     ((insert_block_error_kind + insert_payload_ok) \<times> ('p, 'i, 'f, 'l) engine_tree) option" where
  "insert_block L block maybe_proof t =
     (if provider_sealed_header (provider t) (hash block) \<noteq> None then Some (Inr AlreadySeen, t)
      else
        (case validate_block L (clone_sealed_block block) of
           Some e \<Rightarrow> Some (Inl (KindConsensus e), t)
         | None \<Rightarrow>
             (case provider_sealed_header (provider t) (parent_hash block) of
                None \<Rightarrow> do {
                  r \<leftarrow> lowest_ancestor (block_buffer t) (parent_hash block);
                  let missing =
                    (case r of
                       Some b \<Rightarrow> parent_num_hash L (clone_sealed_header b)
                     | None \<Rightarrow> parent_num_hash L (clone_sealed_header block));
                  let buf =
                    (case maybe_proof of
                       Some p \<Rightarrow> insert_proof (hash block) p (block_buffer t)
                     | None \<Rightarrow> block_buffer t);
                  let buf = Block_Buffer.insert_block (buffer_ops L) block buf;
                  Some (Inr (Inserted (Disconnected (canonical_head t) missing)),
                        t\<lparr>block_buffer := buf\<rparr>)
                }
              | Some parent \<Rightarrow>
                  (case maybe_proof of
                     None \<Rightarrow>
                       Some (Inr (Inserted NoProof),
                         t\<lparr>block_buffer :=
                             Block_Buffer.insert_block (buffer_ops L) block (block_buffer t)\<rparr>)
                   | Some prf \<Rightarrow>
                       (case verify L (chain_state_of (provider t)) block parent prf of
                          Some e \<Rightarrow> Some (Inl (kind_of_verifier_error e), t)
                        | None \<Rightarrow> do {
                            let t = t\<lparr>provider :=
                                        provider_insert_block block (Some prf) (provider t)\<rparr>;
                            fork \<leftarrow> is_fork t (hash block);
                            Some (Inr (Inserted Valid),
                              emit_event
                                (if fork then ForkBlockAdded block else CanonicalBlockAdded block) t)
                          })))))"

text \<open>The loop over the blocks taken from the buffer; a fatal error ends it.\<close>

fun connect_blocks ::
  "('p, 'x, 'e, 'a, 'i, 'f, 'l) tree_lib \<Rightarrow> (recovered_block \<times> 'p) list \<Rightarrow>
     ('p, 'i, 'f, 'l) engine_tree \<Rightarrow>
     (insert_block_fatal_error option \<times> ('p, 'i, 'f, 'l) engine_tree) option" where
  "connect_blocks L [] t = Some (None, t)"
| "connect_blocks L ((child, prf) # rest) t = do {
     (r, t) \<leftarrow> insert_block L child (Some prf) t;
     (case r of
        Inr result \<Rightarrow> do {
          t \<leftarrow> (if is_sync_target_head L t (hash child) \<and> result = Inserted Valid
               then make_canonical L (hash child) t else Some t);
          connect_blocks L rest t
        }
      | Inl kind \<Rightarrow> do {
          (r, t) \<leftarrow> on_insert_block_error L (clone_sealed_block child) kind t;
          (case r of
             Inl fatal \<Rightarrow> Some (Some fatal, t)
           | Inr _ \<Rightarrow> connect_blocks L rest t)
        })
   }"

definition try_connect_buffered_blocks ::
  "('p, 'x, 'e, 'a, 'i, 'f, 'l) tree_lib \<Rightarrow> b256 \<Rightarrow> ('p, 'i, 'f, 'l) engine_tree \<Rightarrow>
     (insert_block_fatal_error option \<times> ('p, 'i, 'f, 'l) engine_tree) option" where
  "try_connect_buffered_blocks L parent t =
     (let (removed, buf) = remove_block_with_children (buffer_ops L) parent (block_buffer t);
          t = t\<lparr>block_buffer := buf\<rparr>
      in if removed = [] then Some (None, t) else connect_blocks L removed t)"

section \<open>The handlers\<close>

definition with_maybe_event :: "'b tree_outcome \<Rightarrow> tree_event option \<Rightarrow> 'b tree_outcome" where
  "with_maybe_event o' maybe_event =
     (case maybe_event of Some e \<Rightarrow> with_event o' e | None \<Rightarrow> o')"

definition on_new_payload ::
  "('p, 'x, 'e, 'a, 'i, 'f, 'l) tree_lib \<Rightarrow> 'x \<Rightarrow> 'p option \<Rightarrow> ('p, 'i, 'f, 'l) engine_tree \<Rightarrow>
     ((insert_block_fatal_error + payload_status tree_outcome) \<times>
      ('p, 'i, 'f, 'l) engine_tree) option" where
  "on_new_payload L payload maybe_proof t =
     (let parent = payload_parent_hash L payload
      in case ensure_well_formed_payload L payload of
           Inl error \<Rightarrow> do {
             (lvh, t) \<leftarrow>
               (if is_block_hash_mismatch L error \<or> is_invalid_versioned_hashes L error
                then Some (None, t)
                else latest_valid_hash_for_invalid_payload L parent t);
             Some (Inr (tree_outcome_new
               (payload_status_new (status_of_payload_error L error) lvh)), t)
           }
         | Inr block \<Rightarrow> do {
             let bh = hash block;
             a \<leftarrow> lowest_buffered_ancestor_or t bh;
             let lowest_buffered_ancestor = (if a = bh then parent_hash block else a);
             (invalid, t) \<leftarrow> check_invalid_ancestor_with_head L lowest_buffered_ancestor bh t;
             (case invalid of
                Some st \<Rightarrow> Some (Inr (tree_outcome_new st), t)
              | None \<Rightarrow> do {
                  (r, t) \<leftarrow> insert_block L block maybe_proof t;
                  (r, t) \<leftarrow>
                    (case r of
                       Inr (Inserted (Disconnected _ missing)) \<Rightarrow>
                         Some (Inr (payload_status_new StatusSyncing None,
                                    Some (download_block_event (nh_hash missing))), t)
                     | Inr (Inserted NoProof) \<Rightarrow>
                         Some (Inr (payload_status_new StatusSyncing None,
                                    Some (download_proof_event bh)), t)
                     | Inr _ \<Rightarrow> do {
                         (fatal, t) \<leftarrow> try_connect_buffered_blocks L bh t;
                         (case fatal of
                            Some e \<Rightarrow> Some (Inl e, t)
                          | None \<Rightarrow>
                              Some (Inr (payload_status_new StatusValid (Some bh),
                                if is_sync_target_head L t bh
                                then Some (make_canonical_event bh) else None), t))
                       }
                     | Inl kind \<Rightarrow> do {
                         (r, t) \<leftarrow> on_insert_block_error L (clone_sealed_block block) kind t;
                         Some (map_sum id (\<lambda>st. (st, None)) r, t)
                       });
                  Some (map_sum id
                    (\<lambda>(st, maybe_event). with_maybe_event (tree_outcome_new st) maybe_event)
                    r, t)
                })
           })"

definition on_downloaded_block ::
  "('p, 'x, 'e, 'a, 'i, 'f, 'l) tree_lib \<Rightarrow> recovered_block \<Rightarrow> 'p \<Rightarrow> ('p, 'i, 'f, 'l) engine_tree \<Rightarrow>
     ((insert_block_fatal_error + payload_status tree_outcome) \<times>
      ('p, 'i, 'f, 'l) engine_tree) option" where
  "on_downloaded_block L block prf t = do {
     let bh = hash block;
     lowest_buffered_ancestor \<leftarrow> lowest_buffered_ancestor_or t bh;
     (invalid, t) \<leftarrow> check_invalid_ancestor_with_head L lowest_buffered_ancestor bh t;
     (case invalid of
        Some st \<Rightarrow> Some (Inr (tree_outcome_new st), t)
      | None \<Rightarrow> do {
          (r, t) \<leftarrow> insert_block L block (Some prf) t;
          (r, t) \<leftarrow>
            (case r of
               Inr (Inserted Valid) \<Rightarrow> do {
                 let maybe_event =
                   (if is_sync_target_head L t bh
                    then Some (make_canonical_event bh) else None);
                 (fatal, t) \<leftarrow> try_connect_buffered_blocks L bh t;
                 (case fatal of
                    Some e \<Rightarrow> Some (Inl e, t)
                  | None \<Rightarrow>
                      Some (Inr (payload_status_new StatusValid (Some bh), maybe_event), t))
               }
             | Inr AlreadySeen \<Rightarrow>
                 Some (Inr (payload_status_new StatusValid (Some bh), None), t)
             | Inr (Inserted (Disconnected _ missing)) \<Rightarrow>
                 Some (Inr (payload_status_new StatusSyncing None,
                            Some (download_block_event (nh_hash missing))), t)
             | Inr (Inserted NoProof) \<Rightarrow>
                 Some (Inr (payload_status_new StatusSyncing None,
                            Some (download_proof_event bh)), t)
             | Inl kind \<Rightarrow> do {
                 (r, t) \<leftarrow> on_insert_block_error L (clone_sealed_block block) kind t;
                 Some (map_sum id (\<lambda>st. (st, None)) r, t)
               });
          Some (map_sum id
            (\<lambda>(st, maybe_event). with_maybe_event (tree_outcome_new st) maybe_event)
            r, t)
        })
   }"

definition pre_validate_forkchoice_update ::
  "('p, 'x, 'e, 'a, 'i, 'f, 'l) tree_lib \<Rightarrow> forkchoice_state \<Rightarrow> ('p, 'i, 'f, 'l) engine_tree \<Rightarrow>
     (on_fork_choice_updated option \<times> ('p, 'i, 'f, 'l) engine_tree) option" where
  "pre_validate_forkchoice_update L state t =
     (if head_block_hash state = 0 then Some (Some FcuInvalidState, t)
      else do {
        lowest_buffered_ancestor_fcu \<leftarrow> lowest_buffered_ancestor_or t (head_block_hash state);
        (r, t) \<leftarrow> check_invalid_ancestor L lowest_buffered_ancestor_fcu t;
        Some (map_option FcuWithInvalid r, t)
      })"

text \<open>The response that the head is valid.\<close>

definition fcu_valid_head :: "forkchoice_state \<Rightarrow> on_fork_choice_updated tree_outcome" where
  "fcu_valid_head state =
     tree_outcome_new (FcuValid (payload_status_new StatusValid (Some (head_block_hash state))))"

text \<open>The first branch: the head is the canonical head already.\<close>

definition fcu_same_head ::
  "('p, 'x, 'e, 'a, 'i, 'f, 'l) tree_lib \<Rightarrow> forkchoice_state \<Rightarrow> 'a option \<Rightarrow> u8 \<Rightarrow>
     ('p, 'i, 'f, 'l) engine_tree \<Rightarrow> provider_error + on_fork_choice_updated tree_outcome" where
  "fcu_same_head L state payload_attrs version t =
     (case ensure_consistent_forkchoice_state t state of
        Some o' \<Rightarrow> Inr (tree_outcome_new o')
      | None \<Rightarrow>
          (case payload_attrs of
             None \<Rightarrow> Inr (fcu_valid_head state)
           | Some attr \<Rightarrow>
               (case provider_sealed_header (provider t) (nh_hash (canonical_head t)) of
                  None \<Rightarrow> Inl (HeaderNotFound (head_block_hash state))
                | Some tip \<Rightarrow>
                    (case validate_payload_attributes L attr (clone_header tip) state version of
                       Some s \<Rightarrow> Inr (tree_outcome_new s)
                     | None \<Rightarrow> Inr (fcu_valid_head state)))))"

text \<open>The second branch, once the chain update is known.\<close>

definition fcu_new_head ::
  "('p, 'x, 'e, 'a, 'i, 'f, 'l) tree_lib \<Rightarrow> forkchoice_state \<Rightarrow> 'a option \<Rightarrow> u8 \<Rightarrow>
     new_canonical_chain \<Rightarrow> ('p, 'i, 'f, 'l) engine_tree \<Rightarrow>
     (on_fork_choice_updated tree_outcome \<times> ('p, 'i, 'f, 'l) engine_tree) option" where
  "fcu_new_head L state payload_attrs version chain_update t = do {
     tip \<leftarrow> chain_tip chain_update;
     t \<leftarrow> on_canonical_chain_update chain_update t;
     (case ensure_consistent_forkchoice_state t state of
        Some o' \<Rightarrow> Some (tree_outcome_new o', t)
      | None \<Rightarrow>
          (let t = t\<lparr>provider := on_finalized (finalized_block_hash state) (provider t)\<rparr>;
               t = (case provider_block_number (provider t) (finalized_block_hash state) of
                      Some finalized_number \<Rightarrow>
                        t\<lparr>block_buffer :=
                            evict_old_blocks (buffer_ops L) finalized_number (block_buffer t)\<rparr>
                    | None \<Rightarrow> t)
           in case payload_attrs of
                None \<Rightarrow> Some (fcu_valid_head state, t)
              | Some attr \<Rightarrow>
                  (case validate_payload_attributes L attr (clone_header tip) state version of
                     Some s \<Rightarrow> Some (tree_outcome_new s, t)
                   | None \<Rightarrow> Some (fcu_valid_head state, t))))
   }"

text \<open>The last branch: the head is unknown, find what to download.\<close>

definition fcu_sync ::
  "forkchoice_state \<Rightarrow> ('p, 'i, 'f, 'l) engine_tree \<Rightarrow> on_fork_choice_updated tree_outcome option" where
  "fcu_sync state t =
     (let o' = tree_outcome_new (FcuValid (payload_status_from_status StatusSyncing))
      in if finalized_block_hash state \<noteq> 0 \<and>
            \<not> is_block_persisted_or_buffered t (finalized_block_hash state)
         then Some (with_event o' (download_finalized_event (finalized_block_hash state)))
         else
           (let target =
                  (if safe_block_hash state \<noteq> 0 \<and>
                      \<not> is_block_persisted_or_buffered t (safe_block_hash state)
                   then safe_block_hash state else head_block_hash state)
            in do {
              target \<leftarrow> lowest_buffered_ancestor_or t target;
              Some (if target \<noteq> finalized_block_hash state \<and>
                       \<not> is_block_persisted_or_buffered t target
                    then with_event o' (download_block_event target) else o')
            }))"

definition on_forkchoice_updated ::
  "('p, 'x, 'e, 'a, 'i, 'f, 'l) tree_lib \<Rightarrow> forkchoice_state \<Rightarrow> 'a option \<Rightarrow> u8 \<Rightarrow>
     ('p, 'i, 'f, 'l) engine_tree \<Rightarrow>
     ((provider_error + on_fork_choice_updated tree_outcome) \<times>
      ('p, 'i, 'f, 'l) engine_tree) option" where
  "on_forkchoice_updated L state payload_attrs version t = do {
     (pre, t) \<leftarrow> pre_validate_forkchoice_update L state t;
     (case pre of
        Some on_updated \<Rightarrow> Some (Inr (tree_outcome_new on_updated), t)
      | None \<Rightarrow>
          if nh_hash (canonical_head t) = head_block_hash state
          then Some (fcu_same_head L state payload_attrs version t, t)
          else do {
            r \<leftarrow> on_new_head L t (head_block_hash state);
            (case r of
               Some chain_update \<Rightarrow> do {
                 (o', t) \<leftarrow> fcu_new_head L state payload_attrs version chain_update t;
                 Some (Inr o', t)
               }
             | None \<Rightarrow>
                 if provider_sealed_header (provider t) (head_block_hash state) \<noteq> None
                 then Some (Inr (fcu_valid_head state), t)
                 else do {
                   o' \<leftarrow> fcu_sync state t;
                   Some (Inr o', t)
                 })
          })
   }"

end
