(* ===== verification/Buffer_Worklists.thy ===== *)
theory Buffer_Worklists
  imports Block_Buffer
begin

text \<open>
  The worklist loops of \<open>block_buffer.rs\<close>: what \<open>evict_children\<close> and \<open>remove_children\<close> visit, what they
  leave in the buffer, and the list of blocks \<open>remove_children\<close> returns.
\<close>

section \<open>The worklists\<close>

text \<open>Dropping the children entry of one hash.\<close>

definition unlink :: "b256 \<Rightarrow> ('p, 'l) block_buffer \<Rightarrow> ('p, 'l) block_buffer" where
  "unlink p buf = buf\<lparr>parent_to_child := fmdrop p (parent_to_child buf)\<rparr>"

lemma unlink_sel [simp]:
  "blocks (unlink p buf) = blocks buf"
  "buffered_proofs (unlink p buf) = buffered_proofs buf"
  "earliest_blocks (unlink p buf) = earliest_blocks buf"
  "lru (unlink p buf) = lru buf"
  "values_at (parent_to_child (unlink p buf)) q =
     (if q = p then {||} else values_at (parent_to_child buf) q)"
  by (simp_all add: unlink_def map_specs)

lemma unlink_inv [inv_intros]: "buffer_inv L keys P buf \<Longrightarrow> buffer_inv L keys P (unlink p buf)"
  by (auto simp: buffer_inv_def links_inv_def unlink_def map_specs intro: inv_intros)

lemma evict_children_empty [simp]: "evict_children L [] buf = buf"
  by (subst evict_children.simps) simp

lemma evict_children_skip:
  "fmlookup (parent_to_child buf) p = None \<Longrightarrow>
     evict_children L (work @ [p]) buf = evict_children L work buf"
  by (subst evict_children.simps) simp

lemma evict_children_pop:
  "fmlookup (parent_to_child buf) p = Some s \<Longrightarrow>
     evict_children L (work @ [p]) buf =
     evict_children L (work @ set_iter L s) (evict_each L (set_iter L s) (unlink p buf))"
  by (subst evict_children.simps) (simp add: unlink_def Let_def)

lemma remove_children_empty [simp]: "remove_children L [] buf = ([], buf)"
  by (subst remove_children.simps) simp

lemma remove_children_skip:
  "fmlookup (parent_to_child buf) p = None \<Longrightarrow>
     remove_children L (work @ [p]) buf = remove_children L work buf"
  by (subst remove_children.simps) simp

lemma remove_children_pop:
  "fmlookup (parent_to_child buf) p = Some s \<Longrightarrow>
     remove_children L (work @ [p]) buf =
     (let (removed, buf') = remove_each L (set_iter L s) (unlink p buf);
          (removed', buf'') = remove_children L (work @ set_iter L s) buf'
      in (removed @ removed', buf''))"
  by (subst remove_children.simps) (simp add: unlink_def Let_def split: prod.splits)

text \<open>Induction over a run of a worklist, by the shrinking children map.\<close>

lemma worklist_induct [case_names empty skip pop]:
  assumes empty: "\<And>buf. Q [] buf"
    and skip: "\<And>work p buf. fmlookup (parent_to_child buf) p = None \<Longrightarrow> Q work buf \<Longrightarrow>
      Q (work @ [p]) buf"
    and pop: "\<And>work p s buf. fmlookup (parent_to_child buf) p = Some s \<Longrightarrow>
      (\<And>work' buf'. fmdom (parent_to_child buf') |\<subseteq>| fmdom (parent_to_child (unlink p buf)) \<Longrightarrow>
        Q work' buf') \<Longrightarrow> Q (work @ [p]) buf"
  shows "Q work (buf :: ('p, 'l) block_buffer)"
proof (induction "(fcard (fmdom (parent_to_child buf)), length work)" arbitrary: work buf
    rule: wf_induct_rule [OF wf_lex_prod [OF wf_less_than wf_less_than]])
  case 1
  show ?case
  proof (cases work rule: rev_cases)
    case Nil
    then show ?thesis using empty by simp
  next
    case (snoc work' p)
    show ?thesis
    proof (cases "fmlookup (parent_to_child buf) p")
      case None
      then show ?thesis unfolding snoc by (rule skip) (rule 1, simp add: snoc)
    next
      case (Some s)
      show ?thesis unfolding snoc
      proof (rule pop [OF Some])
        fix w and b' :: "('p, 'l) block_buffer"
        assume "fmdom (parent_to_child b') |\<subseteq>| fmdom (parent_to_child (unlink p buf))"
        then have "fcard (fmdom (parent_to_child b')) < fcard (fmdom (parent_to_child buf))"
          by (intro drop_then_keys_less [OF Some]) (simp add: unlink_def del: fmdom_drop)
        then show "Q w b'" by (intro 1) simp
      qed
    qed
  qed
qed

text \<open>
  What a worklist visits and the children it meets, in the graph of \<open>parent_to_child\<close>.
\<close>

abbreviation kids :: "('p, 'l) block_buffer \<Rightarrow> b256 \<Rightarrow> b256 fset" where
  "kids buf \<equiv> values_at (parent_to_child buf)"

definition met :: "('p, 'l) block_buffer \<Rightarrow> b256 set \<Rightarrow> b256 set" where
  "met buf S = {h. \<exists>q \<in> closure (kids buf) S. h |\<in>| kids buf q}"

lemma visit_skip:
  assumes "kids buf p = {||}"
  shows "closure (kids buf) (insert p S) = insert p (closure (kids buf) S)"
    and "met buf (insert p S) = met buf S"
proof -
  have "(kids buf)(p := {||}) = kids buf" using assms by (metis fun_upd_triv)
  then show "closure (kids buf) (insert p S) = insert p (closure (kids buf) S)"
    using closure_pop [of "kids buf" p S] assms by simp
  then show "met buf (insert p S) = met buf S" using assms by (auto simp: met_def)
qed

lemma visit_pop:
  assumes "kids buf' = (kids buf)(p := {||})"
  shows "closure (kids buf) (insert p S) = insert p (closure (kids buf') (S \<union> fset (kids buf p)))"
    and "met buf (insert p S) = fset (kids buf p) \<union> met buf' (S \<union> fset (kids buf p))"
proof -
  show c: "closure (kids buf) (insert p S) = insert p (closure (kids buf') (S \<union> fset (kids buf p)))"
    unfolding assms by (rule closure_pop)
  show "met buf (insert p S) = fset (kids buf p) \<union> met buf' (S \<union> fset (kids buf p))"
    unfolding met_def c assms by (auto split: if_splits)
qed

lemma evict_children_correct:
  assumes laws: "buffer_lib_laws L keys" and inv: "buffer_inv L keys P buf"
  shows "buffer_inv L keys P (evict_children L work buf) \<and>
     (\<forall>h. fmlookup (blocks (evict_children L work buf)) h =
        (if h \<in> met buf (set work) then None else fmlookup (blocks buf) h)) \<and>
     (\<forall>h. fmlookup (buffered_proofs (evict_children L work buf)) h =
        (if h \<in> met buf (set work) then None else fmlookup (buffered_proofs buf) h)) \<and>
     (\<forall>q. kids (evict_children L work buf) q =
        (if q \<in> closure (kids buf) (set work) then {||} else kids buf q))"
  using inv
proof (induction work buf rule: worklist_induct)
  case (empty buf)
  then show ?case by (simp add: met_def)
next
  case (skip work p buf)
  have "kids buf p = {||}" using skip.hyps by (rule values_at_NoneD)
  note v = visit_skip [OF this]
  show ?case
    using skip.IH [OF skip.prems] \<open>kids buf p = {||}\<close>
    by (auto simp: evict_children_skip [OF skip.hyps] v)
next
  case (pop work p s buf)
  have s: "kids buf p = s" using pop.hyps by (rule values_at_SomeD)
  let ?b = "evict_each L (set_iter L s) (unlink p buf)"
  have inv1: "buffer_inv L keys P (unlink p buf)" using pop.prems by (rule inv_intros)
  note each = evict_each_correct [OF laws inv1, of "set_iter L s"]
  have iter: "set (set_iter L s) = fset s" by (rule buffer_lib_iter [OF laws])
  have kids: "kids ?b = (kids buf)(p := {||})"
  proof
    fix q
    have "q \<noteq> p \<Longrightarrow> kids buf q |-| s = kids buf q"
      using buffer_inv_child_unique [OF pop.prems] s by blast
    then show "kids ?b q = ((kids buf)(p := {||})) q"
      using each iter by (auto simp: fset_of_list.rep_eq fset_eq_iff)
  qed
  note v = visit_pop [OF kids, of "set work", unfolded s]
  have stored: "h \<in> fset s \<Longrightarrow> fmlookup (blocks buf) h \<noteq> None" for h
    using buffer_inv_child [OF pop.prems, of h p] s by auto
  have "fmdom (parent_to_child ?b) |\<subseteq>| fmdom (parent_to_child (unlink p buf))"
    by (rule evict_each_keys)
  note IH = pop.IH [OF this conjunct1 [OF each], of "work @ set_iter L s"]
  have set_work: "set (work @ set_iter L s) = set work \<union> fset s" by (simp add: iter)
  note IH = IH [unfolded set_work]
  show ?case
  proof (intro conjI allI)
    show "buffer_inv L keys P (evict_children L (work @ [p]) buf)"
      unfolding evict_children_pop [OF pop.hyps] using IH by blast
  next
    fix h
    have "fmlookup (blocks ?b) h = (if h |\<in>| s then None else fmlookup (blocks buf) h)"
      using each iter by simp
    then show "fmlookup (blocks (evict_children L (work @ [p]) buf)) h =
        (if h \<in> met buf (set (work @ [p])) then None else fmlookup (blocks buf) h)"
      unfolding evict_children_pop [OF pop.hyps] using IH v(2) by simp
  next
    fix h
    have "fmlookup (buffered_proofs ?b) h =
        (if h |\<in>| s then None else fmlookup (buffered_proofs buf) h)"
      using each iter stored by simp
    then show "fmlookup (buffered_proofs (evict_children L (work @ [p]) buf)) h =
        (if h \<in> met buf (set (work @ [p])) then None else fmlookup (buffered_proofs buf) h)"
      unfolding evict_children_pop [OF pop.hyps] using IH v(2) by simp
  next
    fix q
    have "kids ?b q = (if q = p then {||} else kids buf q)" by (simp add: kids)
    then show "kids (evict_children L (work @ [p]) buf) q =
        (if q \<in> closure (kids buf) (set (work @ [p])) then {||} else kids buf q)"
      unfolding evict_children_pop [OF pop.hyps] using IH v(1) by (cases "q = p") simp_all
  qed
qed


section \<open>What removing a subtree returns\<close>

text \<open>No block of the list stands before its parent.\<close>

fun parents_first :: "(recovered_block \<times> 'p) list \<Rightarrow> bool" where
  "parents_first [] \<longleftrightarrow> True"
| "parents_first (r # rs) \<longleftrightarrow>
     parent_hash (fst r) \<notin> (hash \<circ> fst) ` set (r # rs) \<and> parents_first rs"

lemma parents_first_append:
  assumes "\<And>r. r \<in> set rs \<Longrightarrow> parent_hash (fst r) \<notin> (hash \<circ> fst) ` set (rs @ rs')"
    and "parents_first rs'"
  shows "parents_first (rs @ rs')"
  using assms
proof (induction rs)
  case (Cons r rs)
  have "parents_first (rs @ rs')" by (rule Cons.IH) (use Cons.prems in auto)
  then show ?case using Cons.prems(1) [of r] by simp
qed simp

lemma removable_hash:
  assumes "buffer_inv L keys P buf" "removable buf h = Some r"
  shows "hash (fst r) = h"
  using assms by (cases r) (auto simp: removable_Some dest: buffer_inv_hash)

lemma distinct_removed:
  assumes "buffer_inv L keys P buf" and "distinct cs"
  shows "distinct (map (hash \<circ> fst) (List.map_filter (removable buf) cs))"
  using \<open>distinct cs\<close>
  by (induction cs)
     (auto simp: List.map_filter_simps set_map_filter_Some split: option.splits
       dest!: removable_hash [OF assms(1)])

definition removed_ok :: "('p, 'l) block_buffer \<Rightarrow> b256 set \<Rightarrow> (recovered_block \<times> 'p) list \<Rightarrow> bool" where
  "removed_ok buf M rs \<longleftrightarrow>
     (\<forall>r. r \<in> set rs \<longleftrightarrow> (\<exists>h \<in> M. removable buf h = Some r)) \<and>
     distinct (map (hash \<circ> fst) rs) \<and> parents_first rs"

definition subtree_removed ::
  "'l buffer_lib \<Rightarrow> ('l \<Rightarrow> b256 list) \<Rightarrow> (u64 \<Rightarrow> bool) \<Rightarrow> ('p, 'l) block_buffer \<Rightarrow> b256 set \<Rightarrow>
     (recovered_block \<times> 'p) list \<times> ('p, 'l) block_buffer \<Rightarrow> bool" where
  "subtree_removed L keys P buf W d \<longleftrightarrow>
     buffer_inv L keys P (snd d) \<and>
     (\<forall>h. fmlookup (blocks (snd d)) h =
        (if h \<in> met buf W \<and> is_removable buf h then None else fmlookup (blocks buf) h)) \<and>
     (\<forall>h. fmlookup (buffered_proofs (snd d)) h =
        (if h \<in> met buf W \<and> is_removable buf h then None
         else fmlookup (buffered_proofs buf) h)) \<and>
     (\<forall>q h. h |\<in>| kids (snd d) q \<longleftrightarrow> h |\<in>| kids buf q \<and> q \<notin> closure (kids buf) W) \<and>
     removed_ok buf (met buf W) (fst d)"

text \<open>One pop of the worklist: the children of \<open>p\<close> that have their proofs are removed.\<close>

lemma remove_each_popped:
  assumes laws: "buffer_lib_laws L keys" and inv: "buffer_inv L keys P buf" and s: "kids buf p = s"
    and rb: "remove_each L (set_iter L s) (unlink p buf) = (rs, b)"
  shows "buffer_inv L keys P b"
    and "fmlookup (blocks b) h = (if h |\<in>| s \<and> is_removable buf h then None else fmlookup (blocks buf) h)"
    and "fmlookup (buffered_proofs b) h =
      (if h |\<in>| s \<and> is_removable buf h then None else fmlookup (buffered_proofs buf) h)"
    and "kids b = (kids buf)(p := {||})"
    and "rs = List.map_filter (removable buf) (set_iter L s)"
    and "is_removable b h \<longleftrightarrow> is_removable buf h \<and> h |\<notin>| s"
    and "removable b h = (if h |\<in>| s then None else removable buf h)"
proof -
  have inv1: "buffer_inv L keys P (unlink p buf)" using inv by (rule inv_intros)
  have same: "removable (unlink p buf) = removable buf" "is_removable (unlink p buf) = is_removable buf"
    by (auto simp: removable_def is_removable_def)
  note each = remove_each_correct [OF laws inv1 buffer_lib_iter(2) [OF laws], of s,
      unfolded rb same buffer_lib_iter(1) [OF laws]]
  show "buffer_inv L keys P b" "rs = List.map_filter (removable buf) (set_iter L s)" using each by simp_all
  have blk: "fmlookup (blocks b) h = (if h |\<in>| s \<and> is_removable buf h then None else fmlookup (blocks buf) h)" for h
    using each by simp_all
  have pfs: "fmlookup (buffered_proofs b) h =
      (if h |\<in>| s \<and> is_removable buf h then None else fmlookup (buffered_proofs buf) h)" for h
    using each by simp
  show "fmlookup (blocks b) h = (if h |\<in>| s \<and> is_removable buf h then None else fmlookup (blocks buf) h)"
    "fmlookup (buffered_proofs b) h =
      (if h |\<in>| s \<and> is_removable buf h then None else fmlookup (buffered_proofs buf) h)"
    by (rule blk, rule pfs)
  show "kids b = (kids buf)(p := {||})"
  proof (rule ext, rule fset_eqI)
    fix q h
    have "q \<noteq> p \<Longrightarrow> h |\<in>| kids buf q \<Longrightarrow> h |\<notin>| s"
      using buffer_inv_child_unique [OF inv] s by blast
    then show "h |\<in>| kids b q \<longleftrightarrow> h |\<in>| ((kids buf)(p := {||})) q"
      using each by auto
  qed
  show "is_removable b h \<longleftrightarrow> is_removable buf h \<and> h |\<notin>| s"
    by (auto simp: is_removable_def blk pfs)
  show "removable b h = (if h |\<in>| s then None else removable buf h)"
    by (auto simp: removable_def blk pfs is_removable_def split: option.splits)
qed

lemma removed_ok_append:
  assumes laws: "buffer_lib_laws L keys" and inv: "buffer_inv L keys P buf" and s: "kids buf p = s"
    and p: "\<not> is_removable buf p" and rs: "rs = List.map_filter (removable buf) (set_iter L s)"
    and b: "\<And>h. removable b h = (if h |\<in>| s then None else removable buf h)" and ok: "removed_ok b M rs'"
  shows "removed_ok buf (fset s \<union> M) (rs @ rs')"
proof -
  have in_rs: "r \<in> set rs \<longleftrightarrow> (\<exists>h. h |\<in>| s \<and> removable buf h = Some r)" for r
    unfolding rs set_map_filter_Some buffer_lib_iter(1) [OF laws] by auto
  have in_rs': "r \<in> set rs' \<longleftrightarrow> (\<exists>h \<in> M. h |\<notin>| s \<and> removable buf h = Some r)" for r
  proof -
    have "r \<in> set rs' \<longleftrightarrow> (\<exists>h \<in> M. removable b h = Some r)" using ok unfolding removed_ok_def by blast
    then show ?thesis by (auto simp: b split: if_splits)
  qed
  note hash_of = removable_hash [OF inv]
  have "distinct (map (hash \<circ> fst) rs)" "distinct (map (hash \<circ> fst) rs')"
    using distinct_removed [OF inv buffer_lib_iter(2) [OF laws]] ok by (simp_all add: rs removed_ok_def)
  moreover have "(hash \<circ> fst) ` set rs \<inter> (hash \<circ> fst) ` set rs' = {}"
    by (auto simp: in_rs in_rs' dest!: hash_of)
  ultimately have dist: "distinct (map (hash \<circ> fst) (rs @ rs'))" by simp
  have parent: "parent_hash (fst r) = p" if "r \<in> set rs" for r
    using that buffer_inv_child [OF inv, of _ p] s
    by (fastforce simp: in_rs removable_def split: option.splits)
  have "is_removable buf (hash (fst r))" if "r \<in> set (rs @ rs')" for r
    using that by (auto simp: in_rs in_rs' hash_of) (metis hash_of option.distinct(1) removable_None)+
  then have "p \<notin> (hash \<circ> fst) ` set (rs @ rs')" using p by (metis comp_apply imageE)
  then have "parents_first (rs @ rs')"
    using ok parent by (intro parents_first_append) (simp_all add: removed_ok_def)
  with dist show ?thesis unfolding removed_ok_def set_append Un_iff in_rs in_rs' by blast
qed

lemma remove_children_correct:
  assumes laws: "buffer_lib_laws L keys" and inv: "buffer_inv L keys P buf"
    and work: "\<forall>h \<in> set work. \<not> is_removable buf h"
  shows "subtree_removed L keys P buf (set work) (remove_children L work buf)"
  using inv work
proof (induction work buf rule: worklist_induct)
  case (empty buf)
  then show ?case by (simp add: met_def removed_ok_def subtree_removed_def)
next
  case (skip work p buf)
  have p: "kids buf p = {||}" using skip.hyps by (rule values_at_NoneD)
  note v = visit_skip [OF p]
  have IH: "subtree_removed L keys P buf (set work) (remove_children L work buf)"
    by (rule skip.IH) (use skip.prems in auto)
  have "h |\<in>| kids buf q \<and> q \<notin> insert p C \<longleftrightarrow> h |\<in>| kids buf q \<and> q \<notin> C" for h q C
    using p by auto
  then show ?case
    using IH by (simp add: remove_children_skip [OF skip.hyps] v subtree_removed_def)
next
  case (pop work p s buf)
  have s: "kids buf p = s" using pop.hyps by (rule values_at_SomeD)
  obtain rs b where rb: "remove_each L (set_iter L s) (unlink p buf) = (rs, b)"
    by (cases "remove_each L (set_iter L s) (unlink p buf)")
  have iter: "set (set_iter L s) = fset s" by (rule buffer_lib_iter [OF laws])
  note each = remove_each_popped [OF laws pop.prems(1) s rb]
  note v = visit_pop [OF each(4), of "set work", unfolded s]
  have fm: "fmdom (parent_to_child b) |\<subseteq>| fmdom (parent_to_child (unlink p buf))"
    using remove_each_keys [of L "set_iter L s" "unlink p buf"] by (simp add: rb)
  obtain rs' b' where rb': "remove_children L (work @ set_iter L s) b = (rs', b')"
    by (cases "remove_children L (work @ set_iter L s) b")
  have set_work: "set (work @ set_iter L s) = set work \<union> fset s" by (simp add: iter)
  let ?M = "met b (set work \<union> fset s)"
  have "\<forall>h \<in> set (work @ set_iter L s). \<not> is_removable b h"
    using pop.prems(2) unfolding set_work by (auto simp: each(6))
  note IH0 = pop.IH [OF fm each(1) this, unfolded rb' set_work subtree_removed_def, simplified]
  have IH: "buffer_inv L keys P b'"
    "\<And>h. fmlookup (blocks b') h =
        (if h \<in> ?M \<and> is_removable b h then None else fmlookup (blocks b) h)"
    "\<And>h. fmlookup (buffered_proofs b') h =
        (if h \<in> ?M \<and> is_removable b h then None else fmlookup (buffered_proofs b) h)"
    "\<And>q h. h |\<in>| kids b' q \<longleftrightarrow>
        h |\<in>| kids b q \<and> q \<notin> closure (kids b) (set work \<union> fset s)"
    "removed_ok b ?M rs'"
    using IH0 by simp_all
  have eq: "remove_children L (work @ [p]) buf = (rs @ rs', b')"
    by (simp add: remove_children_pop [OF pop.hyps] rb rb')
  have ok: "removed_ok buf (met buf (set (work @ [p]))) (rs @ rs')"
    using removed_ok_append [OF laws pop.prems(1) s _ each(5,7) IH(5)] pop.prems(2) v(2) by simp
  show ?case
    unfolding eq subtree_removed_def
  proof (intro conjI allI)
    show "buffer_inv L keys P (snd (rs @ rs', b'))" using IH(1) by simp
    show "removed_ok buf (met buf (set (work @ [p]))) (fst (rs @ rs', b'))" using ok by simp
  next
    fix h
    show "fmlookup (blocks (snd (rs @ rs', b'))) h =
        (if h \<in> met buf (set (work @ [p])) \<and> is_removable buf h then None
         else fmlookup (blocks buf) h)"
      using v(2) by (simp add: IH(2) each(2,6))
  next
    fix h
    show "fmlookup (buffered_proofs (snd (rs @ rs', b'))) h =
        (if h \<in> met buf (set (work @ [p])) \<and> is_removable buf h then None
         else fmlookup (buffered_proofs buf) h)"
      using v(2) by (simp add: IH(3) each(3,6))
  next
    fix q h
    have "h |\<in>| kids b q \<longleftrightarrow> h |\<in>| kids buf q \<and> q \<noteq> p" by (simp add: each(4))
    then show "h |\<in>| kids (snd (rs @ rs', b')) q \<longleftrightarrow>
        h |\<in>| kids buf q \<and> q \<notin> closure (kids buf) (set (work @ [p]))"
      using v(1) by (simp add: IH(4))
  qed
qed

end
