(* ===== verification/Buffer_Props.thy ===== *)
theory Buffer_Props
  imports Buffer_Worklists
begin

text \<open>
  What the operations of the block buffer do as a whole: removing a block with its descendants,
  evicting up to a number, inserting under the LRU, and finding the lowest buffered ancestor.
\<close>

section \<open>Removing a block with its descendants\<close>

lemma closure_without_start:
  assumes "\<And>q. g' q = g q |-| {|h|}"
  shows "closure g' {h} = closure g {h}"
proof (intro equalityI subsetI)
  fix x assume "x \<in> closure g {h}"
  then show "x \<in> closure g' {h}"
  proof (induction rule: closure.induct)
    case (closure_step q c)
    then show ?case
      by (cases "c = h") (auto simp: assms intro: closure.intros)
  qed (auto intro: closure.intros)
qed (rule subsetD [OF closure_mono_kids], auto simp: assms intro: closure.intros)

lemma closure_without_starts:
  assumes "\<And>q. g' q = g q |-| H"
  shows "closure g' (fset H) = closure g (fset H)"
proof (intro equalityI subsetI)
  fix x assume "x \<in> closure g (fset H)"
  then show "x \<in> closure g' (fset H)"
  proof (induction rule: closure.induct)
    case (closure_step q c)
    then show ?case
      by (cases "c |\<in>| H") (auto simp: assms intro: closure.intros)
  qed (auto intro: closure.intros)
qed (rule subsetD [OF closure_mono_kids], auto simp: assms intro: closure.intros)

definition descendants :: "('p, 'l) block_buffer \<Rightarrow> b256 set \<Rightarrow> b256 set" where
  "descendants buf S = closure (kids buf) S"

lemma descendants_met: "descendants buf S = S \<union> met buf S"
  unfolding descendants_def met_def
  by (auto intro: closure.intros elim: closure.cases)

definition buffer_ranked :: "(b256 \<Rightarrow> nat) \<Rightarrow> ('p, 'l) block_buffer \<Rightarrow> bool" where
  "buffer_ranked rk buf \<longleftrightarrow> (\<forall>h b. fmlookup (blocks buf) h = Some b \<longrightarrow> hash_ranked rk b)"

lemma met_rank:
  assumes inv: "links_inv P buf" "buffer_ranked rk buf" and "x \<in> descendants buf {h}"
  shows "x = h \<or> rk h < rk x"
  using assms(3) unfolding descendants_def
proof (induction rule: closure.induct)
  case (closure_step q c)
  obtain b where b: "fmlookup (blocks buf) c = Some b" "parent_hash b = q"
    using links_child [OF inv(1) closure_step.hyps(2)] by blast
  then have "rk q < rk c"
    using inv(2) links_hash [OF inv(1) b(1)] unfolding buffer_ranked_def hash_ranked_def by blast
  with closure_step.IH show ?case by auto
qed auto

lemma remove_block_with_children_alt:
  assumes b: "b = (if is_removable buf h then snd (evict_block L h buf) else buf)"
  shows "remove_block_with_children L h buf =
      ((case removable buf h of Some r \<Rightarrow> [r] | None \<Rightarrow> []) @ fst (remove_children L [h] b),
       snd (remove_children L [h] b))"
  using removable_None [of buf h]
  by (auto simp: b remove_block_with_children_def remove_block_removable
      split: option.splits prod.splits)

lemma remove_block_with_children_full:
  assumes laws: "buffer_lib_laws L keys" and inv: "buffer_inv L keys (\<lambda>_. True) buf"
    and rank: "buffer_ranked rk buf"
    and r: "remove_block_with_children L h buf = (removed, buf')"
  shows "(\<forall>r. r \<in> set removed \<longleftrightarrow> (\<exists>x \<in> descendants buf {h}. removable buf x = Some r)) \<and>
     distinct (map (hash \<circ> fst) removed) \<and> parents_first removed \<and>
     (\<forall>x. fmlookup (blocks buf') x =
        (if x \<in> descendants buf {h} \<and> is_removable buf x then None
         else fmlookup (blocks buf) x)) \<and>
     (\<forall>x. fmlookup (buffered_proofs buf') x =
        (if x \<in> descendants buf {h} \<and> is_removable buf x then None
         else fmlookup (buffered_proofs buf) x)) \<and>
     (\<forall>x q. x |\<in>| kids buf' q \<longleftrightarrow> x |\<in>| kids buf q \<and> q \<notin> descendants buf {h} \<and>
        (x = h \<longrightarrow> \<not> is_removable buf h)) \<and>
     buffer_inv L keys (\<lambda>_. True) buf'"
proof -
  let ?b = "if is_removable buf h then snd (evict_block L h buf) else buf"
  note links = buffer_links [OF inv]
  have binv: "buffer_inv L keys (\<lambda>_. True) ?b" using evict_block_inv [OF laws inv] inv by simp
  have nrm: "\<not> is_removable ?b h" by (simp add: is_removable_def)
  have rm: "is_removable ?b x \<longleftrightarrow> is_removable buf x \<and> x \<noteq> h" for x
    by (auto simp: is_removable_def evict_block_proofs)
  have rmb: "removable ?b x = removable buf x" if "x \<noteq> h" for x
    using that by (simp add: removable_evict_other)
  have rmh: "removable buf h = None \<Longrightarrow> \<not> is_removable buf h" "\<not> is_removable buf h \<Longrightarrow> removable buf h = None"
    using removable_None [of buf h] by auto
  have kids: "kids ?b q = kids buf q |-| {|h|}" if "is_removable buf h" for q
    using that by (simp add: evict_block_children [OF links])
  have desc: "descendants ?b {h} = descendants buf {h}"
    unfolding descendants_def
    using closure_without_start [of "kids ?b" "kids buf" h] kids
    by (cases "is_removable buf h") auto
  have met: "x \<in> met ?b {h} \<longleftrightarrow> x \<in> descendants buf {h}" if "x \<noteq> h" for x
    using that desc descendants_met [of ?b "{h}"] by auto
  have sub: "subtree_removed L keys (\<lambda>_. True) ?b {h} (remove_children L [h] ?b)"
    using remove_children_correct [OF laws binv, of "[h]"] nrm by simp
  obtain rs where rs: "remove_children L [h] ?b = (rs, buf')"
    and removed: "removed = (case removable buf h of Some r \<Rightarrow> [r] | None \<Rightarrow> []) @ rs"
    using r remove_block_with_children_alt [of ?b buf h L]
    by (cases "remove_children L [h] ?b") auto
  have ok: "removed_ok ?b (met ?b {h}) rs" and binv': "buffer_inv L keys (\<lambda>_. True) buf'"
    and bl: "\<And>x. fmlookup (blocks buf') x =
        (if x \<in> met ?b {h} \<and> is_removable ?b x then None else fmlookup (blocks ?b) x)"
    and pr: "\<And>x. fmlookup (buffered_proofs buf') x =
        (if x \<in> met ?b {h} \<and> is_removable ?b x then None else fmlookup (buffered_proofs ?b) x)"
    and ch: "\<And>q x. x |\<in>| kids buf' q \<longleftrightarrow> x |\<in>| kids ?b q \<and> q \<notin> descendants ?b {h}"
    using sub unfolding rs subtree_removed_def descendants_def by simp_all
  have hb: "removable ?b h = None" using nrm removable_None by blast
  have in_rs: "r \<in> set rs \<longleftrightarrow> (\<exists>x \<in> descendants buf {h}. x \<noteq> h \<and> removable buf x = Some r)" for r
  proof -
    have "r \<in> set rs \<longleftrightarrow> (\<exists>x \<in> met ?b {h}. removable ?b x = Some r)"
      using ok unfolding removed_ok_def by blast
    then show ?thesis using met rmb hb by (metis option.distinct(1))
  qed
  have hd: "h \<in> descendants buf {h}" by (simp add: descendants_def closure_start)
  have hash_rs: "hash (fst r) \<in> descendants buf {h} \<and> hash (fst r) \<noteq> h" if "r \<in> set rs" for r
    using that by (auto simp: in_rs removable_hash [OF inv])
  have 1: "r \<in> set removed \<longleftrightarrow> (\<exists>x \<in> descendants buf {h}. removable buf x = Some r)" for r
  proof (cases "removable buf h")
    case None
    then have "r \<in> set removed \<longleftrightarrow> r \<in> set rs" by (simp add: removed)
    then show ?thesis unfolding in_rs using None by (metis option.distinct(1))
  next
    case (Some r')
    then have "r \<in> set removed \<longleftrightarrow> removable buf h = Some r \<or> r \<in> set rs" by (auto simp: removed)
    then show ?thesis unfolding in_rs using hd by auto
  qed
  have 2: "distinct (map (hash \<circ> fst) removed)"
  proof -
    have "distinct (map (hash \<circ> fst) rs)" using ok by (simp add: removed_ok_def)
    moreover have "h \<notin> (hash \<circ> fst) ` set rs" using hash_rs by auto
    ultimately show ?thesis
      by (cases "removable buf h") (simp_all add: removed removable_hash [OF inv])
  qed
  have "parent_hash (fst r) \<notin> (hash \<circ> fst) ` set (r # rs)" if r: "removable buf h = Some r" for r
  proof
    assume "parent_hash (fst r) \<in> (hash \<circ> fst) ` set (r # rs)"
    then have "parent_hash (fst r) \<in> descendants buf {h}"
      using hash_rs hd removable_hash [OF inv r] by auto
    then have "rk h \<le> rk (parent_hash (fst r))" using met_rank [OF links rank] by fastforce
    moreover have "fmlookup (blocks buf) h = Some (fst r)"
      using r by (cases r) (simp add: removable_Some)
    then have "rk (parent_hash (fst r)) < rk h"
      using rank removable_hash [OF inv r] unfolding buffer_ranked_def hash_ranked_def by blast
    ultimately show False by simp
  qed
  then have 3: "parents_first removed"
    using ok unfolding removed removed_ok_def by (cases "removable buf h") simp_all
  have 4: "fmlookup (blocks buf') x =
        (if x \<in> descendants buf {h} \<and> is_removable buf x then None
         else fmlookup (blocks buf) x)" for x
    using hd by (cases "x = h") (auto simp: bl rm met)
  have 5: "fmlookup (buffered_proofs buf') x =
        (if x \<in> descendants buf {h} \<and> is_removable buf x then None
         else fmlookup (buffered_proofs buf) x)" for x
  proof (cases "x = h")
    case True
    then show ?thesis using hd by (auto simp: pr evict_block_proofs is_removable_def)
  next
    case False
    then show ?thesis by (auto simp: pr rm met evict_block_proofs)
  qed
  have 6: "x |\<in>| kids buf' q \<longleftrightarrow> x |\<in>| kids buf q \<and> q \<notin> descendants buf {h} \<and>
      (x = h \<longrightarrow> \<not> is_removable buf h)" for x q
    using kids [of q] unfolding ch desc by (cases "is_removable buf h") auto
  show ?thesis using 1 2 3 4 5 6 binv' by blast
qed

lemma remove_block_with_children_spec:
  assumes "buffer_lib_laws L keys" and "buffer_inv L keys (\<lambda>_. True) buf" and "buffer_ranked rk buf"
    and "remove_block_with_children L h buf = (removed, buf')"
  shows "(\<forall>r. r \<in> set removed \<longleftrightarrow> (\<exists>x \<in> descendants buf {h}. removable buf x = Some r)) \<and>
     distinct (map (hash \<circ> fst) removed) \<and> parents_first removed \<and>
     (\<forall>x. fmlookup (blocks buf') x =
        (if x \<in> descendants buf {h} \<and> is_removable buf x then None
         else fmlookup (blocks buf) x)) \<and>
     buffer_inv L keys (\<lambda>_. True) buf'"
  using remove_block_with_children_full [OF assms] by blast


section \<open>Evicting up to a number\<close>

lemma buffer_inv_cong:
  assumes "\<And>h b. fmlookup (blocks buf) h = Some b \<Longrightarrow> P (number b) \<longleftrightarrow> Q (number b)"
  shows "buffer_inv L keys P buf \<Longrightarrow> buffer_inv L keys Q buf"
  using assms by (auto simp: buffer_inv_def links_inv_def)

lemma drop_number_inv:
  assumes "buffer_inv L keys P buf"
  shows "buffer_inv L keys (\<lambda>j. P j \<and> j \<noteq> k)
    (buf\<lparr>earliest_blocks := fmdrop k (earliest_blocks buf)\<rparr>)"
  using assms by (auto simp: buffer_inv_def links_inv_def map_specs intro: inv_intros)

lemma first_number_le:
  assumes "buffer_inv L keys P buf" and "first_key (earliest_blocks buf) = Some k"
    and "fmlookup (blocks buf) h = Some b" and "P (number b)"
  shows "k \<le> number b"
proof -
  have "h |\<in>| values_at (earliest_blocks buf) (number b)"
    using buffer_inv_earliest [OF assms(1)] assms(3,4) by blast
  then have "fmlookup (earliest_blocks buf) (number b) \<noteq> None"
    using values_at_NoneD by fastforce
  then show ?thesis by (rule first_key_SomeD(2) [OF assms(2)])
qed

lemma no_first_number:
  assumes "buffer_inv L keys P buf" and "first_key (earliest_blocks buf) = None"
    and "fmlookup (blocks buf) h = Some b"
  shows "\<not> P (number b)"
  using buffer_inv_earliest [OF assms(1), of h "number b"] assms(2,3)
  by (auto simp: first_key_None values_at_def)

lemma take_old_blocks_stop:
  assumes "\<And>k. first_key (earliest_blocks buf) = Some k \<Longrightarrow> n < k"
  shows "take_old_blocks L n buf = ([], buf)"
  using assms by (subst take_old_blocks.simps) (auto split: option.splits)

lemma take_old_blocks_take:
  assumes "first_key (earliest_blocks buf) = Some k" "\<not> n < k"
    and "take_old_blocks L n (buf\<lparr>earliest_blocks := fmdrop k (earliest_blocks buf)\<rparr>) = (hs, buf')"
  shows "take_old_blocks L n buf = (set_iter L (values_at (earliest_blocks buf) k) @ hs, buf')"
  using assms by (subst take_old_blocks.simps) simp

text \<open>The loop takes the stored blocks up to the number and nothing else.\<close>

lemma take_old_blocks_correct:
  assumes laws: "buffer_lib_laws L keys" and inv: "buffer_inv L keys P buf"
    and t: "take_old_blocks L n buf = (hs, buf')"
  shows "blocks buf' = blocks buf \<and> buffered_proofs buf' = buffered_proofs buf \<and>
     parent_to_child buf' = parent_to_child buf \<and>
     buffer_inv L keys (\<lambda>k. P k \<and> n < k) buf' \<and>
     (\<forall>h. h \<in> set hs \<longleftrightarrow>
        (\<exists>b. fmlookup (blocks buf) h = Some b \<and> P (number b) \<and> number b \<le> n))"
  using inv t
proof (induction "fcard (fmdom (earliest_blocks buf))" arbitrary: P buf hs rule: less_induct)
  case less
  note inv = less.prems(1)
  show ?case
  proof (cases "\<exists>k. first_key (earliest_blocks buf) = Some k \<and> \<not> n < k")
    case False
    then have "take_old_blocks L n buf = ([], buf)" by (intro take_old_blocks_stop) blast
    with less.prems have eq: "hs = []" "buf' = buf" by simp_all
    have big: "n < number b" if "fmlookup (blocks buf) h = Some b" "P (number b)" for h b
      using False that no_first_number [OF inv _ that(1)] first_number_le [OF inv _ that]
      by (cases "first_key (earliest_blocks buf)") (auto dest: less_le_trans)
    have "buffer_inv L keys (\<lambda>k. P k \<and> n < k) buf"
      by (rule buffer_inv_cong [OF _ inv]) (use big in blast)
    moreover have "\<not> (P (number b) \<and> number b \<le> n)" if "fmlookup (blocks buf) h = Some b" for h b
      using big [OF that] by (meson not_less)
    ultimately show ?thesis unfolding eq by auto
  next
    case True
    then obtain k where k: "first_key (earliest_blocks buf) = Some k" "\<not> n < k" by blast
    let ?b = "buf\<lparr>earliest_blocks := fmdrop k (earliest_blocks buf)\<rparr>"
    obtain hs' b' where rec: "take_old_blocks L n ?b = (hs', b')"
      by (cases "take_old_blocks L n ?b")
    have eq: "hs = set_iter L (values_at (earliest_blocks buf) k) @ hs'" "buf' = b'"
      using take_old_blocks_take [OF k rec] less.prems(2) by simp_all
    have smaller: "fcard (fmdom (earliest_blocks ?b)) < fcard (fmdom (earliest_blocks buf))"
      using fcard_fmdom_drop [OF first_key_SomeD(1) [OF k(1)]] by simp
    note IH = less.hyps [OF smaller drop_number_inv [OF inv] rec [folded eq(2)]]
    have inv': "buffer_inv L keys (\<lambda>j. P j \<and> n < j) buf'"
      by (rule buffer_inv_cong [where P = "\<lambda>j. (P j \<and> j \<noteq> k) \<and> n < j"])
         (use IH k(2) in auto)
    have "h \<in> set hs \<longleftrightarrow>
        (\<exists>b. fmlookup (blocks buf) h = Some b \<and> P (number b) \<and> number b \<le> n)" for h
      using IH k(2) by (auto simp: eq buffer_lib_iter [OF laws] buffer_inv_earliest [OF inv] not_less)
    with IH inv' show ?thesis by simp
  qed
qed

definition old_blocks :: "u64 \<Rightarrow> ('p, 'l) block_buffer \<Rightarrow> b256 set" where
  "old_blocks n buf = {h. \<exists>b. fmlookup (blocks buf) h = Some b \<and> number b \<le> n}"

lemma evict_old_blocks_full:
  assumes laws: "buffer_lib_laws L keys" and inv: "buffer_inv L keys (\<lambda>_. True) buf"
  shows "(\<forall>h. fmlookup (blocks (evict_old_blocks L n buf)) h =
        (if h \<in> descendants buf (old_blocks n buf) then None
         else fmlookup (blocks buf) h)) \<and>
     (\<forall>h. fmlookup (buffered_proofs (evict_old_blocks L n buf)) h =
        (if h \<in> descendants buf (old_blocks n buf) then None
         else fmlookup (buffered_proofs buf) h)) \<and>
     (\<forall>h q. h |\<in>| kids (evict_old_blocks L n buf) q \<longleftrightarrow>
        h |\<in>| kids buf q \<and> h \<notin> old_blocks n buf \<and> q \<notin> descendants buf (old_blocks n buf)) \<and>
     buffer_inv L keys (\<lambda>_. True) (evict_old_blocks L n buf)"
proof -
  let ?old = "old_blocks n buf"
  obtain hs b1 where t: "take_old_blocks L n buf = (hs, b1)"
    by (cases "take_old_blocks L n buf")
  note take = take_old_blocks_correct [OF laws inv t]
  then have b1: "blocks b1 = blocks buf" "buffered_proofs b1 = buffered_proofs buf"
    "parent_to_child b1 = parent_to_child buf" by simp_all
  have old: "set hs = ?old" using take by (auto simp: old_blocks_def)
  have inv1: "buffer_inv L keys (\<lambda>k. True \<and> n < k) b1" using take by blast
  let ?b2 = "evict_each L hs b1"
  note each = evict_each_correct [OF laws inv1, of hs]
  then have inv2: "buffer_inv L keys (\<lambda>k. True \<and> n < k) ?b2" by blast
  let ?b3 = "evict_children L hs ?b2"
  note worklist = evict_children_correct [OF laws inv2, of hs]
  have eq: "evict_old_blocks L n buf = ?b3"
    by (simp add: evict_old_blocks_def t)
  have kids: "kids ?b2 q = kids buf q |-| fset_of_list hs" for q
    using each b1 by simp
  have desc: "descendants ?b2 ?old = descendants buf ?old"
    unfolding descendants_def
    using closure_without_starts [of "kids ?b2" "kids buf" "fset_of_list hs"] kids
    by (simp add: fset_of_list.rep_eq old)
  have met: "h \<in> ?old \<or> h \<in> met ?b2 ?old \<longleftrightarrow> h \<in> descendants buf ?old" for h
    using descendants_met [of ?b2 ?old] unfolding desc by blast
  have blk: "fmlookup (blocks ?b3) h =
      (if h \<in> descendants buf ?old then None else fmlookup (blocks buf) h)" for h
    unfolding met [symmetric] using worklist each b1 by (simp add: old)
  have stored: "fmlookup (blocks buf) h \<noteq> None" if "h \<in> ?old" for h
    using that by (auto simp: old_blocks_def)
  have prfs: "fmlookup (buffered_proofs ?b3) h =
      (if h \<in> descendants buf ?old then None else fmlookup (buffered_proofs buf) h)" for h
    unfolding met [symmetric] using worklist each b1 stored by (simp add: old)
  have "n < number b" if "fmlookup (blocks ?b3) h = Some b" for h b
  proof -
    have "h \<notin> ?old" "fmlookup (blocks buf) h = Some b"
      using that blk [of h] met [of h] by (auto split: if_splits)
    then show ?thesis by (auto simp: old_blocks_def not_le)
  qed
  then have "buffer_inv L keys (\<lambda>_. True) ?b3"
    by (intro buffer_inv_cong [OF _ conjunct1 [OF worklist]]) blast
  moreover have "h |\<in>| kids ?b3 q \<longleftrightarrow> h |\<in>| kids buf q \<and> h \<notin> ?old \<and> q \<notin> descendants buf ?old" for h q
    using worklist kids [of q] desc by (auto simp: descendants_def old fset_of_list.rep_eq)
  ultimately show ?thesis unfolding eq using blk prfs by blast
qed

lemma evict_old_blocks_spec:
  assumes "buffer_lib_laws L keys" and "buffer_inv L keys (\<lambda>_. True) buf"
  shows "(\<forall>h. fmlookup (blocks (evict_old_blocks L n buf)) h =
        (if h \<in> descendants buf (old_blocks n buf) then None
         else fmlookup (blocks buf) h)) \<and>
     (\<forall>h. fmlookup (buffered_proofs (evict_old_blocks L n buf)) h =
        (if h \<in> descendants buf (old_blocks n buf) then None
         else fmlookup (buffered_proofs buf) h)) \<and>
     buffer_inv L keys (\<lambda>_. True) (evict_old_blocks L n buf)"
  using evict_old_blocks_full [OF assms] by blast

section \<open>Inserting a block\<close>

text \<open>The key the LRU evicts when a block of hash \<open>h\<close> is inserted.\<close>

definition victim :: "'l buffer_lib \<Rightarrow> ('l \<Rightarrow> b256 list) \<Rightarrow> b256 \<Rightarrow> ('p, 'l) block_buffer \<Rightarrow> b256 option" where
  "victim L keys h buf =
     (if h \<in> set (keys (lru buf)) \<or> length (keys (lru buf)) < unat (lru_max_length L (lru buf))
      then None else Some (hd (keys (lru buf))))"

lemma insert_hash_and_get_evicted_correct:
  assumes laws: "buffer_lib_laws L keys"
    and len: "length (keys (lru buf)) \<le> unat (lru_max_length L (lru buf))"
    and pos: "0 < lru_max_length L (lru buf)"
  shows "\<exists>l. insert_hash_and_get_evicted L h buf = (victim L keys h buf, buf\<lparr>lru := l\<rparr>) \<and>
     keys l = filter (\<lambda>x. x \<noteq> h \<and> victim L keys h buf \<noteq> Some x) (keys (lru buf)) @ [h] \<and>
     lru_max_length L l = lru_max_length L (lru buf)"
proof (cases "victim L keys h buf")
  case None
  then have c: "h \<in> set (keys (lru buf)) \<or>
      length (keys (lru buf)) < unat (lru_max_length L (lru buf))"
    by (auto simp: victim_def split: if_splits)
  then have "insert_hash_and_get_evicted L h buf =
      (None, buf\<lparr>lru := lru_get_or_insert L h (lru buf)\<rparr>)"
    using laws by (auto simp: insert_hash_and_get_evicted_def buffer_lib_laws_def)
  then show ?thesis
    using laws c None by (auto simp: buffer_lib_laws_def)
next
  case (Some x)
  then have h: "h \<notin> set (keys (lru buf))" and x: "x = hd (keys (lru buf))"
    and full: "length (keys (lru buf)) = unat (lru_max_length L (lru buf))"
    using len by (auto simp: victim_def split: if_splits)
  then obtain xs where xs: "keys (lru buf) = x # xs"
    using pos by (cases "keys (lru buf)") (auto simp: word_less_nat_alt)
  then obtain l where l: "lru_pop_oldest L (lru buf) = Some (x, l)" "keys l = xs"
    "lru_max_length L l = lru_max_length L (lru buf)"
    using laws unfolding buffer_lib_laws_def by metis
  have dist: "x \<notin> set xs" using laws xs unfolding buffer_lib_laws_def by (metis distinct.simps(2))
  have "length (keys l) < unat (lru_max_length L l)" using full xs l by simp
  then have "keys (lru_get_or_insert L h l) = filter (\<lambda>y. y \<noteq> h) xs @ [h]"
    "lru_max_length L (lru_get_or_insert L h l) = lru_max_length L (lru buf)"
    using laws l unfolding buffer_lib_laws_def by metis+
  moreover have "filter (\<lambda>y. y \<noteq> h) xs = filter (\<lambda>y. y \<noteq> h \<and> Some x \<noteq> Some y) (x # xs)"
    using dist by (auto intro!: filter_cong)
  moreover have "insert_hash_and_get_evicted L h buf =
      (Some x, buf\<lparr>lru := lru_get_or_insert L h l\<rparr>)"
    using laws h full l by (simp add: insert_hash_and_get_evicted_def buffer_lib_laws_def)
  ultimately show ?thesis unfolding Some xs by (intro exI [of _ "lru_get_or_insert L h l"]) simp
qed

text \<open>The block is added to the three maps before the LRU is asked.\<close>

definition add_block :: "recovered_block \<Rightarrow> ('p, 'l) block_buffer \<Rightarrow> ('p, 'l) block_buffer" where
  "add_block b buf =
     buf\<lparr>parent_to_child := entry_insert (parent_hash b) (hash b) (parent_to_child buf),
         earliest_blocks := entry_insert (number b) (hash b) (earliest_blocks buf),
         blocks := fmupd (hash b) b (blocks buf)\<rparr>"

text \<open>A stored block of the same hash has the same number and parent.\<close>

definition agrees_with :: "recovered_block \<Rightarrow> ('p, 'l) block_buffer \<Rightarrow> bool" where
  "agrees_with b buf \<longleftrightarrow>
     (\<forall>b'. fmlookup (blocks buf) (hash b) = Some b' \<longrightarrow>
        number b' = number b \<and> parent_hash b' = parent_hash b)"

lemma add_block_links:
  assumes inv: "links_inv (\<lambda>_. True) buf" and ag: "agrees_with b buf"
  shows "links_inv (\<lambda>_. True) (add_block b buf)"
  unfolding links_inv_def
proof (intro conjI allI impI)
  fix h b' assume "fmlookup (blocks (add_block b buf)) h = Some b'"
  then show "hash b' = h"
    using links_hash [OF inv] by (auto simp: add_block_def split: if_splits)
next
  fix p h assume "h |\<in>| values_at (parent_to_child (add_block b buf)) p"
  then have "h = hash b \<and> p = parent_hash b \<or> h |\<in>| kids buf p"
    by (auto simp: add_block_def map_specs split: if_splits)
  then show "\<exists>b'. fmlookup (blocks (add_block b buf)) h = Some b' \<and> parent_hash b' = p"
  proof
    assume "h |\<in>| kids buf p"
    then obtain b' where b': "fmlookup (blocks buf) h = Some b'" "parent_hash b' = p"
      using links_child [OF inv] by blast
    then have "h = hash b \<Longrightarrow> parent_hash b = p" using ag unfolding agrees_with_def by metis
    then show ?thesis using b' by (cases "h = hash b") (simp_all add: add_block_def)
  qed (simp add: add_block_def)
next
  fix n h
  have "h |\<in>| values_at (earliest_blocks (add_block b buf)) n \<longleftrightarrow>
      h = hash b \<and> n = number b \<or> h |\<in>| values_at (earliest_blocks buf) n"
    by (auto simp: add_block_def map_specs)
  moreover have "\<dots> \<longleftrightarrow> h = hash b \<and> n = number b \<or>
      (\<exists>b'. fmlookup (blocks buf) h = Some b' \<and> number b' = n)"
    unfolding links_earliest [OF inv] by simp
  moreover have "\<dots> \<longleftrightarrow> (\<exists>b'. (if h = hash b then Some b else fmlookup (blocks buf) h) = Some b' \<and>
      number b' = n)"
    using ag unfolding agrees_with_def by (cases "h = hash b") (simp, metis, simp)
  ultimately show "h |\<in>| values_at (earliest_blocks (add_block b buf)) n \<longleftrightarrow>
      (\<exists>b'. fmlookup (blocks (add_block b buf)) h = Some b' \<and> number b' = n \<and> True)"
    by (simp add: add_block_def)
qed (use inv in \<open>simp_all add: add_block_def links_inv_def inv_intros\<close>)

lemma remove_from_parent_idem:
  assumes "links_inv P buf" and "fmlookup (blocks buf) h = None"
  shows "remove_from_parent p h buf = buf"
proof -
  have "entry_remove p h (parent_to_child buf) = parent_to_child buf"
  proof (cases "fmlookup (parent_to_child buf) p")
    case (Some s)
    then have "h |\<notin>| s"
      using links_child [OF assms(1), of h p] assms(2) by (auto simp: values_at_def)
    then have "s |-| {|h|} = s" by auto
    moreover have "s \<noteq> {||}" using assms(1) Some by (auto simp: links_inv_def no_empty_entry_def)
    moreover have "fmupd p s (parent_to_child buf) = parent_to_child buf"
      by (rule fmap_ext) (use Some in auto)
    ultimately show ?thesis using Some by (simp add: entry_remove_def)
  qed (simp add: entry_remove_def)
  then show ?thesis by (simp add: remove_from_parent_def)
qed

lemma buffer_insert_block_eq:
  assumes laws: "buffer_lib_laws L keys" and inv: "buffer_inv L keys (\<lambda>_. True) buf"
    and pos: "0 < lru_max_length L (lru buf)" and ag: "agrees_with b buf"
  defines "v \<equiv> victim L keys (hash b) buf"
  shows "\<exists>l c. insert_block L b buf = (case v of None \<Rightarrow> c | Some x \<Rightarrow> snd (evict_block L x c)) \<and>
    c = (add_block b buf)\<lparr>lru := l\<rparr> \<and> links_inv (\<lambda>_. True) c \<and>
    keys l = filter (\<lambda>x. x \<noteq> hash b \<and> v \<noteq> Some x) (keys (lru buf)) @ [hash b] \<and>
    lru_max_length L l = lru_max_length L (lru buf)"
proof -
  have len: "length (keys (lru buf)) \<le> unat (lru_max_length L (lru buf))"
    using inv by (simp add: buffer_inv_def)
  let ?a = "add_block b buf"
  have va: "victim L keys (hash b) ?a = v" and la: "lru ?a = lru buf"
    by (simp_all add: victim_def add_block_def v_def)
  obtain l where l: "insert_hash_and_get_evicted L (hash b) ?a = (v, ?a\<lparr>lru := l\<rparr>)"
    "keys l = filter (\<lambda>x. x \<noteq> hash b \<and> v \<noteq> Some x) (keys (lru buf)) @ [hash b]"
    "lru_max_length L l = lru_max_length L (lru buf)"
    using insert_hash_and_get_evicted_correct [OF laws, of ?a "hash b"] len pos
    unfolding va la by auto
  let ?c = "?a\<lparr>lru := l\<rparr>"
  have clinks: "links_inv (\<lambda>_. True) ?c"
    using add_block_links [OF buffer_links [OF inv] ag] by (simp add: links_inv_def)
  have "insert_block L b buf = (case v of None \<Rightarrow> ?c | Some x \<Rightarrow> snd (evict_block L x ?c))"
  proof (cases v)
    case None
    then show ?thesis using l(1) by (simp add: insert_block_def add_block_def Let_def)
  next
    case (Some x)
    note same = remove_from_parent_idem [OF evict_block_links [OF clinks, of L x], of x]
    obtain ob b' where ev: "evict_block L x ?c = (ob, b')" by (cases "evict_block L x ?c")
    have "blocks b' = fmdrop x (blocks ?c)" using evict_block_blocks [of L x ?c] ev by simp
    then show ?thesis
      using same l(1) Some ev
      by (auto simp: insert_block_def add_block_def Let_def split: option.splits)
  qed
  then show ?thesis using clinks l(2,3) by blast
qed

text \<open>The children links: that of the block is added, that of the evicted one is gone.\<close>

lemma buffer_insert_block_kids:
  assumes "buffer_lib_laws L keys" and "buffer_inv L keys (\<lambda>_. True) buf"
    and "0 < lru_max_length L (lru buf)" and "agrees_with b buf"
  shows "h |\<in>| kids (insert_block L b buf) q \<longleftrightarrow> victim L keys (hash b) buf \<noteq> Some h \<and>
    (h = hash b \<and> q = parent_hash b \<or> h |\<in>| kids buf q)"
proof -
  obtain l c where c: "insert_block L b buf =
      (case victim L keys (hash b) buf of None \<Rightarrow> c | Some x \<Rightarrow> snd (evict_block L x c))"
    "c = (add_block b buf)\<lparr>lru := l\<rparr>" "links_inv (\<lambda>_. True) c"
    using buffer_insert_block_eq [OF assms] by blast
  have "h |\<in>| kids c q \<longleftrightarrow> h = hash b \<and> q = parent_hash b \<or> h |\<in>| kids buf q"
    by (auto simp: c(2) add_block_def map_specs)
  then show ?thesis
    by (cases "victim L keys (hash b) buf") (auto simp: c(1) evict_block_children [OF c(3)])
qed

lemma buffer_insert_block_spec:
  assumes laws: "buffer_lib_laws L keys" and inv: "buffer_inv L keys (\<lambda>_. True) buf"
    and pos: "0 < lru_max_length L (lru buf)" and ag: "agrees_with b buf"
  shows "(\<forall>h. fmlookup (blocks (insert_block L b buf)) h =
       (if victim L keys (hash b) buf = Some h then None
        else if h = hash b then Some b else fmlookup (blocks buf) h)) \<and>
     keys (lru (insert_block L b buf)) =
       filter (\<lambda>x. x \<noteq> hash b \<and> victim L keys (hash b) buf \<noteq> Some x) (keys (lru buf)) @ [hash b] \<and>
     fcard (fmdom (blocks (insert_block L b buf))) \<le> unat (lru_max_length L (lru buf)) \<and>
     lru_max_length L (lru (insert_block L b buf)) = lru_max_length L (lru buf) \<and>
     buffer_inv L keys (\<lambda>_. True) (insert_block L b buf)"
proof -
  have len: "length (keys (lru buf)) \<le> unat (lru_max_length L (lru buf))"
    and dom: "set (keys (lru buf)) = fset (fmdom (blocks buf))"
    using inv by (simp_all add: buffer_inv_def)
  let ?v = "victim L keys (hash b) buf"
  obtain l c where eq: "insert_block L b buf = (case ?v of None \<Rightarrow> c | Some x \<Rightarrow> snd (evict_block L x c))"
    and c: "c = (add_block b buf)\<lparr>lru := l\<rparr>" "links_inv (\<lambda>_. True) c"
    and l: "keys l = filter (\<lambda>x. x \<noteq> hash b \<and> ?v \<noteq> Some x) (keys (lru buf)) @ [hash b]"
      "lru_max_length L l = lru_max_length L (lru buf)"
    using buffer_insert_block_eq [OF assms] by blast
  have blk: "fmlookup (blocks (insert_block L b buf)) h =
      (if ?v = Some h then None else if h = hash b then Some b else fmlookup (blocks buf) h)" for h
    by (auto simp: eq c(1) add_block_def split: option.splits)
  have "x \<notin> set (keys l)" if "?v = Some x" for x
  proof -
    have "hash b \<noteq> x \<or> x \<in> set (keys l)" by (simp add: l)
    moreover have "x \<in> set (keys (lru buf))" "hash b \<notin> set (keys (lru buf))"
      using that len pos
      by (auto simp: victim_def word_less_nat_alt split: if_splits intro!: hd_in_set)
    ultimately show ?thesis using that by (auto simp: l)
  qed
  then have lru: "keys (lru (insert_block L b buf)) = keys l"
    "lru_max_length L (lru (insert_block L b buf)) = lru_max_length L (lru buf)"
    using l(2) by (auto simp: eq c(1) evict_block_lru buffer_lib_lru_remove [OF laws] filter_id_conv
        split: option.splits)
  have dom': "set (keys l) = fset (fmdom (blocks (insert_block L b buf)))"
  proof -
    have "x \<in> set (keys l) \<longleftrightarrow> fmlookup (blocks (insert_block L b buf)) x \<noteq> None" for x
      using \<open>\<And>x. ?v = Some x \<Longrightarrow> x \<notin> set (keys l)\<close> dom
      by (cases "?v = Some x") (auto simp: blk l fmlookup_dom'_iff dest: fmdomI fmdom_notI fmdom_notD)
    then show ?thesis by (auto simp: fmlookup_dom_iff)
  qed
  have "distinct (keys (lru (insert_block L b buf)))" using laws by (simp add: buffer_lib_laws_def)
  then have card: "length (keys l) = fcard (fmdom (blocks (insert_block L b buf)))"
    using dom' by (metis distinct_card fcard.rep_eq lru(1))
  have len': "length (keys l) \<le> unat (lru_max_length L (lru buf))"
  proof (cases "hash b \<in> set (keys (lru buf)) \<or> ?v \<noteq> None")
    case True
    then obtain y where "y \<in> set (keys (lru buf))" "\<not> (y \<noteq> hash b \<and> ?v \<noteq> Some y)"
    proof (cases "hash b \<in> set (keys (lru buf))")
      case False
      with True have v: "?v = Some (hd (keys (lru buf)))" and "keys (lru buf) \<noteq> []"
        using pos by (auto simp: victim_def word_less_nat_alt split: if_splits)
      then show ?thesis using that [of "hd (keys (lru buf))"] by simp
    qed blast
    then have "length (filter (\<lambda>x. x \<noteq> hash b \<and> ?v \<noteq> Some x) (keys (lru buf))) <
        length (keys (lru buf))" by (rule length_filter_less)
    then show ?thesis using len by (simp add: l(1))
  next
    case False
    then have "length (keys (lru buf)) < unat (lru_max_length L (lru buf))"
      by (auto simp: victim_def split: if_splits)
    moreover have "length (keys l) \<le> Suc (length (keys (lru buf)))"
      using length_filter_le by (simp add: l(1))
    ultimately show ?thesis by simp
  qed
  have "links_inv (\<lambda>_. True) (insert_block L b buf)"
    using c(2) by (auto simp: eq intro: inv_intros split: option.splits)
  then have "buffer_inv L keys (\<lambda>_. True) (insert_block L b buf)"
    using dom' len' by (simp add: buffer_inv_def lru)
  then show ?thesis using blk lru l(1) card len' by simp
qed

section \<open>The lowest ancestor\<close>

interpretation buf: block_store "\<lambda>buf. fmlookup (blocks buf)" hash parent_hash rk
    "\<lambda>buf. links_inv P buf \<and> buffer_ranked rk buf"
  for rk P
  by unfold_locales (auto simp: links_hash buffer_ranked_def hash_ranked_def)

lemma lowest_ancestor_loop_correct:
  assumes inv: "links_inv P buf" "buffer_ranked rk buf"
    and "fmlookup (blocks buf) h = Some b"
  shows "\<exists>a. lowest_ancestor_loop buf b = Some a \<and>
     fmlookup (blocks buf) (hash a) = Some a \<and> fmlookup (blocks buf) (parent_hash a) = None \<and>
     is_ancestor (fmlookup (blocks buf)) parent_hash h (hash a)"
proof -
  from inv have "links_inv P buf \<and> buffer_ranked rk buf" by simp
  then show ?thesis using assms(3)
  proof (induction h arbitrary: b rule: buf.walk_induct)
    case (step h)
    note hb = links_hash [OF inv(1) step.prems]
    show ?case
    proof (cases "fmlookup (blocks buf) (parent_hash b)")
      case None
      then show ?thesis
        using step.prems hb
        by (subst lowest_ancestor_loop.simps) (auto intro: is_ancestor.intros)
    next
      case (Some p)
      obtain a where "lowest_ancestor_loop buf p = Some a" "fmlookup (blocks buf) (hash a) = Some a"
        "fmlookup (blocks buf) (parent_hash a) = None"
        "is_ancestor (fmlookup (blocks buf)) parent_hash (parent_hash b) (hash a)"
        using step.IH [OF step.prems Some] by blast
      then show ?thesis
        using Some step.prems
        by (subst lowest_ancestor_loop.simps) (auto intro: is_ancestor.intros)
    qed
  qed
qed

lemma lowest_ancestor_spec:
  assumes inv: "links_inv P buf" and rank: "buffer_ranked rk buf"
  shows "\<exists>r. lowest_ancestor buf h = Some r \<and>
    (case r of
       None \<Rightarrow> fmlookup (blocks buf) h = None
     | Some a \<Rightarrow>
         fmlookup (blocks buf) (hash a) = Some a \<and> fmlookup (blocks buf) (parent_hash a) = None \<and>
         is_ancestor (fmlookup (blocks buf)) parent_hash h (hash a) \<and>
         (\<forall>x. is_ancestor (fmlookup (blocks buf)) parent_hash h x \<and>
              fmlookup (blocks buf) x \<noteq> None \<longrightarrow>
              is_ancestor (fmlookup (blocks buf)) parent_hash x (hash a)))"
proof (cases "fmlookup (blocks buf) h")
  case None
  then show ?thesis by (simp add: lowest_ancestor_def)
next
  case (Some b)
  let ?anc = "is_ancestor (fmlookup (blocks buf)) parent_hash"
  obtain a where a: "lowest_ancestor_loop buf b = Some a"
    "fmlookup (blocks buf) (hash a) = Some a" "fmlookup (blocks buf) (parent_hash a) = None"
    "?anc h (hash a)"
    using lowest_ancestor_loop_correct [OF assms Some] by blast
  have "?anc x (hash a)" if "?anc h x" "fmlookup (blocks buf) x \<noteq> None" for x
  proof -
    note x = that
    consider "?anc x (hash a)" | "?anc (hash a) x" using ancestor_linear [OF a(4) x(1)] by blast
    then show ?thesis
    proof cases
      case 2
      then have "x = hash a \<or> ?anc (parent_hash a) x" using ancestor_step_iff [of _ "hash a" a] a(2) by metis
      then show ?thesis
        using x(2) a(3) ancestor_end [of "fmlookup (blocks buf)" "parent_hash a"]
        by (metis is_ancestor_refl)
    qed
  qed
  then show ?thesis using a Some by (simp add: lowest_ancestor_def)
qed

section \<open>Every reachable buffer\<close>

inductive buffer_reachable ::
  "'l buffer_lib \<Rightarrow> u32 \<Rightarrow> recovered_block set \<Rightarrow> ('p, 'l) block_buffer \<Rightarrow> bool"
  for L :: "'l buffer_lib" and limit :: u32 and U :: "recovered_block set" where
  buffer_start: "buffer_reachable L limit U (buffer_new L limit)"
| buffer_insert: "buffer_reachable L limit U buf \<Longrightarrow> b \<in> U \<Longrightarrow>
    buffer_reachable L limit U (insert_block L b buf)"
| buffer_insert_proof: "buffer_reachable L limit U buf \<Longrightarrow>
    buffer_reachable L limit U (insert_proof h p buf)"
| buffer_remove_proof: "buffer_reachable L limit U buf \<Longrightarrow>
    buffer_reachable L limit U (snd (remove_proof h buf))"
| buffer_evict: "buffer_reachable L limit U buf \<Longrightarrow>
    buffer_reachable L limit U (evict_old_blocks L n buf)"
| buffer_remove: "buffer_reachable L limit U buf \<Longrightarrow>
    buffer_reachable L limit U (snd (remove_block_with_children L h buf))"
| buffer_remove_block: "buffer_reachable L limit U buf \<Longrightarrow>
    buffer_reachable L limit U (snd (remove_block L h buf))"

text \<open>The blocks that occur agree on number and parent whenever they agree on the hash.\<close>

definition links_agree :: "recovered_block set \<Rightarrow> bool" where
  "links_agree U \<longleftrightarrow> (\<forall>a b. a \<in> U \<longrightarrow> b \<in> U \<longrightarrow> hash a = hash b \<longrightarrow>
     number a = number b \<and> parent_hash a = parent_hash b)"

lemma evict_block_limit:
  "buffer_lib_laws L keys \<Longrightarrow>
     lru_max_length L (lru (snd (evict_block L h buf))) = lru_max_length L (lru buf)"
  by (simp add: evict_block_lru buffer_lib_lru_remove)

lemma evict_each_limit:
  "buffer_lib_laws L keys \<Longrightarrow>
     lru_max_length L (lru (evict_each L hs buf)) = lru_max_length L (lru buf)"
  by (induction L hs buf rule: evict_each.induct) (simp_all add: evict_block_limit)

lemma remove_each_limit:
  "buffer_lib_laws L keys \<Longrightarrow>
     lru_max_length L (lru (snd (remove_each L hs buf))) = lru_max_length L (lru buf)"
  by (induction L hs buf rule: remove_each.induct)
     (auto simp: remove_block_removable evict_block_limit Let_def split: option.splits prod.splits)

lemma evict_children_limit:
  assumes "buffer_lib_laws L keys"
  shows "lru_max_length L (lru (evict_children L work buf)) = lru_max_length L (lru buf)"
proof (induction work buf rule: worklist_induct)
  case (pop work p s buf)
  then show ?case
    using pop.IH [OF evict_each_keys [of L "set_iter L s"], of "work @ set_iter L s"]
    by (simp add: evict_children_pop evict_each_limit [OF assms])
qed (simp_all add: evict_children_skip)

lemma remove_children_limit:
  assumes "buffer_lib_laws L keys"
  shows "lru_max_length L (lru (snd (remove_children L work buf))) = lru_max_length L (lru buf)"
proof (induction work buf rule: worklist_induct)
  case (pop work p s buf)
  obtain rs b where rb: "remove_each L (set_iter L s) (unlink p buf) = (rs, b)"
    by (cases "remove_each L (set_iter L s) (unlink p buf)")
  then show ?case
    using pop.IH [of b "work @ set_iter L s"] remove_each_keys [of L "set_iter L s" "unlink p buf"]
      remove_each_limit [OF assms, of "set_iter L s" "unlink p buf"]
    by (simp add: remove_children_pop [OF pop.hyps] case_prod_beta)
qed (simp_all add: remove_children_skip)

lemma evict_old_blocks_limit:
  assumes "buffer_lib_laws L keys" "buffer_inv L keys P buf"
  shows "lru_max_length L (lru (evict_old_blocks L n buf)) = lru_max_length L (lru buf)"
proof -
  have "lru (snd (take_old_blocks L n buf)) = lru buf"
    by (induction L n buf rule: take_old_blocks.induct)
       (subst take_old_blocks.simps, simp add: case_prod_beta split: option.splits)
  then show ?thesis
    by (simp add: evict_old_blocks_def evict_children_limit [OF assms(1)]
        evict_each_limit [OF assms(1)] case_prod_beta)
qed

lemma remove_block_with_children_limit:
  assumes "buffer_lib_laws L keys"
  shows "lru_max_length L (lru (snd (remove_block_with_children L h buf))) =
    lru_max_length L (lru buf)"
  by (simp add: remove_block_with_children_alt [OF refl] remove_children_limit [OF assms]
      evict_block_limit [OF assms])

lemma remove_block_with_children_keeps:
  assumes laws: "buffer_lib_laws L keys" and inv: "buffer_inv L keys P buf"
  shows "buffer_inv L keys P (snd (remove_block_with_children L h buf)) \<and>
    (fmlookup (blocks (snd (remove_block_with_children L h buf))) x = Some b \<longrightarrow>
     fmlookup (blocks buf) x = Some b)"
proof -
  let ?b = "if is_removable buf h then snd (evict_block L h buf) else buf"
  have "buffer_inv L keys P ?b" using evict_block_inv [OF laws inv] inv by simp
  then have "subtree_removed L keys P ?b {h} (remove_children L [h] ?b)"
    using remove_children_correct [OF laws, of P ?b "[h]"] by (simp add: is_removable_def)
  then show ?thesis
    unfolding remove_block_with_children_alt [OF refl] subtree_removed_def
    by (auto split: if_splits)
qed

lemma buffer_reachable_spec:
  assumes "buffer_lib_laws L keys" and "0 < limit" and "links_agree U"
    and "buffer_reachable L limit U buf"
  shows "buffer_inv L keys (\<lambda>_. True) buf \<and> lru_max_length L (lru buf) = limit \<and>
    fcard (fmdom (blocks buf)) \<le> unat limit \<and>
    (\<forall>h b. fmlookup (blocks buf) h = Some b \<longrightarrow> b \<in> U)"
proof -
  have "buffer_inv L keys (\<lambda>_. True) buf \<and> lru_max_length L (lru buf) = limit \<and>
    (\<forall>h b. fmlookup (blocks buf) h = Some b \<longrightarrow> b \<in> U)"
    using assms(4)
  proof (induction rule: buffer_reachable.induct)
    case buffer_start
    show ?case
      using assms(1)
      by (auto simp: buffer_new_def buffer_inv_def links_inv_def buffer_lib_laws_def)
  next
    case (buffer_insert buf b)
    then have "agrees_with b buf"
      using assms(3) buffer_inv_hash unfolding links_agree_def agrees_with_def by metis
    then show ?case
      using buffer_insert buffer_insert_block_spec [OF assms(1), of buf b] assms(2)
      by (auto split: if_splits)
  next
    case (buffer_evict buf n)
    then show ?case
      using evict_old_blocks_spec [OF assms(1), of buf n]
        evict_old_blocks_limit [OF assms(1), of _ buf n]
      by (auto split: if_splits)
  next
    case (buffer_remove buf h)
    then show ?case
      using remove_block_with_children_keeps [OF assms(1), of _ buf h]
        remove_block_with_children_limit [OF assms(1), of h buf]
      by blast
  next
    case (buffer_remove_block buf h)
    then show ?case
      using remove_block_inv [OF assms(1), of "\<lambda>_. True" buf h] evict_block_limit [OF assms(1), of h buf]
      by (auto simp: remove_block_alt split: option.splits if_splits)
  qed (auto simp: buffer_inv_def links_inv_def insert_proof_def remove_proof_def)
  moreover from this have "fcard (fmdom (blocks buf)) = length (keys (lru buf))"
    using assms(1) distinct_card [of "keys (lru buf)"]
    by (simp add: buffer_inv_def buffer_lib_laws_def fcard.rep_eq)
  ultimately show ?thesis by (auto simp: buffer_inv_def)
qed

section \<open>Properties\<close>


text \<open>
  C25: removing a block with its descendants returns every descendant that has its proof, each
  exactly once and no block before its parent, deletes exactly those, and keeps the invariant.
\<close>

theorem remove_block_with_children_effect:
  assumes "buffer_lib_laws L keys" and "buffer_inv L keys (\<lambda>_. True) buf"
    and "buffer_ranked rk buf" and "remove_block_with_children L h buf = (removed, buf')"
  shows "(\<forall>r. r \<in> set removed \<longleftrightarrow> (\<exists>x \<in> descendants buf {h}. removable buf x = Some r)) \<and>
     distinct (map (hash \<circ> fst) removed) \<and> parents_first removed \<and>
     (\<forall>x. fmlookup (blocks buf') x =
        (if x \<in> descendants buf {h} \<and> is_removable buf x then None
         else fmlookup (blocks buf) x)) \<and>
     buffer_inv L keys (\<lambda>_. True) buf'"
  using assms by (rule remove_block_with_children_spec)

text \<open>
  C26: evicting up to the finalized number deletes exactly the blocks at or below it and their
  descendants, with their proofs, and keeps the invariant.
\<close>

theorem evict_old_blocks_effect:
  assumes "buffer_lib_laws L keys" and "buffer_inv L keys (\<lambda>_. True) buf"
  shows "(\<forall>h. fmlookup (blocks (evict_old_blocks L n buf)) h =
        (if h \<in> descendants buf (old_blocks n buf) then None
         else fmlookup (blocks buf) h)) \<and>
     (\<forall>h. fmlookup (buffered_proofs (evict_old_blocks L n buf)) h =
        (if h \<in> descendants buf (old_blocks n buf) then None
         else fmlookup (buffered_proofs buf) h)) \<and>
     buffer_inv L keys (\<lambda>_. True) (evict_old_blocks L n buf)"
  using assms by (rule evict_old_blocks_spec)

text \<open>
  C27: inserting a block stores it and moves its hash to the newest end of the LRU; only when the
  block is new and the buffer is full, the block of the oldest hash is deleted. The limit is kept.
\<close>

theorem buffer_insert_block_effect:
  assumes "buffer_lib_laws L keys" and "buffer_inv L keys (\<lambda>_. True) buf"
    and "0 < lru_max_length L (lru buf)" and "agrees_with b buf"
  shows "(\<forall>h. fmlookup (blocks (insert_block L b buf)) h =
       (if victim L keys (hash b) buf = Some h then None
        else if h = hash b then Some b else fmlookup (blocks buf) h)) \<and>
     keys (lru (insert_block L b buf)) =
       filter (\<lambda>x. x \<noteq> hash b \<and> victim L keys (hash b) buf \<noteq> Some x) (keys (lru buf)) @ [hash b] \<and>
     fcard (fmdom (blocks (insert_block L b buf))) \<le> unat (lru_max_length L (lru buf)) \<and>
     lru_max_length L (lru (insert_block L b buf)) = lru_max_length L (lru buf) \<and>
     buffer_inv L keys (\<lambda>_. True) (insert_block L b buf)"
  using assms by (rule buffer_insert_block_spec)

text \<open>
  C28: the walk to the lowest buffered ancestor returns. It finds nothing for a hash that is not
  buffered, and otherwise a buffered ancestor whose parent is not buffered and from which every
  buffered ancestor of the hash descends.
\<close>

theorem lowest_ancestor_correct:
  assumes "links_inv P buf" and "buffer_ranked rk buf"
  shows "\<exists>r. lowest_ancestor buf h = Some r \<and>
    (case r of
       None \<Rightarrow> fmlookup (blocks buf) h = None
     | Some a \<Rightarrow>
         fmlookup (blocks buf) (hash a) = Some a \<and> fmlookup (blocks buf) (parent_hash a) = None \<and>
         is_ancestor (fmlookup (blocks buf)) parent_hash h (hash a) \<and>
         (\<forall>x. is_ancestor (fmlookup (blocks buf)) parent_hash h x \<and>
              fmlookup (blocks buf) x \<noteq> None \<longrightarrow>
              is_ancestor (fmlookup (blocks buf)) parent_hash x (hash a)))"
  using assms by (rule lowest_ancestor_spec)

text \<open>
  Removing a block with its descendants forgets the parent of a buffered child that has no
  proof yet: the child stays buffered, but under no parent, so a later removal of the same
  ancestor no longer finds it.
\<close>

theorem remove_children_forgets_proofless_child:
  assumes "buffer_lib_laws L keys" and "buffer_inv L keys (\<lambda>_. True) buf"
    and "c |\<in>| values_at (parent_to_child buf) h" and "buffer_proof buf c = None" and "c \<noteq> h"
    and "remove_block_with_children L h buf = (removed, buf')"
  shows "fmlookup (blocks buf') c \<noteq> None \<and> (\<forall>q. c |\<notin>| values_at (parent_to_child buf') q)"
proof -
  let ?b = "if is_removable buf h then snd (evict_block L h buf) else buf"
  note links = buffer_links [OF assms(2)]
  have "buffer_inv L keys (\<lambda>_. True) ?b" using evict_block_inv [OF assms(1,2)] assms(2) by simp
  then have sub: "subtree_removed L keys (\<lambda>_. True) ?b {h} (remove_children L [h] ?b)"
    using remove_children_correct [OF assms(1), of _ ?b "[h]"] by (simp add: is_removable_def)
  have buf': "buf' = snd (remove_children L [h] ?b)"
    using assms(6) by (simp add: remove_block_with_children_alt [OF refl])
  have c: "\<not> is_removable ?b c" "fmlookup (blocks ?b) c \<noteq> None"
    using assms(3-5) links_child [OF links assms(3)]
    by (auto simp: is_removable_def buffer_proof_def evict_block_proofs)
  have "q = h" if "c |\<in>| kids ?b q" for q
  proof -
    have "c |\<in>| kids buf q"
      using that by (auto simp: evict_block_children [OF links] split: if_splits)
    then show ?thesis using buffer_inv_child_unique [OF assms(2)] assms(3) by blast
  qed
  then have "c |\<notin>| kids buf' q" for q
    using sub closure_start [of h "{h}" "kids ?b"] unfolding buf' subtree_removed_def by blast
  moreover have "fmlookup (blocks buf') c \<noteq> None"
    using sub c unfolding buf' subtree_removed_def by simp
  ultimately show ?thesis by blast
qed

section \<open>Concrete instances\<close>

text \<open>An LRU over a list, oldest key first.\<close>

definition list_lru :: "(b256 list \<times> u32) buffer_lib" where
  "list_lru = \<lparr>lru_new = (\<lambda>n. ([], n)), lru_peek = (\<lambda>h l. h \<in> set (fst l)),
     lru_len = (\<lambda>l. length (remdups (fst l))), lru_max_length = snd,
     lru_pop_oldest = (\<lambda>l. case remdups (fst l) of [] \<Rightarrow> None | x # xs \<Rightarrow> Some (x, xs, snd l)),
     lru_get_or_insert = (\<lambda>h l. (filter (\<lambda>x. x \<noteq> h) (fst l) @ [h], snd l)),
     lru_remove = (\<lambda>h l. (filter (\<lambda>x. x \<noteq> h) (fst l), snd l)),
     set_iter = sorted_list_of_fset\<rparr>"

abbreviation list_lru_keys :: "b256 list \<times> u32 \<Rightarrow> b256 list" where
  "list_lru_keys l \<equiv> remdups (fst l)"

lemma remdups_snoc: "remdups (filter (\<lambda>x. x \<noteq> h) xs @ [h]) = filter (\<lambda>x. x \<noteq> h) (remdups xs) @ [h]"
  by (induction xs) auto

lemma remdups_tl: "remdups xs = y # ys \<Longrightarrow> remdups ys = ys"
  by (metis distinct.simps(2) distinct_remdups distinct_remdups_id)

lemma list_lru_laws: "buffer_lib_laws list_lru list_lru_keys"
  by (auto simp: buffer_lib_laws_def list_lru_def remdups_snoc remdups_filter
      sorted_list_of_fset.rep_eq split: list.splits dest: remdups_tl)

lemma ex_blocks_agree: "links_agree ex_blocks"
  by (auto simp: links_agree_def ex_blocks_def)

text \<open>Two blocks with their proofs and a third without, under a limit of three.\<close>

definition ex_buffer :: "(nat, b256 list \<times> u32) block_buffer" where
  "ex_buffer = insert_block list_lru (mk_block 3 13 12)
     (insert_proof 12 7 (insert_block list_lru (mk_block 2 12 11)
        (insert_proof 11 5 (insert_block list_lru (mk_block 1 11 10) (buffer_new list_lru 3)))))"

lemma ex_buffer_reachable: "buffer_reachable list_lru 3 ex_blocks ex_buffer"
  unfolding ex_buffer_def by (intro buffer_reachable.intros) (simp_all add: ex_blocks_def)


lemmas ex_buffer_spec =
  buffer_reachable_spec [OF list_lru_laws _ ex_blocks_agree ex_buffer_reachable, simplified]

lemma ex_buffer_facts:
  "buffer_inv list_lru list_lru_keys (\<lambda>_. True) ex_buffer"
  "links_inv (\<lambda>_. True) ex_buffer"
  "buffer_ranked unat ex_buffer"
  "lru_max_length list_lru (lru ex_buffer) = 3"
proof -
  show "buffer_ranked unat ex_buffer"
    using ex_buffer_spec ex_blocks_ranked by (simp add: buffer_ranked_def)
qed (use ex_buffer_spec in \<open>auto simp: buffer_inv_def\<close>)


theorem remove_block_with_children_witness:
  "parents_first (fst (remove_block_with_children list_lru 11 ex_buffer)) \<and>
   fst (remove_block_with_children list_lru 11 ex_buffer) =
     [(mk_block 1 11 10, 5), (mk_block 2 12 11, 7)]"
proof -
  have "fst (remove_block_with_children list_lru 11 ex_buffer) =
     [(mk_block 1 11 10, 5), (mk_block 2 12 11, 7)]" by code_simp
  then show ?thesis
    using remove_block_with_children_effect [OF list_lru_laws ex_buffer_facts(1,3)
        surjective_pairing, of 11] by blast
qed

theorem evict_old_blocks_witness:
  "buffer_inv list_lru list_lru_keys (\<lambda>_. True) (evict_old_blocks list_lru 2 ex_buffer) \<and>
   fmlookup (blocks (evict_old_blocks list_lru 2 ex_buffer)) 13 = None"
proof -
  have "fmlookup (blocks (evict_old_blocks list_lru 2 ex_buffer)) 13 = None" by code_simp
  then show ?thesis
    using evict_old_blocks_effect [OF list_lru_laws ex_buffer_facts(1), of 2] by blast
qed

theorem buffer_insert_block_witness:
  "fmlookup (blocks (insert_block list_lru (mk_block 4 14 13) ex_buffer)) 11 = None \<and>
   fmlookup (blocks (insert_block list_lru (mk_block 4 14 13) ex_buffer)) 14 =
     Some (mk_block 4 14 13)"
proof -
  have "fmlookup (blocks ex_buffer) 14 = None" by code_simp
  then have "agrees_with (mk_block 4 14 13) ex_buffer" by (simp add: agrees_with_def)
  moreover have "victim list_lru list_lru_keys 14 ex_buffer = Some 11" by code_simp
  ultimately show ?thesis
    using buffer_insert_block_effect [OF list_lru_laws ex_buffer_facts(1), of "mk_block 4 14 13"]
      ex_buffer_facts(4) by simp
qed

theorem lowest_ancestor_witness:
  "(\<exists>a. lowest_ancestor ex_buffer 13 = Some (Some a) \<and>
     fmlookup (blocks ex_buffer) (parent_hash a) = None) \<and>
   lowest_ancestor ex_buffer 13 = Some (Some (mk_block 1 11 10))"
proof -
  have "lowest_ancestor ex_buffer 13 = Some (Some (mk_block 1 11 10))" by code_simp
  moreover
  have "fmlookup (blocks ex_buffer) 13 \<noteq> None" by code_simp
  ultimately show ?thesis
    using lowest_ancestor_correct [OF ex_buffer_facts(2,3), of 13] by (auto split: option.splits)
qed

theorem remove_children_forgets_witness:
  "fmlookup (blocks (snd (remove_block_with_children list_lru 12 ex_buffer))) 13 \<noteq> None \<and>
   fst (remove_block_with_children list_lru 12
     (snd (remove_block_with_children list_lru 12 ex_buffer))) = []"
proof -
  have "13 |\<in>| values_at (parent_to_child ex_buffer) 12" "buffer_proof ex_buffer 13 = None"
    "fst (remove_block_with_children list_lru 12
       (snd (remove_block_with_children list_lru 12 ex_buffer))) = []"
    by code_simp+
  then show ?thesis
    using remove_children_forgets_proofless_child [OF list_lru_laws ex_buffer_facts(1) _ _ _
        surjective_pairing, of 13 12] by simp
qed

end
