(* ===== verification/Tree_Facts.thy ===== *)
theory Tree_Facts
  imports Engine_Tree Buffer_Props
begin

text \<open>
  Facts about the operations of the engine tree: the laws of its libraries, its invariant, that its
  walks return, and the effect of \<open>insert_block\<close> on every branch.
\<close>

section \<open>The environment and the invariant\<close>

text \<open>
  Documented behaviour of the invalid header cache, over its entries: a lookup answers with an
  entry, and no operation makes an entry appear other than the one inserted. (Entries may be
  evicted at any time.)
\<close>

definition invalid_cache_laws ::
  "('p, 'x, 'e, 'a, 'i, 'f, 'l) tree_lib \<Rightarrow> ('i \<Rightarrow> b256 \<rightharpoonup> block_with_parent) \<Rightarrow> bool" where
  "invalid_cache_laws L ents \<longleftrightarrow>
     (\<forall>n. ents (invalid_cache_new L n) = Map.empty) \<and>
     (\<forall>h i. ents (snd (invalid_get L h i)) \<subseteq>\<^sub>m ents i) \<and>
     (\<forall>h i v. fst (invalid_get L h i) = Some v \<longrightarrow> ents i h = Some v) \<and>
     (\<forall>v i k w. ents (invalid_insert L v i) k = Some w \<longrightarrow>
        ents i k = Some w \<or> (k = nh_hash (bwp_block v) \<and> w = v)) \<and>
     (\<forall>h v i k w. ents (invalid_insert_with_ancestor L h v i) k = Some w \<longrightarrow>
        ents i k = Some w \<or> (k = h \<and> w = v))"

text \<open>
  The laws of the libraries, and the blocks \<open>U\<close> that occur: they agree on number and parent
  whenever they agree on the hash, and a block ranks above its parent.
\<close>

definition tree_env ::
  "('p, 'x, 'e, 'a, 'i, 'f, 'l) tree_lib \<Rightarrow> ('l \<Rightarrow> b256 list) \<Rightarrow> ('i \<Rightarrow> b256 \<rightharpoonup> block_with_parent) \<Rightarrow>
     (b256 \<Rightarrow> nat) \<Rightarrow> recovered_block set \<Rightarrow> bool" where
  "tree_env L keys ents rk U \<longleftrightarrow>
     parent_num_hash_law (parent_num_hash L) \<and> buffer_lib_laws (buffer_ops L) keys \<and>
     invalid_cache_laws L ents \<and> links_agree U \<and> (\<forall>b \<in> U. hash_ranked rk b)"

definition ranked_entries :: "(b256 \<Rightarrow> nat) \<Rightarrow> (b256 \<rightharpoonup> block_with_parent) \<Rightarrow> bool" where
  "ranked_entries rk m \<longleftrightarrow> (\<forall>k v. m k = Some v \<longrightarrow> rk (bwp_parent v) < rk k)"

abbreviation stored :: "('p, 'i, 'f, 'l) engine_tree \<Rightarrow> b256 \<Rightarrow> recovered_block option" where
  "stored t \<equiv> fmlookup (blocks_by_hash (chain_state_of (provider t)))"

abbreviation buffered :: "('p, 'i, 'f, 'l) engine_tree \<Rightarrow> b256 \<Rightarrow> recovered_block option" where
  "buffered t \<equiv> fmlookup (blocks (block_buffer t))"

definition tree_inv ::
  "('p, 'x, 'e, 'a, 'i, 'f, 'l) tree_lib \<Rightarrow> ('l \<Rightarrow> b256 list) \<Rightarrow> ('i \<Rightarrow> b256 \<rightharpoonup> block_with_parent) \<Rightarrow>
     (b256 \<Rightarrow> nat) \<Rightarrow> recovered_block set \<Rightarrow> ('p, 'i, 'f, 'l) engine_tree \<Rightarrow> bool" where
  "tree_inv L keys ents rk U t \<longleftrightarrow>
     cs_wf (chain_state_of (provider t)) \<and> (\<forall>h b. stored t h = Some b \<longrightarrow> b \<in> U) \<and>
     buffer_inv (buffer_ops L) keys (\<lambda>_. True) (block_buffer t) \<and>
     0 < lru_max_length (buffer_ops L) (lru (block_buffer t)) \<and>
     (\<forall>h b. buffered t h = Some b \<longrightarrow> b \<in> U) \<and>
     ranked_entries rk (ents (invalid_headers t))"

lemma tree_invD:
  assumes "tree_inv L keys ents rk U t"
  shows "cs_wf (chain_state_of (provider t))"
    and "stored t h = Some b \<Longrightarrow> b \<in> U" and "stored t h = Some b \<Longrightarrow> hash b = h"
    and "buffer_inv (buffer_ops L) keys (\<lambda>_. True) (block_buffer t)"
    and "0 < lru_max_length (buffer_ops L) (lru (block_buffer t))"
    and "buffered t h = Some b \<Longrightarrow> b \<in> U" and "buffered t h = Some b \<Longrightarrow> hash b = h"
    and "ranked_entries rk (ents (invalid_headers t))"
  using assms cs_wf_hash buffer_inv_hash unfolding tree_inv_def by blast+

lemma tree_envD:
  assumes "tree_env L keys ents rk U"
  shows "parent_num_hash_law (parent_num_hash L)" and "buffer_lib_laws (buffer_ops L) keys"
    and "invalid_cache_laws L ents" and "links_agree U" and "b \<in> U \<Longrightarrow> hash_ranked rk b"
  using assms unfolding tree_env_def by blast+

lemma tree_ranked:
  assumes "tree_env L keys ents rk U" and "tree_inv L keys ents rk U t"
  shows "cs_ranked rk (chain_state_of (provider t))" and "buffer_ranked rk (block_buffer t)"
  using tree_envD(5) [OF assms(1)] tree_invD(2,6) [OF assms(2)]
  by (auto simp: cs_ranked_def buffer_ranked_def)

lemma tree_agrees:
  assumes "tree_env L keys ents rk U" and "tree_inv L keys ents rk U t" and "b \<in> U"
  shows "agrees_with b (block_buffer t)"
    and "stored t (hash b) = Some b' \<Longrightarrow> number b' = number b"
  using tree_envD(4) [OF assms(1)] tree_invD(2,3,6,7) [OF assms(2)] assms(3)
  unfolding agrees_with_def links_agree_def by blast+

lemma tree_inv_cong:
  assumes "tree_inv L keys ents rk U t"
    and "chain_state_of (provider t') = chain_state_of (provider t)"
    and "block_buffer t' = block_buffer t" and "invalid_headers t' = invalid_headers t"
  shows "tree_inv L keys ents rk U t'"
  using assms by (simp add: tree_inv_def)

lemma tree_inv_invalid:
  assumes "tree_inv L keys ents rk U t" and "ranked_entries rk (ents i)"
  shows "tree_inv L keys ents rk U (t\<lparr>invalid_headers := i\<rparr>)"
  using assms by (simp add: tree_inv_def)

lemma tree_inv_events [inv_intros]:
  "tree_inv L keys ents rk U t \<Longrightarrow> tree_inv L keys ents rk U (emit_event e t)"
  by (simp add: tree_inv_def emit_event_def)

section \<open>The buffer\<close>

lemma lowest_buffered_ancestor_or_correct:
  assumes inv: "buffer_inv L keys P (block_buffer t)" "buffer_ranked rk (block_buffer t)"
  shows "\<exists>a. lowest_buffered_ancestor_or t h = Some a \<and> buffered t a = None \<and>
     is_ancestor (buffered t) parent_hash h a \<and> rk a \<le> rk h"
proof -
  note links = buffer_links [OF inv(1)]
  obtain r where r: "lowest_ancestor (block_buffer t) h = Some r" and spec: "case r of
       None \<Rightarrow> buffered t h = None
     | Some a \<Rightarrow>
         buffered t (hash a) = Some a \<and> buffered t (parent_hash a) = None \<and>
         is_ancestor (buffered t) parent_hash h (hash a) \<and>
         (\<forall>x. is_ancestor (buffered t) parent_hash h x \<and> buffered t x \<noteq> None \<longrightarrow>
              is_ancestor (buffered t) parent_hash x (hash a))"
    using lowest_ancestor_spec [OF links inv(2), of h] by blast
  have rank: "a = h \<or> rk a < rk h" if "is_ancestor (buffered t) parent_hash h a" for a
    using buf.ancestor_rank [OF conjI [OF links inv(2)] that] .
  show ?thesis
  proof (cases r)
    case None
    then show ?thesis
      using r spec by (simp add: lowest_buffered_ancestor_or_def is_ancestor_refl)
  next
    case (Some a)
    with spec have a: "buffered t (hash a) = Some a" "buffered t (parent_hash a) = None"
      "is_ancestor (buffered t) parent_hash h (hash a)" by simp_all
    have "is_ancestor (buffered t) parent_hash h (parent_hash a)"
      using ancestor_trans [OF a(3)] a(1) by (blast intro: is_ancestor.intros)
    then show ?thesis
      using r a Some rank [of "parent_hash a"]
      by (auto simp: lowest_buffered_ancestor_or_def)
  qed
qed

lemma insert_proof_inv:
  "buffer_inv L keys P buf \<Longrightarrow> buffer_inv L keys P (insert_proof h p buf)"
  by (simp add: buffer_inv_def links_inv_def insert_proof_def)

lemma insert_proof_sel [simp]:
  "blocks (insert_proof h p buf) = blocks buf" "lru (insert_proof h p buf) = lru buf"
  by (simp_all add: insert_proof_def)

lemma tree_inv_insert_proof:
  "tree_inv L keys ents rk U t \<Longrightarrow>
     tree_inv L keys ents rk U (t\<lparr>block_buffer := insert_proof h p (block_buffer t)\<rparr>)"
  by (simp add: tree_inv_def insert_proof_inv)

lemma tree_inv_buffer_insert:
  assumes env: "tree_env L keys ents rk U" and inv: "tree_inv L keys ents rk U t" and "b \<in> U"
  shows "tree_inv L keys ents rk U
    (t\<lparr>block_buffer := Block_Buffer.insert_block (buffer_ops L) b (block_buffer t)\<rparr>)"
proof -
  note spec = buffer_insert_block_spec [OF tree_envD(2) [OF env] tree_invD(4,5) [OF inv]
      tree_agrees(1) [OF env inv \<open>b \<in> U\<close>]]
  then show ?thesis
    using inv \<open>b \<in> U\<close> unfolding tree_inv_def by (auto split: if_splits)
qed

section \<open>Walks of the tree return\<close>

lemma provider_sealed_header_rank:
  assumes "cs_wf cs" "cs_ranked rk cs" "sealed_header cs h = Some b"
  shows "rk (parent_hash b) < rk h" and "hash b = h"
  using assms cs_wf_hash unfolding sealed_header_Some cs_ranked_def hash_ranked_def by fastforce+

lemma is_fork_returns:
  assumes "cs_wf (chain_state_of (provider t))" "cs_ranked rk (chain_state_of (provider t))"
  shows "\<exists>r. is_fork t h = Some r"
proof -
  have "\<exists>r. is_fork_loop (provider t) head h = Some r" for head
  proof (induction "rk h" arbitrary: h rule: less_induct)
    case less
    show ?case
      using less provider_sealed_header_rank [OF assms, of h]
      by (subst is_fork_loop.simps) (auto simp: provider_sealed_header_def split: option.splits)
  qed
  then show ?thesis by (simp add: is_fork_def)
qed

lemma ranked_entries_le:
  "ranked_entries rk m \<Longrightarrow> m' \<subseteq>\<^sub>m m \<Longrightarrow> ranked_entries rk m'"
  unfolding ranked_entries_def map_le_def by (metis domI)

lemma invalid_get_ranked:
  assumes "invalid_cache_laws L ents" "ranked_entries rk (ents i)" "invalid_get L h i = (r, i')"
  shows "ranked_entries rk (ents i')" and "r = Some v \<Longrightarrow> rk (bwp_parent v) < rk h"
proof -
  from assms(1,3) have "ents i' \<subseteq>\<^sub>m ents i" and "r = Some v \<Longrightarrow> ents i h = Some v"
    unfolding invalid_cache_laws_def by (metis snd_conv, metis fst_conv)
  then show "ranked_entries rk (ents i')" and "r = Some v \<Longrightarrow> rk (bwp_parent v) < rk h"
    using assms(2) ranked_entries_le by (blast, auto simp: ranked_entries_def)
qed

lemma invalid_insert_ranked:
  assumes laws: "invalid_cache_laws L ents" and m: "ranked_entries rk (ents i)"
  shows "rk (bwp_parent v) < rk h \<Longrightarrow>
      ranked_entries rk (ents (invalid_insert_with_ancestor L h v i))"
    and "rk (bwp_parent v) < rk (nh_hash (bwp_block v)) \<Longrightarrow>
      ranked_entries rk (ents (invalid_insert L v i))"
proof -
  have "\<And>k w. ents (invalid_insert_with_ancestor L h v i) k = Some w \<Longrightarrow>
      ents i k = Some w \<or> (k = h \<and> w = v)"
    and "\<And>k w. ents (invalid_insert L v i) k = Some w \<Longrightarrow>
      ents i k = Some w \<or> (k = nh_hash (bwp_block v) \<and> w = v)"
    using laws unfolding invalid_cache_laws_def by blast+
  then show "rk (bwp_parent v) < rk h \<Longrightarrow>
      ranked_entries rk (ents (invalid_insert_with_ancestor L h v i))"
    and "rk (bwp_parent v) < rk (nh_hash (bwp_block v)) \<Longrightarrow>
      ranked_entries rk (ents (invalid_insert L v i))"
    using m unfolding ranked_entries_def by metis+
qed

lemma invalid_ancestors_loop_returns:
  assumes laws: "invalid_cache_laws L ents"
  shows "ranked_entries rk (ents i) \<Longrightarrow>
     \<exists>r i'. invalid_ancestors_loop L pr cb i = Some (r, i') \<and> ranked_entries rk (ents i') \<and>
       (\<forall>h. r = Some h \<longrightarrow> provider_sealed_header pr h \<noteq> None)"
proof (induction "case cb of None \<Rightarrow> 0 | Some v \<Rightarrow> Suc (rk (bwp_parent v))" arbitrary: cb i
    rule: less_induct)
  case less
  show ?case
  proof (cases cb)
    case None
    then show ?thesis
      using less.prems by (subst invalid_ancestors_loop.simps) simp
  next
    case (Some v)
    obtain c' i' where g: "invalid_get L (bwp_parent v) i = (c', i')"
      by (cases "invalid_get L (bwp_parent v) i")
    note rank = invalid_get_ranked [OF laws less.prems g]
    show ?thesis
    proof (cases "c' = None \<and> provider_sealed_header pr (bwp_parent v) \<noteq> None")
      case True
      then show ?thesis
        using rank(1) Some g by (subst invalid_ancestors_loop.simps) simp
    next
      case False
      have "(case c' of None \<Rightarrow> 0 | Some v \<Rightarrow> Suc (rk (bwp_parent v))) <
          (case cb of None \<Rightarrow> 0 | Some v \<Rightarrow> Suc (rk (bwp_parent v)))"
        using rank(2) Some by (auto split: option.splits)
      from less.hyps [OF this rank(1)] show ?thesis
        using False Some g by (subst invalid_ancestors_loop.simps) auto
    qed
  qed
qed

lemma latest_valid_hash_correct:
  assumes env: "tree_env L keys ents rk U" and inv: "tree_inv L keys ents rk U t"
  shows "\<exists>r i. latest_valid_hash_for_invalid_payload L p t = Some (r, t\<lparr>invalid_headers := i\<rparr>) \<and>
     ranked_entries rk (ents i) \<and> (\<forall>h. r = Some h \<longrightarrow> stored t h \<noteq> None)"
proof (cases "provider_sealed_header (provider t) p")
  case None
  obtain c i where g: "invalid_get L p (invalid_headers t) = (c, i)"
    by (cases "invalid_get L p (invalid_headers t)")
  note laws = tree_envD(3) [OF env]
  note rank = invalid_get_ranked [OF laws tree_invD(8) [OF inv] g]
  obtain r i' where "invalid_ancestors_loop L (provider t) c i = Some (r, i')"
    "ranked_entries rk (ents i')" "\<forall>h. r = Some h \<longrightarrow> provider_sealed_header (provider t) h \<noteq> None"
    using invalid_ancestors_loop_returns [OF laws rank(1)] by blast
  then show ?thesis
    using None g
    by (auto simp: latest_valid_hash_for_invalid_payload_def provider_sealed_header_None)
next
  case (Some b)
  then have "stored t p \<noteq> None" by (metis option.distinct(1) provider_sealed_header_None)
  then show ?thesis
    using Some tree_invD(8) [OF inv]
    by (auto simp: latest_valid_hash_for_invalid_payload_def intro!: exI [of _ "invalid_headers t"])
qed


lemma prepare_invalid_response_correct:
  assumes env: "tree_env L keys ents rk U" and inv: "tree_inv L keys ents rk U t"
  shows "\<exists>st i. prepare_invalid_response L p t = Some (st, t\<lparr>invalid_headers := i\<rparr>) \<and>
     ranked_entries rk (ents i) \<and> status st = StatusInvalid (links_to_rejected_payload L) \<and>
     (\<exists>h. latest_valid_hash st = Some h \<and> (h \<noteq> 0 \<longrightarrow> stored t h \<noteq> None))"
proof -
  define q where "q = (case provider_sealed_header (provider t) p of
     Some b \<Rightarrow> if difficulty b \<noteq> 0 then 0 else p | None \<Rightarrow> p)"
  obtain r i where "latest_valid_hash_for_invalid_payload L q t = Some (r, t\<lparr>invalid_headers := i\<rparr>)"
    "ranked_entries rk (ents i)" "\<forall>h. r = Some h \<longrightarrow> stored t h \<noteq> None"
    using latest_valid_hash_correct [OF env inv] by blast
  then show ?thesis
    unfolding prepare_invalid_response_def q_def [symmetric]
    by (auto split: option.splits)
qed

lemma check_invalid_ancestor_with_head_correct:
  assumes env: "tree_env L keys ents rk U" and inv: "tree_inv L keys ents rk U t"
    and le: "rk c \<le> rk h"
  shows "\<exists>r i. check_invalid_ancestor_with_head L c h t = Some (r, t\<lparr>invalid_headers := i\<rparr>) \<and>
     ranked_entries rk (ents i) \<and>
     (\<forall>st. r = Some st \<longrightarrow> status st = StatusInvalid (links_to_rejected_payload L) \<and>
        (\<exists>h. latest_valid_hash st = Some h \<and> (h \<noteq> 0 \<longrightarrow> stored t h \<noteq> None)))"
proof -
  note laws = tree_envD(3) [OF env]
  obtain c' i where g: "invalid_get L c (invalid_headers t) = (c', i)"
    by (cases "invalid_get L c (invalid_headers t)")
  note rank = invalid_get_ranked [OF laws tree_invD(8) [OF inv] g]
  show ?thesis
  proof (cases c')
    case None
    then show ?thesis using g rank(1) by (auto simp: check_invalid_ancestor_with_head_def)
  next
    case (Some v)
    obtain st j where p: "prepare_invalid_response L (bwp_parent v) (t\<lparr>invalid_headers := i\<rparr>) =
        Some (st, t\<lparr>invalid_headers := j\<rparr>)" "ranked_entries rk (ents j)"
      "status st = StatusInvalid (links_to_rejected_payload L)"
      "\<exists>h. latest_valid_hash st = Some h \<and> (h \<noteq> 0 \<longrightarrow> stored t h \<noteq> None)"
      using prepare_invalid_response_correct [OF env tree_inv_invalid [OF inv rank(1)],
          of "bwp_parent v"] by auto
    have "ranked_entries rk (ents (invalid_insert_with_ancestor L h v j))"
      by (rule invalid_insert_ranked(1) [OF laws p(2)]) (use rank(2) [OF Some] le in simp)
    then show ?thesis
      using g p Some by (auto simp: check_invalid_ancestor_with_head_def)
  qed
qed

lemma check_invalid_ancestor_correct:
  assumes env: "tree_env L keys ents rk U" and inv: "tree_inv L keys ents rk U t"
  shows "\<exists>r i. check_invalid_ancestor L h t = Some (r, t\<lparr>invalid_headers := i\<rparr>) \<and>
     ranked_entries rk (ents i) \<and>
     (\<forall>st. r = Some st \<longrightarrow> status st = StatusInvalid (links_to_rejected_payload L) \<and>
        (\<exists>h. latest_valid_hash st = Some h \<and> (h \<noteq> 0 \<longrightarrow> stored t h \<noteq> None)))"
proof -
  note laws = tree_envD(3) [OF env]
  obtain c' i where g: "invalid_get L h (invalid_headers t) = (c', i)"
    by (cases "invalid_get L h (invalid_headers t)")
  note rank = invalid_get_ranked [OF laws tree_invD(8) [OF inv] g]
  show ?thesis
  proof (cases c')
    case None
    then show ?thesis using g rank(1) by (auto simp: check_invalid_ancestor_def)
  next
    case (Some v)
    then show ?thesis
      using prepare_invalid_response_correct [OF env tree_inv_invalid [OF inv rank(1)],
          of "bwp_parent v"] g
      by (auto simp: check_invalid_ancestor_def)
  qed
qed

lemma on_insert_block_error_correct:
  assumes env: "tree_env L keys ents rk U" and inv: "tree_inv L keys ents rk U t" and "b \<in> U"
  shows "\<exists>r i. on_insert_block_error L (clone_sealed_block b) kind t =
       Some (r, t\<lparr>invalid_headers := i\<rparr>) \<and> ranked_entries rk (ents i) \<and>
     (case ensure_validation_error L kind of
        Inl fatal \<Rightarrow> r = Inl fatal
      | Inr msg \<Rightarrow> \<exists>st. r = Inr st \<and> status st = StatusInvalid msg \<and>
          (\<forall>h. latest_valid_hash st = Some h \<longrightarrow> stored t h \<noteq> None))"
proof (cases "ensure_validation_error L kind")
  case (Inl fatal)
  then show ?thesis
    using tree_invD(8) [OF inv]
    by (auto simp: on_insert_block_error_def intro!: exI [of _ "invalid_headers t"])
next
  case (Inr msg)
  obtain r i where l: "latest_valid_hash_for_invalid_payload L (parent_hash b) t =
      Some (r, t\<lparr>invalid_headers := i\<rparr>)"
    "ranked_entries rk (ents i)" "\<forall>h. r = Some h \<longrightarrow> stored t h \<noteq> None"
    using latest_valid_hash_correct [OF env inv] by blast
  have "rk (parent_hash b) < rk (hash b)"
    using tree_envD(5) [OF env \<open>b \<in> U\<close>] by (simp add: hash_ranked_def)
  then have "ranked_entries rk
      (ents (invalid_insert L (block_with_parent_of (clone_sealed_block b)) i))"
    by (intro invalid_insert_ranked(2) [OF tree_envD(3) [OF env] l(2)]) simp
  then show ?thesis
    using Inr l by (auto simp: on_insert_block_error_def Let_def)
qed


section \<open>Inserting a block\<close>

text \<open>What \<open>insert_block\<close> does on each of its branches.\<close>

definition insert_effect ::
  "('p, 'x, 'e, 'a, 'i, 'f, 'l) tree_lib \<Rightarrow> recovered_block \<Rightarrow> 'p option \<Rightarrow>
     ('p, 'i, 'f, 'l) engine_tree \<Rightarrow> insert_block_error_kind + insert_payload_ok \<Rightarrow>
     ('p, 'i, 'f, 'l) engine_tree \<Rightarrow> bool" where
  "insert_effect L b mp t r t' \<longleftrightarrow>
     (case r of
        Inl kind \<Rightarrow> t' = t \<and> stored t (hash b) = None \<and>
          ((\<exists>e. validate_block L (clone_sealed_block b) = Some e \<and> kind = KindConsensus e) \<or>
           (\<exists>p prf e. stored t (parent_hash b) = Some p \<and> mp = Some prf \<and>
              verify L (chain_state_of (provider t)) b (clone_sealed_header p) prf = Some e \<and>
              kind = kind_of_verifier_error e))
      | Inr AlreadySeen \<Rightarrow> t' = t \<and> stored t (hash b) \<noteq> None
      | Inr (Inserted s) \<Rightarrow>
          stored t (hash b) = None \<and> validate_block L (clone_sealed_block b) = None \<and>
          (case s of
             Valid \<Rightarrow> \<exists>p prf e. stored t (parent_hash b) = Some p \<and> mp = Some prf \<and>
               verify L (chain_state_of (provider t)) b (clone_sealed_header p) prf = None \<and>
               t' = emit_event e (t\<lparr>provider := provider_insert_block b (Some prf) (provider t)\<rparr>) \<and>
               (e = ForkBlockAdded b \<or> e = CanonicalBlockAdded b)
           | NoProof \<Rightarrow> stored t (parent_hash b) \<noteq> None \<and> mp = None \<and>
               t' = t\<lparr>block_buffer :=
                 Block_Buffer.insert_block (buffer_ops L) b (block_buffer t)\<rparr>
           | Disconnected head missing \<Rightarrow> stored t (parent_hash b) = None \<and>
               head = canonical_head t \<and>
               is_ancestor (buffered t) parent_hash (parent_hash b) (nh_hash missing) \<and>
               buffered t (nh_hash missing) = None \<and>
               t' = t\<lparr>block_buffer := Block_Buffer.insert_block (buffer_ops L) b
                 (case mp of Some p \<Rightarrow> insert_proof (hash b) p (block_buffer t)
                  | None \<Rightarrow> block_buffer t)\<rparr>))"

lemma tree_inv_provider_insert:
  assumes env: "tree_env L keys ents rk U" and inv: "tree_inv L keys ents rk U t" and "b \<in> U"
  shows "tree_inv L keys ents rk U (t\<lparr>provider := provider_insert_block b mp (provider t)\<rparr>)"
proof -
  have "cs_wf (Chain_State.insert_block b mp (chain_state_of (provider t)))"
    using cs_wf_insert_block [OF tree_invD(1) [OF inv]] tree_agrees(2) [OF env inv \<open>b \<in> U\<close>]
    by blast
  then show ?thesis using inv \<open>b \<in> U\<close> by (simp add: tree_inv_def)
qed

lemma missing_ancestor_correct:
  assumes env: "tree_env L keys ents rk U" and inv: "tree_inv L keys ents rk U t"
  shows "\<exists>r. lowest_ancestor (block_buffer t) (parent_hash b) = Some r \<and>
    (let m = nh_hash (case r of Some a \<Rightarrow> parent_num_hash L (clone_sealed_header a)
                      | None \<Rightarrow> parent_num_hash L (clone_sealed_header (b :: recovered_block)))
     in is_ancestor (buffered t) parent_hash (parent_hash b) m \<and> buffered t m = None)"
proof -
  have pnh: "nh_hash (parent_num_hash L (clone_sealed_header (a :: recovered_block))) = parent_hash a" for a
    using tree_envD(1) [OF env] by (simp add: parent_num_hash_law_def)
  obtain a where a: "lowest_buffered_ancestor_or t (parent_hash b) = Some a"
    "buffered t a = None" "is_ancestor (buffered t) parent_hash (parent_hash b) a"
    using lowest_buffered_ancestor_or_correct [OF tree_invD(4) [OF inv] tree_ranked(2) [OF env inv]]
    by blast
  then obtain r where "lowest_ancestor (block_buffer t) (parent_hash b) = Some r"
    "a = (case r of Some x \<Rightarrow> parent_hash x | None \<Rightarrow> parent_hash b)"
    by (auto simp: lowest_buffered_ancestor_or_def)
  then show ?thesis using a pnh by (auto simp: Let_def split: option.splits)
qed

lemma tree_insert_block_correct:
  assumes env: "tree_env L keys ents rk U" and inv: "tree_inv L keys ents rk U t" and b: "b \<in> U"
  shows "\<exists>r t'. insert_block L b mp t = Some (r, t') \<and> insert_effect L b mp t r t' \<and>
    tree_inv L keys ents rk U t'"
proof (cases "stored t (hash b)")
  case (Some x)
  then have "provider_sealed_header (provider t) (hash b) \<noteq> None"
    by (simp add: provider_sealed_header_None)
  then show ?thesis
    using Some inv by (simp add: Engine_Tree.insert_block_def insert_effect_def)
next
  case None
  note unseen = None
  then have seen: "provider_sealed_header (provider t) (hash b) = None"
    by (simp add: provider_sealed_header_None)
  show ?thesis
  proof (cases "validate_block L (clone_sealed_block b)")
    case (Some e)
    then show ?thesis
      using seen unseen inv by (simp add: Engine_Tree.insert_block_def insert_effect_def)
  next
    case None
    note val = None
    show ?thesis
    proof (cases "provider_sealed_header (provider t) (parent_hash b)")
      case None
      then have p: "stored t (parent_hash b) = None" by (simp add: provider_sealed_header_None)
      obtain r where r: "lowest_ancestor (block_buffer t) (parent_hash b) = Some r"
        "let m = nh_hash (case r of Some a \<Rightarrow> parent_num_hash L (clone_sealed_header a)
                      | None \<Rightarrow> parent_num_hash L (clone_sealed_header b))
         in is_ancestor (buffered t) parent_hash (parent_hash b) m \<and> buffered t m = None"
        using missing_ancestor_correct [OF env inv] by blast
      let ?buf = "case mp of Some p \<Rightarrow> insert_proof (hash b) p (block_buffer t)
                  | None \<Rightarrow> block_buffer t"
      have "tree_inv L keys ents rk U (t\<lparr>block_buffer := ?buf\<rparr>)"
        using inv tree_inv_insert_proof [OF inv] by (auto split: option.splits)
      from tree_inv_buffer_insert [OF env this b] show ?thesis
        using None p seen unseen val r
        by (simp add: Engine_Tree.insert_block_def insert_effect_def Let_def)
    next
      case (Some parent)
      then obtain pb where pb: "stored t (parent_hash b) = Some pb" "parent = clone_sealed_header pb"
        by (auto simp: provider_sealed_header_Some)
      show ?thesis
      proof (cases mp)
        case None
        then show ?thesis
          using Some pb seen unseen val tree_inv_buffer_insert [OF env inv b]
          by (simp add: Engine_Tree.insert_block_def insert_effect_def)
      next
        case (Some w)
        note mp = Some
        show ?thesis
        proof (cases "verify L (chain_state_of (provider t)) b parent w")
          case (Some e)
          then show ?thesis
            using \<open>provider_sealed_header (provider t) (parent_hash b) = Some parent\<close>
              mp pb seen unseen val inv
            by (simp add: Engine_Tree.insert_block_def insert_effect_def)
        next
          case None
          let ?t = "t\<lparr>provider := provider_insert_block b (Some w) (provider t)\<rparr>"
          have inv': "tree_inv L keys ents rk U ?t" by (rule tree_inv_provider_insert [OF env inv b])
          obtain f where f: "is_fork ?t (hash b) = Some f"
            using is_fork_returns [OF tree_invD(1) [OF inv'] tree_ranked(1) [OF env inv']] by blast
          define t' where "t' = emit_event (if f then ForkBlockAdded b else CanonicalBlockAdded b) ?t"
          have "insert_block L b mp t = Some (Inr (Inserted Valid), t')"
            using \<open>provider_sealed_header (provider t) (parent_hash b) = Some parent\<close>
              mp seen val f None
            by (simp add: Engine_Tree.insert_block_def t'_def)
          moreover have "insert_effect L b mp t (Inr (Inserted Valid)) t'"
            using pb mp unseen val None by (auto simp: insert_effect_def t'_def)
          moreover have "tree_inv L keys ents rk U t'"
            unfolding t'_def by (rule tree_inv_events [OF inv'])
          ultimately show ?thesis by blast
        qed
      qed
    qed
  qed
qed

end
