(* ===== verification/Canonical_Chain.thy ===== *)
theory Canonical_Chain
  imports Tree_Facts
begin

text \<open>
  The canonical chain of the engine tree: the chain update \<open>on_new_head\<close> finds for a new head, and
  the canonical hashes the provider holds once it is applied.
\<close>

section \<open>Chains of stored headers\<close>

text \<open>\<open>linked_chain pr a hs b\<close>: the stored headers \<open>hs\<close>, oldest first, lead from \<open>a\<close> up to \<open>b\<close>.\<close>

fun linked_chain :: "'p provider \<Rightarrow> b256 \<Rightarrow> sealed_header list \<Rightarrow> b256 \<Rightarrow> bool" where
  "linked_chain pr a [] b \<longleftrightarrow> a = b"
| "linked_chain pr a (h # hs) b \<longleftrightarrow>
     parent_hash h = a \<and> provider_sealed_header pr (hash h) = Some h \<and>
     linked_chain pr (hash h) hs b"

lemma linked_chain_append:
  "linked_chain pr a (hs @ hs') b \<longleftrightarrow> (\<exists>c. linked_chain pr a hs c \<and> linked_chain pr c hs' b)"
  by (induction hs arbitrary: a) auto

lemma linked_chain_last: "linked_chain pr a hs b \<Longrightarrow> hs \<noteq> [] \<Longrightarrow> hash (last hs) = b"
  by (induction hs arbitrary: a) (auto split: if_splits)

lemma linked_chain_stored:
  "linked_chain pr a hs b \<Longrightarrow> h \<in> set hs \<Longrightarrow> provider_sealed_header pr (hash h) = Some h"
  by (induction hs arbitrary: a) auto

lemma walk_new_chain_correct:
  assumes "walk_new_chain pr c n h hs = Some (n', h', hs')"
    and "cs_wf (chain_state_of pr)" and "linked_chain pr h (rev hs) x" and "hs \<noteq> []"
  shows "linked_chain pr h' (rev hs') x \<and> hs' \<noteq> [] \<and> \<not> c < n' \<and> n' \<le> n \<and> (n' < n \<longrightarrow> n' = c)"
  using assms
proof (induction pr c n h hs rule: walk_new_chain.induct)
  case (1 pr c n h hs)
  show ?case
  proof (cases "c < n")
    case False
    then show ?thesis using "1.prems" by (subst (asm) walk_new_chain.simps) simp
  next
    case True
    then obtain b where b: "provider_sealed_header pr h = Some b"
      and rec: "walk_new_chain pr c (n - 1) (parent_hash b) (hs @ [b]) = Some (n', h', hs')"
      using "1.prems"(1) by (subst (asm) walk_new_chain.simps) (auto split: option.splits)
    have "hash b = h"
      using b cs_wf_hash [OF "1.prems"(2)] by (auto simp: provider_sealed_header_Some)
    then have "linked_chain pr (parent_hash b) (rev (hs @ [b])) x" using "1.prems"(3) b by simp
    then have IH: "linked_chain pr h' (rev hs') x \<and> hs' \<noteq> [] \<and> \<not> c < n' \<and> n' \<le> n - 1 \<and>
        (n' < n - 1 \<longrightarrow> n' = c)"
      using "1.IH" [OF True b rec "1.prems"(2)] by simp
    have "n - 1 < n" "c \<le> n - 1"
      using True by (auto simp: word_less_nat_alt word_le_nat_alt unat_sub_if')
    then show ?thesis using IH by (auto simp: not_less)
  qed
qed

lemma walk_old_chain_correct:
  assumes "walk_old_chain pr c n h hs = Some (h', hs')"
    and "cs_wf (chain_state_of pr)" and "linked_chain pr h (rev hs) x"
  shows "linked_chain pr h' (rev hs') x \<and> (n < c \<longrightarrow> hs' \<noteq> []) \<and> (hs \<noteq> [] \<longrightarrow> hs' \<noteq> []) \<and>
    (\<not> n < c \<longrightarrow> hs' = hs \<and> h' = h)"
  using assms
proof (induction pr c n h hs rule: walk_old_chain.induct)
  case (1 pr c n h hs)
  show ?case
  proof (cases "n < c")
    case False
    then show ?thesis using "1.prems" by (subst (asm) walk_old_chain.simps) simp
  next
    case True
    then obtain b where b: "provider_sealed_header pr h = Some b"
      and rec: "walk_old_chain pr (c - 1) n (parent_hash b) (hs @ [b]) = Some (h', hs')"
      using "1.prems"(1) by (subst (asm) walk_old_chain.simps) (auto split: option.splits)
    have "hash b = h"
      using b cs_wf_hash [OF "1.prems"(2)] by (auto simp: provider_sealed_header_Some)
    then have "linked_chain pr (parent_hash b) (rev (hs @ [b])) x" using "1.prems"(3) b by simp
    then show ?thesis
      using "1.IH" [OF True b rec "1.prems"(2)] True by simp
  qed
qed

lemma walk_to_fork_correct:
  assumes wf: "cs_wf (chain_state_of pr)" and rank: "cs_ranked rk (chain_state_of pr)"
    and "linked_chain pr h\<^sub>o (rev os) x" and "linked_chain pr h\<^sub>n (rev ns) y" and "ns \<noteq> []"
  shows "\<exists>r. walk_to_fork pr h\<^sub>o h\<^sub>n os ns = Some r \<and>
    (\<forall>os' ns'. r = Some (os', ns') \<longrightarrow> (\<exists>a. linked_chain pr a (rev os') x \<and>
       linked_chain pr a (rev ns') y) \<and> ns' \<noteq> [] \<and> (h\<^sub>o \<noteq> h\<^sub>n \<or> os \<noteq> [] \<longrightarrow> os' \<noteq> []))"
  using assms(3-5)
proof (induction "rk h\<^sub>o" arbitrary: h\<^sub>o h\<^sub>n os ns rule: less_induct)
  case less
  show ?case
  proof (cases "h\<^sub>o = h\<^sub>n")
    case True
    then show ?thesis using less.prems by (subst walk_to_fork.simps) auto
  next
    case False
    note ne = this
    show ?thesis
    proof (cases "provider_sealed_header pr h\<^sub>o")
      case None
      then show ?thesis using ne by (subst walk_to_fork.simps) simp
    next
      case (Some o')
      note so = this
      then have o': "rk (parent_hash o') < rk h\<^sub>o" "hash o' = h\<^sub>o"
        using provider_sealed_header_rank [OF wf rank] by (auto simp: provider_sealed_header_def)
      show ?thesis
      proof (cases "provider_sealed_header pr h\<^sub>n")
        case None
        then show ?thesis using ne so by (subst walk_to_fork.simps) simp
      next
        case (Some n')
        then have n': "hash n' = h\<^sub>n"
          using provider_sealed_header_rank [OF wf rank] by (auto simp: provider_sealed_header_def)
        have "linked_chain pr (parent_hash o') (rev (os @ [o'])) x"
          "linked_chain pr (parent_hash n') (rev (ns @ [n'])) y"
          using less.prems o'(2) n' so Some by simp_all
        from less.hyps [OF o'(1) this] show ?thesis
          using ne so Some by (subst walk_to_fork.simps) auto
      qed
    qed
  qed
qed

text \<open>The chain update a new head gives.\<close>

definition new_head_effect :: "('p, 'i, 'f, 'l) engine_tree \<Rightarrow> b256 \<Rightarrow> new_canonical_chain \<Rightarrow> bool" where
  "new_head_effect t x c \<longleftrightarrow>
     (case c of
        Commit new \<Rightarrow> new \<noteq> [] \<and> linked_chain (provider t) (nh_hash (canonical_head t)) new x
      | Reorg new old \<Rightarrow> new \<noteq> [] \<and> old \<noteq> [] \<and>
          (\<exists>a. linked_chain (provider t) a new x \<and>
               linked_chain (provider t) a old (nh_hash (canonical_head t))))"

lemma on_new_head_correct:
  assumes env: "tree_env L keys ents rk U" and inv: "tree_inv L keys ents rk U t"
  shows "\<exists>r. on_new_head L t x = Some r \<and> (\<forall>c. r = Some c \<longrightarrow> new_head_effect t x c) \<and>
    (stored t x = None \<longrightarrow> r = None)"
proof (cases "provider_sealed_header (provider t) x")
  case None
  then show ?thesis by (simp add: on_new_head_def)
next
  case (Some b)
  note wf = tree_invD(1) [OF inv] and rank = tree_ranked(1) [OF env inv]
  let ?pr = "provider t" and ?c = "nh_number (canonical_head t)" and ?h = "nh_hash (canonical_head t)"
  let ?p = "parent_num_hash L b"
  have sx: "stored t x \<noteq> None" using Some by (metis option.distinct(1) provider_sealed_header_None)
  have b: "hash b = x"
    using provider_sealed_header_rank [OF wf rank] Some by (simp add: provider_sealed_header_def)
  have p: "nh_hash ?p = parent_hash b"
    using tree_envD(1) [OF env] by (simp add: parent_num_hash_law_def)
  show ?thesis
  proof (cases "walk_new_chain ?pr ?c (nh_number ?p) (nh_hash ?p) [b]")
    case None
    then show ?thesis using Some sx by (simp add: on_new_head_def)
  next
    case (Some r)
    then obtain n h hs where w: "walk_new_chain ?pr ?c (nh_number ?p) (nh_hash ?p) [b] = Some (n, h, hs)"
      by (cases r) auto
    have "linked_chain ?pr (nh_hash ?p) (rev [b]) x"
      using b p \<open>provider_sealed_header ?pr x = Some b\<close> by simp
    from walk_new_chain_correct [OF w wf this]
    have new: "linked_chain ?pr h (rev hs) x" "hs \<noteq> []" "\<not> ?c < n" by simp_all
    show ?thesis
    proof (cases "h = ?h")
      case True
      then have "on_new_head L t x = Some (Some (Commit (rev hs)))"
        using w \<open>provider_sealed_header ?pr x = Some b\<close> by (simp add: on_new_head_def)
      then show ?thesis using new True sx by (simp add: new_head_effect_def)
    next
      case False
      show ?thesis
      proof (cases "walk_old_chain ?pr ?c n ?h []")
        case None
        then show ?thesis
          using w False \<open>provider_sealed_header ?pr x = Some b\<close> sx by (simp add: on_new_head_def)
      next
        case (Some r)
        then obtain h\<^sub>o os where o': "walk_old_chain ?pr ?c n ?h [] = Some (h\<^sub>o, os)"
          by (cases r) auto
        have old: "linked_chain ?pr h\<^sub>o (rev os) ?h" "n < ?c \<longrightarrow> os \<noteq> []"
          "\<not> n < ?c \<longrightarrow> os = [] \<and> h\<^sub>o = ?h"
          using walk_old_chain_correct [OF o' wf] by simp_all
        obtain r' where r': "walk_to_fork ?pr h\<^sub>o h os hs = Some r'"
          and fork: "\<And>os' ns'. r' = Some (os', ns') \<Longrightarrow> (\<exists>a. linked_chain ?pr a (rev os') ?h \<and>
            linked_chain ?pr a (rev ns') x) \<and> ns' \<noteq> [] \<and> (h\<^sub>o \<noteq> h \<or> os \<noteq> [] \<longrightarrow> os' \<noteq> [])"
          using walk_to_fork_correct [OF wf rank old(1) new(1,2)] by blast
        have eq: "on_new_head L t x =
            Some (map_option (\<lambda>(os, ns). Reorg (rev ns) (rev os)) r')"
          using w o' r' False \<open>provider_sealed_header ?pr x = Some b\<close> by (simp add: on_new_head_def)
        have "h\<^sub>o \<noteq> h \<or> os \<noteq> []" using old(2,3) False by auto
        then have "new_head_effect t x c" if "map_option (\<lambda>(os, ns). Reorg (rev ns) (rev os)) r' = Some c" for c
          using that fork by (auto simp: new_head_effect_def)
        moreover have "stored t x \<noteq> None" by (rule sx)
        ultimately show ?thesis
          unfolding eq
          by (intro exI [of _ "map_option (\<lambda>(os, ns). Reorg (rev ns) (rev os)) r'"]) blast
      qed
    qed
  qed
qed

lemma chain_tip_correct:
  assumes "new_head_effect t x c"
  shows "\<exists>tip. chain_tip c = Some tip \<and> hash tip = x \<and> provider_sealed_header (provider t) x = Some tip"
proof -
  obtain new a where "new = (case c of Commit new \<Rightarrow> new | Reorg new old \<Rightarrow> new)" "new \<noteq> []"
    "linked_chain (provider t) a new x"
    using assms by (cases c) (auto simp: new_head_effect_def)
  then show ?thesis
    using linked_chain_last [of "provider t" a new x]
      linked_chain_stored [of "provider t" a new x "last new"]
    by (auto simp: chain_tip_def Let_def split: new_canonical_chain.splits)
qed


section \<open>The canonical chain\<close>

text \<open>
  \<open>nm\<close> gives the number plus one of the block of a hash. In a state of good heights, the number of
  a stored block is one above its parent's.
\<close>

definition heights :: "(b256 \<Rightarrow> nat) \<Rightarrow> 'p chain_state \<Rightarrow> bool" where
  "heights nm cs \<longleftrightarrow> (\<forall>h b. fmlookup (blocks_by_hash cs) h = Some b \<longrightarrow>
     nm h = Suc (unat (number b)) \<and> nm (parent_hash b) = unat (number b))"

abbreviation ancestor_in :: "'p chain_state \<Rightarrow> b256 \<Rightarrow> b256 \<Rightarrow> bool" where
  "ancestor_in cs \<equiv> is_ancestor (fmlookup (blocks_by_hash cs)) parent_hash"

abbreviation canonical :: "'p chain_state \<Rightarrow> u64 \<Rightarrow> b256 option" where
  "canonical cs \<equiv> fmlookup (canonical_hashes_by_number cs)"

text \<open>
  The canonical hashes are the chain of the head: nothing above it, the head at its number, and
  among the stored blocks exactly its ancestors, each at its own number.
\<close>

definition canonical_chain :: "'p chain_state \<Rightarrow> num_hash \<Rightarrow> bool" where
  "canonical_chain cs head \<longleftrightarrow>
     fmlookup (blocks_by_hash cs) (nh_hash head) \<noteq> None \<and>
     canonical cs (nh_number head) = Some (nh_hash head) \<and>
     (\<forall>k. nh_number head < k \<longrightarrow> canonical cs k = None) \<and>
     (\<forall>h b. fmlookup (blocks_by_hash cs) h = Some b \<longrightarrow>
        (\<forall>k. canonical cs k = Some h \<longleftrightarrow> k = number b \<and> ancestor_in cs (nh_hash head) h))"

lemma linked_chain_numbers:
  assumes "heights nm (chain_state_of pr)" "cs_wf (chain_state_of pr)"
  shows "linked_chain pr a hs b \<Longrightarrow>
    (\<forall>i < length hs. unat (number (hs ! i)) = nm a + i) \<and> nm b = nm a + length hs"
proof (induction hs arbitrary: a)
  case (Cons h hs)
  obtain c where c: "fmlookup (blocks_by_hash (chain_state_of pr)) (hash h) = Some c"
    "h = clone_sealed_header c" using Cons.prems by (auto simp: provider_sealed_header_Some)
  then have n: "nm (hash h) = Suc (unat (number h))" "nm a = unat (number h)"
    using assms(1) Cons.prems unfolding heights_def by (metis clone_sealed_header_sel(1), metis clone_sealed_header_sel(1,2) linked_chain.simps(2))
  have IH: "\<forall>i < length hs. unat (number (hs ! i)) = nm (hash h) + i" "nm b = nm (hash h) + length hs"
    using Cons.IH [of "hash h"] Cons.prems by simp_all
  have "unat (number ((h # hs) ! i)) = nm a + i" if "i < length (h # hs)" for i
    using that IH(1) n by (cases i) simp_all
  then show ?case using IH(2) n by simp
qed simp

lemma linked_chain_number_range:
  assumes "heights nm (chain_state_of pr)" "cs_wf (chain_state_of pr)" "linked_chain pr a hs b"
    and "h \<in> set hs"
  shows "nm a \<le> unat (number h)" and "unat (number h) < nm b"
  using linked_chain_numbers [OF assms(1,2,3)] assms(4) by (auto simp: in_set_conv_nth)

lemma linked_chain_number_inj:
  assumes "heights nm (chain_state_of pr)" "cs_wf (chain_state_of pr)" "linked_chain pr a hs b"
    and "h \<in> set hs" "h' \<in> set hs" "number h = number h'"
  shows "h = h'"
  using linked_chain_numbers [OF assms(1,2,3)] assms(4-6)
  by (auto simp: in_set_conv_nth) (metis add_left_cancel)

lemma linked_chain_number_onto:
  assumes "heights nm (chain_state_of pr)" "cs_wf (chain_state_of pr)" "linked_chain pr a hs b"
    and "nm a \<le> unat k" "unat k < nm b"
  shows "\<exists>h \<in> set hs. number h = k"
proof -
  have "unat k - nm a < length hs" "unat (number (hs ! (unat k - nm a))) = unat k"
    using linked_chain_numbers [OF assms(1,2,3)] assms(4,5) by auto
  then show ?thesis by (metis nth_mem unsigned_word_eqI)
qed

lemma linked_chain_ancestor:
  "linked_chain pr a hs b \<Longrightarrow> cs_wf (chain_state_of pr) \<Longrightarrow>
     ancestor_in (chain_state_of pr) b z \<longleftrightarrow>
       z \<in> hash ` set hs \<or> ancestor_in (chain_state_of pr) a z"
proof (induction hs arbitrary: b rule: rev_induct)
  case (snoc h hs)
  then have h: "parent_hash h = c" "provider_sealed_header pr (hash h) = Some h" "b = hash h"
    "linked_chain pr a hs c" if "c = parent_hash h" for c
    using that by (auto simp: linked_chain_append)
  obtain x where x: "fmlookup (blocks_by_hash (chain_state_of pr)) b = Some x" "parent_hash x = parent_hash h"
    using h by (auto simp: provider_sealed_header_Some)
  show ?case
  proof -
    have "ancestor_in (chain_state_of pr) b z \<longleftrightarrow>
        z = b \<or> ancestor_in (chain_state_of pr) (parent_hash x) z"
      using x(1) by (rule ancestor_step_iff)
    then show ?thesis
      using snoc.IH [OF h(4) [OF refl] snoc.prems(2)] h(3) [OF refl] x(2) by auto
  qed
qed simp

lemma ancestor_height:
  assumes "heights nm cs"
  shows "ancestor_in cs h a \<Longrightarrow> nm a \<le> nm h"
proof (induction rule: is_ancestor.induct)
  case (is_ancestor_step h b a)
  then show ?case using assms unfolding heights_def by fastforce
qed simp


lemma canonical_after_update:
  assumes hts: "heights nm (chain_state_of pr)" and wf: "cs_wf (chain_state_of pr)"
    and new: "linked_chain pr a new x"
  shows "canonical (chain_state_of (on_chain_update new old pr)) k = Some h \<longleftrightarrow>
    (\<exists>b \<in> set new. number b = k \<and> hash b = h) \<or>
    ((\<forall>b \<in> set new. number b \<noteq> k) \<and> canonical (chain_state_of pr) k = Some h \<and>
     (\<forall>b \<in> set old. \<not> (number b = k \<and> hash b = h)))"
proof (cases "find (\<lambda>h. number h = k) (rev new)")
  case None
  then have "\<forall>b \<in> set new. number b \<noteq> k" by (auto simp: find_None_iff)
  then show ?thesis by (auto simp: on_chain_update_canonical None)
next
  case (Some b)
  then have b: "b \<in> set new" "number b = k"
    using find_SomeD [OF Some] by simp_all
  have "b' = b" if "b' \<in> set new" "number b' = k" for b'
    using linked_chain_number_inj [OF hts wf new that(1) b(1)] that(2) b(2) by simp
  then have "(\<exists>b \<in> set new. number b = k \<and> hash b = h) \<longleftrightarrow> hash b = h" using b by blast
  then show ?thesis using b by (auto simp: on_chain_update_canonical Some)
qed

text \<open>A chain update leaves the canonical hashes of the new head's chain.\<close>

text \<open>Above the new tip nothing is canonical after an update.\<close>

lemma update_canonical_above:
  assumes hts: "heights nm (chain_state_of pr)" and wf: "cs_wf (chain_state_of pr)"
    and can: "canonical_chain (chain_state_of pr) head"
    and new: "linked_chain pr a new (hash tip)" "new \<noteq> []" "last new = tip"
    and old: "linked_chain pr a old (nh_hash head)"
    and k: "number tip < k"
  shows "canonical (chain_state_of (on_chain_update new old pr)) k = None"
proof (rule ccontr)
  let ?cs = "chain_state_of pr" and ?cs' = "chain_state_of (on_chain_update new old pr)"
  let ?lk = "fmlookup (blocks_by_hash ?cs)"
  assume "canonical ?cs' k \<noteq> None"
  then obtain h where h: "canonical ?cs' k = Some h" by blast
  note after = canonical_after_update [OF hts wf new(1), of old]
  have tip: "tip \<in> set new" using new(2,3) by auto
  have stored_new: "\<exists>b. ?lk (hash h) = Some b \<and> h = clone_sealed_header b" if "h \<in> set new" for h
    using linked_chain_stored [OF new(1) that] by (simp add: provider_sealed_header_Some)
  have stored_old: "\<exists>b. ?lk (hash h) = Some b \<and> h = clone_sealed_header b" if "h \<in> set old" for h
    using linked_chain_stored [OF old that] by (simp add: provider_sealed_header_Some)
  have nm_tip: "nm (hash tip) = Suc (unat (number tip))"
    using stored_new [OF tip] hts unfolding heights_def by fastforce
  obtain hb where hb: "?lk (nh_hash head) = Some hb" "number hb = nh_number head"
    using can unfolding canonical_chain_def by fastforce
  have nm_head: "nm (nh_hash head) = Suc (unat (nh_number head))"
    using hts hb unfolding heights_def by fastforce
  have nm_a: "nm a \<le> unat (number tip)" by (rule linked_chain_number_range(1) [OF hts wf new(1) tip])
  have anc_old: "ancestor_in ?cs (nh_hash head) z \<longleftrightarrow> z \<in> hash ` set old \<or> ancestor_in ?cs a z" for z
    by (rule linked_chain_ancestor [OF old wf])
  have "number b \<noteq> k" if "b \<in> set new" for b
    using linked_chain_number_range(2) [OF hts wf new(1) that] nm_tip k
    by (auto simp: word_less_nat_alt)
  with h have c: "canonical ?cs k = Some h" "\<forall>b \<in> set old. \<not> (number b = k \<and> hash b = h)"
    unfolding after by blast+
  moreover have "\<forall>k. nh_number head < k \<longrightarrow> canonical ?cs k = None"
    using can unfolding canonical_chain_def by blast
  ultimately have "k \<le> nh_number head" by (metis not_less option.distinct(1))
  then have "unat k < nm (nh_hash head)" using nm_head by (simp add: word_le_nat_alt)
  moreover have "nm a \<le> unat k" using nm_a k by (simp add: word_less_nat_alt)
  ultimately obtain b where b: "b \<in> set old" "number b = k"
    using linked_chain_number_onto [OF hts wf old] by blast
  obtain bb where bb: "?lk (hash b) = Some bb" "b = clone_sealed_header bb"
    using stored_old [OF b(1)] by blast
  have "ancestor_in ?cs (nh_hash head) (hash b)" using anc_old b(1) by blast
  then have "canonical ?cs k = Some (hash b)"
    using can bb b(2) unfolding canonical_chain_def by simp
  then have "h = hash b" using c(1) by simp
  then show False using c(2) b by blast
qed

text \<open>A stored block is canonical after an update exactly when it is an ancestor of the new tip.\<close>

lemma update_canonical_iff:
  assumes hts: "heights nm (chain_state_of pr)" and wf: "cs_wf (chain_state_of pr)"
    and can: "canonical_chain (chain_state_of pr) head"
    and new: "linked_chain pr a new (hash tip)" "new \<noteq> []" "last new = tip"
    and old: "linked_chain pr a old (nh_hash head)"
    and b: "fmlookup (blocks_by_hash (chain_state_of pr)) h = Some b"
  shows "canonical (chain_state_of (on_chain_update new old pr)) k = Some h \<longleftrightarrow>
    k = number b \<and> ancestor_in (chain_state_of pr) (hash tip) h"
proof -
  let ?cs = "chain_state_of pr" and ?cs' = "chain_state_of (on_chain_update new old pr)"
  let ?lk = "fmlookup (blocks_by_hash ?cs)"
  note after = canonical_after_update [OF hts wf new(1), of old]
  have stored_new: "\<exists>b. ?lk (hash h) = Some b \<and> h = clone_sealed_header b" if "h \<in> set new" for h
    using linked_chain_stored [OF new(1) that] by (simp add: provider_sealed_header_Some)
  have stored_old: "\<exists>b. ?lk (hash h) = Some b \<and> h = clone_sealed_header b" if "h \<in> set old" for h
    using linked_chain_stored [OF old that] by (simp add: provider_sealed_header_Some)
  have anc_new: "ancestor_in ?cs (hash tip) z \<longleftrightarrow> z \<in> hash ` set new \<or> ancestor_in ?cs a z" for z
    by (rule linked_chain_ancestor [OF new(1) wf])
  have anc_old: "ancestor_in ?cs (nh_hash head) z \<longleftrightarrow> z \<in> hash ` set old \<or> ancestor_in ?cs a z" for z
    by (rule linked_chain_ancestor [OF old wf])
  have hb': "hash b = h" by (rule cs_wf_hash [OF wf b])
  have can_iff: "canonical ?cs k = Some h \<longleftrightarrow> k = number b \<and> ancestor_in ?cs (nh_hash head) h"
    using can b unfolding canonical_chain_def by blast
  have in_chain: "x = clone_sealed_header b" if "x \<in> set new \<or> x \<in> set old" "hash x = h" for x
    using that b stored_new stored_old by fastforce
  have no_new: "\<forall>x \<in> set new. number x \<noteq> number b" if "ancestor_in ?cs a h"
  proof
    fix x assume "x \<in> set new"
    then have "nm a \<le> unat (number x)" by (rule linked_chain_number_range(1) [OF hts wf new(1)])
    moreover have "nm h \<le> nm a" by (rule ancestor_height [OF hts that])
    moreover have "nm h = Suc (unat (number b))" using hts b unfolding heights_def by blast
    ultimately show "number x \<noteq> number b" by auto
  qed
  have no_old: "\<forall>x \<in> set old. hash x \<noteq> h" if "ancestor_in ?cs a h"
  proof
    fix x assume x: "x \<in> set old"
    then have "nm a \<le> unat (number x)" by (rule linked_chain_number_range(1) [OF hts wf old])
    moreover have "nm h \<le> nm a" by (rule ancestor_height [OF hts that])
    moreover have "nm h = Suc (unat (number b))" using hts b unfolding heights_def by blast
    ultimately show "hash x \<noteq> h" using in_chain x by fastforce
  qed
  show ?thesis
  proof
    assume "canonical ?cs' k = Some h"
    then consider x where "x \<in> set new" "number x = k" "hash x = h"
      | "canonical ?cs k = Some h" "\<forall>x \<in> set old. \<not> (number x = k \<and> hash x = h)"
      unfolding after by blast
    then show "k = number b \<and> ancestor_in ?cs (hash tip) h"
    proof cases
      case (1 x)
      then show ?thesis using in_chain anc_new by force
    next
      case 2
      then have "k = number b" "ancestor_in ?cs (nh_hash head) h" using can_iff by blast+
      moreover have "h \<notin> hash ` set old" using 2(2) in_chain \<open>k = number b\<close> by fastforce
      ultimately show ?thesis using anc_old anc_new by blast
    qed
  next
    assume r: "k = number b \<and> ancestor_in ?cs (hash tip) h"
    then consider "h \<in> hash ` set new" | "ancestor_in ?cs a h" using anc_new by blast
    then show "canonical ?cs' k = Some h"
    proof cases
      case 1
      then show ?thesis using r in_chain unfolding after by fastforce
    next
      case 2
      then show ?thesis
        using r no_new no_old can_iff anc_old unfolding after by blast
    qed
  qed
qed

lemma chain_update_canonical_chain:
  assumes hts: "heights nm (chain_state_of pr)" and wf: "cs_wf (chain_state_of pr)"
    and can: "canonical_chain (chain_state_of pr) head"
    and new: "linked_chain pr a new (hash tip)" "new \<noteq> []" "last new = tip"
    and old: "linked_chain pr a old (nh_hash head)"
  shows "canonical_chain (chain_state_of (on_chain_update new old pr)) (num_hash tip)"
proof -
  have tip: "tip \<in> set new" using new(2,3) by auto
  have "\<exists>b. fmlookup (blocks_by_hash (chain_state_of pr)) (hash tip) = Some b"
    using linked_chain_stored [OF new(1) tip] by (auto simp: provider_sealed_header_Some)
  moreover have "canonical (chain_state_of (on_chain_update new old pr)) (number tip) = Some (hash tip)"
    unfolding canonical_after_update [OF hts wf new(1), of old] using tip by blast
  ultimately show ?thesis
    unfolding canonical_chain_def
    using update_canonical_above [OF assms] update_canonical_iff [OF assms] by auto
qed

end
