(* ===== verification/Tree_Invariant.thy ===== *)
theory Tree_Invariant
  imports Canonical_Chain
begin

text \<open>
  What every operation of the engine tree keeps, up to the connecting of buffered blocks: it
  returns, it keeps the invariant and the canonical chain, and it stores accepted blocks only.
\<close>

section \<open>What every operation of the tree keeps\<close>

text \<open>
  A verifier accepts a block only on top of the header of number one less; \<open>nm\<close> is the number of
  each block that occurs, plus one.
\<close>

definition numbers_checked ::
  "('p, 'x, 'e, 'a, 'i, 'f, 'l) tree_lib \<Rightarrow> (b256 \<Rightarrow> nat) \<Rightarrow> recovered_block set \<Rightarrow> bool" where
  "numbers_checked L nm U \<longleftrightarrow>
     (\<forall>cs b p w. verify L cs b p w = None \<longrightarrow> unat (number b) = Suc (unat (number p))) \<and>
     (\<forall>b \<in> U. nm (hash b) = Suc (unat (number b)))"

text \<open>
  Stored blocks lie at or above a floor, and a hash that is canonical or an ancestor of the head
  but not stored lies below it: such a block cannot be inserted, for its parent is not stored.
\<close>

definition above_floor :: "(b256 \<Rightarrow> nat) \<Rightarrow> 'p chain_state \<Rightarrow> num_hash \<Rightarrow> bool" where
  "above_floor nm cs head \<longleftrightarrow>
     (\<exists>m. (\<forall>h b. fmlookup (blocks_by_hash cs) h = Some b \<longrightarrow> m \<le> unat (number b)) \<and>
          (\<forall>h. fmlookup (blocks_by_hash cs) h = None \<longrightarrow>
             (\<exists>k. canonical cs k = Some h) \<or> ancestor_in cs (nh_hash head) h \<longrightarrow> nm h \<le> m))"

definition chain_ok :: "(b256 \<Rightarrow> nat) \<Rightarrow> 'p chain_state \<Rightarrow> num_hash \<Rightarrow> bool" where
  "chain_ok nm cs head \<longleftrightarrow>
     heights nm cs \<and> canonical_chain cs head \<and> above_floor nm cs head"

text \<open>A block the tree stores has passed the checks of the consensus and of the verifier.\<close>

definition accepted ::
  "('p, 'x, 'e, 'a, 'i, 'f, 'l) tree_lib \<Rightarrow> recovered_block \<Rightarrow> bool" where
  "accepted L b \<longleftrightarrow> validate_block L (clone_sealed_block b) = None \<and>
     (\<exists>cs p w. verify L cs b p w = None \<and> hash p = parent_hash b)"

definition tree_step ::
  "('p, 'x, 'e, 'a, 'i, 'f, 'l) tree_lib \<Rightarrow> (b256 \<Rightarrow> nat) \<Rightarrow> recovered_block set \<Rightarrow>
     ('p, 'i, 'f, 'l) engine_tree \<Rightarrow> ('p, 'i, 'f, 'l) engine_tree \<Rightarrow> bool" where
  "tree_step L nm U t t' \<longleftrightarrow>
     (numbers_checked L nm U \<longrightarrow> chain_ok nm (chain_state_of (provider t)) (canonical_head t) \<longrightarrow>
        chain_ok nm (chain_state_of (provider t')) (canonical_head t')) \<and>
     (\<forall>h b. stored t' h = Some b \<longrightarrow> stored t h = Some b \<or> accepted L b)"

lemma tree_step_refl [simp]: "tree_step L nm U t t"
  by (simp add: tree_step_def)

lemma tree_step_trans: "tree_step L nm U t t' \<Longrightarrow> tree_step L nm U t' t'' \<Longrightarrow> tree_step L nm U t t''"
  unfolding tree_step_def by blast

lemma tree_step_same:
  "chain_state_of (provider t') = chain_state_of (provider t) \<Longrightarrow>
     canonical_head t' = canonical_head t \<Longrightarrow> tree_step L nm U t t'"
  by (simp add: tree_step_def)

lemma ancestor_in_insert:
  assumes "fmlookup (blocks_by_hash cs) (hash b) = None" and "\<not> ancestor_in cs h (hash b)"
  shows "ancestor_in (Chain_State.insert_block b mp cs) h a \<longleftrightarrow> ancestor_in cs h a"
proof
  assume "ancestor_in (Chain_State.insert_block b mp cs) h a"
  then show "ancestor_in cs h a" using assms(2)
  proof (induction rule: is_ancestor.induct)
    case (is_ancestor_step h c a)
    then have c: "fmlookup (blocks_by_hash cs) h = Some c"
      by (auto split: if_splits intro: is_ancestor.intros)
    then have "\<not> ancestor_in cs (parent_hash c) (hash b)"
      using is_ancestor_step.prems by (meson is_ancestor.is_ancestor_step)
    then show ?case using is_ancestor_step.IH c by (meson is_ancestor.is_ancestor_step)
  qed (rule is_ancestor_refl)
next
  assume "ancestor_in cs h a"
  then show "ancestor_in (Chain_State.insert_block b mp cs) h a"
  proof (induction rule: is_ancestor.induct)
    case (is_ancestor_step h c a)
    then have "fmlookup (blocks_by_hash (Chain_State.insert_block b mp cs)) h = Some c"
      using assms(1) by auto
    then show ?case using is_ancestor_step.IH by (rule is_ancestor.is_ancestor_step)
  qed (rule is_ancestor_refl)
qed

lemma chain_ok_insert:
  assumes ok: "chain_ok nm cs head" and fresh: "fmlookup (blocks_by_hash cs) (hash b) = None"
    and p: "fmlookup (blocks_by_hash cs) (parent_hash b) = Some p"
    and num: "unat (number b) = Suc (unat (number p))" "nm (hash b) = Suc (unat (number b))"
  shows "chain_ok nm (Chain_State.insert_block b mp cs) head"
proof -
  let ?cs = "Chain_State.insert_block b mp cs"
  have hts: "heights nm cs" and can: "canonical_chain cs head" using ok by (simp_all add: chain_ok_def)
  obtain m where m: "\<And>h b. fmlookup (blocks_by_hash cs) h = Some b \<Longrightarrow> m \<le> unat (number b)"
    "\<And>h. fmlookup (blocks_by_hash cs) h = None \<Longrightarrow>
       (\<exists>k. canonical cs k = Some h) \<or> ancestor_in cs (nh_hash head) h \<Longrightarrow> nm h \<le> m"
    using ok unfolding chain_ok_def above_floor_def by blast
  have "m < nm (hash b)" using m(1) [OF p] num by simp
  then have new: "\<And>k. canonical cs k \<noteq> Some (hash b)" "\<not> ancestor_in cs (nh_hash head) (hash b)"
    using m(2) [OF fresh] by auto
  note anc = ancestor_in_insert [OF fresh new(2)]
  have "nm (parent_hash b) = Suc (unat (number p))" using hts p unfolding heights_def by blast
  then have h': "heights nm ?cs" using hts num unfolding heights_def by auto
  have "canonical_chain ?cs head"
    using can new unfolding canonical_chain_def anc by auto
  moreover have "above_floor nm ?cs head"
    unfolding above_floor_def anc
    using m m(1) [OF p] num(1) by (intro exI [of _ m]) (auto split: if_splits)
  ultimately show ?thesis using h' by (simp add: chain_ok_def)
qed

lemma insert_effect_step:
  assumes "tree_inv L keys ents rk U t" and "b \<in> U" and e: "insert_effect L b mp t r t'"
  shows "tree_step L nm U t t' \<and> stored t \<subseteq>\<^sub>m stored t' \<and> canonical_head t' = canonical_head t \<and>
    (r = Inr AlreadySeen \<or> r = Inr (Inserted Valid) \<longrightarrow> stored t' (hash b) \<noteq> None)"
proof (cases "r = Inr (Inserted Valid)")
  case True
  then obtain p w ev where p: "stored t (parent_hash b) = Some p"
    "verify L (chain_state_of (provider t)) b (clone_sealed_header p) w = None"
    "t' = emit_event ev (t\<lparr>provider := provider_insert_block b (Some w) (provider t)\<rparr>)"
    "stored t (hash b) = None" "validate_block L (clone_sealed_block b) = None"
    using e by (auto simp: insert_effect_def)
  then have t': "chain_state_of (provider t') =
      Chain_State.insert_block b (Some w) (chain_state_of (provider t))"
    "canonical_head t' = canonical_head t"
    by (simp_all add: emit_event_def)
  have "hash p = parent_hash b" by (rule tree_invD(3) [OF assms(1) p(1)])
  then have acc: "accepted L b" unfolding accepted_def using p(2,5) clone_sealed_header_sel(6) by metis
  have "chain_ok nm (chain_state_of (provider t')) (canonical_head t')"
    if "numbers_checked L nm U" "chain_ok nm (chain_state_of (provider t)) (canonical_head t)"
  proof -
    have "unat (number b) = Suc (unat (number p))" "nm (hash b) = Suc (unat (number b))"
      using that(1) p(2) \<open>b \<in> U\<close> unfolding numbers_checked_def
      by (metis clone_sealed_header_sel(1), metis)
    then show ?thesis unfolding t' by (rule chain_ok_insert [OF that(2) p(4,1)])
  qed
  moreover have "stored t h = Some c \<or> accepted L c" if "stored t' h = Some c" for h c
    using that acc t' by (auto split: if_splits)
  moreover have "stored t \<subseteq>\<^sub>m stored t'" using p(4) t'(1) by (auto simp: map_le_def dom_def)
  moreover have "stored t' (hash b) \<noteq> None" using t'(1) by simp
  ultimately show ?thesis unfolding tree_step_def using t'(2) by blast
next
  case False
  then have "chain_state_of (provider t') = chain_state_of (provider t)"
    "canonical_head t' = canonical_head t"
    "r = Inr AlreadySeen \<longrightarrow> stored t (hash b) \<noteq> None"
    using e
    by (auto simp: insert_effect_def split: sum.splits insert_payload_ok.splits block_status.splits)
  then show ?thesis using False by (simp add: tree_step_same)
qed

section \<open>Making a block canonical\<close>

lemma chain_update_ok:
  assumes ok: "chain_ok nm (chain_state_of pr) head" and wf: "cs_wf (chain_state_of pr)"
    and new: "linked_chain pr a new (hash tip)" "new \<noteq> []" "last new = tip"
    and old: "linked_chain pr a old (nh_hash head)"
  shows "chain_ok nm (chain_state_of (on_chain_update new old pr)) (num_hash tip)"
proof -
  let ?cs = "chain_state_of pr" and ?cs' = "chain_state_of (on_chain_update new old pr)"
  have hts: "heights nm ?cs" and can: "canonical_chain ?cs head" and fl: "above_floor nm ?cs head"
    using ok by (simp_all add: chain_ok_def)
  have "canonical_chain ?cs' (num_hash tip)"
    by (rule chain_update_canonical_chain [OF hts wf can new old])
  moreover have "heights nm ?cs'" using hts by (simp add: heights_def)
  moreover have "above_floor nm ?cs' (num_hash tip)"
  proof -
    have "(\<exists>k. canonical ?cs k = Some h) \<or> ancestor_in ?cs (nh_hash head) h"
      if "fmlookup (blocks_by_hash ?cs) h = None"
        "(\<exists>k. canonical ?cs' k = Some h) \<or> ancestor_in ?cs (hash tip) h" for h
    proof -
      have no: "h \<notin> hash ` set new"
        using linked_chain_stored [OF new(1)] that(1)
        by (metis image_iff option.distinct(1) provider_sealed_header_None)
      from that(2) show ?thesis
      proof
        assume "\<exists>k. canonical ?cs' k = Some h"
        then obtain k where "canonical ?cs' k = Some h" by blast
        then have "canonical ?cs k = Some h"
          using no unfolding canonical_after_update [OF hts wf new(1)] by auto
        then show ?thesis by blast
      next
        assume "ancestor_in ?cs (hash tip) h"
        then show ?thesis
          using no linked_chain_ancestor [OF new(1) wf] linked_chain_ancestor [OF old wf] by blast
      qed
    qed
    then show ?thesis using fl unfolding above_floor_def by simp blast
  qed
  ultimately show ?thesis by (simp add: chain_ok_def)
qed

lemma on_canonical_chain_update_correct:
  assumes inv: "tree_inv L keys ents rk U t" and e: "new_head_effect t x c"
  shows "\<exists>t'. on_canonical_chain_update c t = Some t' \<and> tree_inv L keys ents rk U t' \<and>
    tree_step L nm U t t' \<and> stored t' = stored t \<and> nh_hash (canonical_head t') = x \<and>
    block_buffer t' = block_buffer t \<and> invalid_headers t' = invalid_headers t \<and>
    forkchoice_state_tracker t' = forkchoice_state_tracker t"
proof -
  note wf = tree_invD(1) [OF inv]
  obtain tip where tip: "chain_tip c = Some tip" "hash tip = x"
    using chain_tip_correct [OF e] by blast
  define new where "new = (case c of Commit new \<Rightarrow> new | Reorg new old \<Rightarrow> new)"
  define old where "old = (case c of Commit new \<Rightarrow> [] | Reorg new old \<Rightarrow> old)"
  obtain a where new: "linked_chain (provider t) a new (hash tip)" "new \<noteq> []" "last new = tip"
    and old: "linked_chain (provider t) a old (nh_hash (canonical_head t))"
    using e tip
    by (cases c) (auto simp: new_head_effect_def new_def old_def chain_tip_def split: if_splits)
  define t' where "t' = emit_event (CanonicalChainCommitted tip)
    (set_canonical_head (num_hash tip) t\<lparr>provider := on_chain_update new old (provider t)\<rparr>)"
  have t': "on_canonical_chain_update c t = Some t'"
    using tip(1)
    by (cases c) (simp_all add: on_canonical_chain_update_def t'_def new_def old_def set_canonical_head_def)
  have sel: "chain_state_of (provider t') = chain_state_of (on_chain_update new old (provider t))"
    "canonical_head t' = num_hash tip" "block_buffer t' = block_buffer t"
    "invalid_headers t' = invalid_headers t"
    "forkchoice_state_tracker t' = forkchoice_state_tracker t"
    by (simp_all add: t'_def emit_event_def set_canonical_head_def)
  have "tree_inv L keys ents rk U t'"
    using inv sel by (simp add: tree_inv_def cs_wf_def)
  moreover have "tree_step L nm U t t'"
    unfolding tree_step_def sel using chain_update_ok [OF _ wf new old] by simp
  ultimately show ?thesis using t' sel tip(2) by simp
qed

lemma make_canonical_correct:
  assumes env: "tree_env L keys ents rk U" and inv: "tree_inv L keys ents rk U t"
  shows "\<exists>t'. make_canonical L x t = Some t' \<and> tree_inv L keys ents rk U t' \<and>
    tree_step L nm U t t' \<and> stored t' = stored t \<and>
    (canonical_head t' = canonical_head t \<or> nh_hash (canonical_head t') = x)"
proof -
  obtain r where r: "on_new_head L t x = Some r" "\<And>c. r = Some c \<Longrightarrow> new_head_effect t x c"
    using on_new_head_correct [OF env inv] by blast
  show ?thesis
  proof (cases r)
    case None
    then show ?thesis using r inv by (auto simp: make_canonical_def)
  next
    case (Some c)
    then show ?thesis
      using on_canonical_chain_update_correct [OF inv r(2) [OF Some], of nm] r(1)
      by (auto simp: make_canonical_def)
  qed
qed

section \<open>Connecting buffered blocks\<close>

text \<open>What a run of an operation keeps, when it does not remove stored blocks.\<close>

definition run_ok ::
  "('p, 'x, 'e, 'a, 'i, 'f, 'l) tree_lib \<Rightarrow> ('l \<Rightarrow> b256 list) \<Rightarrow> ('i \<Rightarrow> b256 \<rightharpoonup> block_with_parent) \<Rightarrow>
     (b256 \<Rightarrow> nat) \<Rightarrow> recovered_block set \<Rightarrow> (b256 \<Rightarrow> nat) \<Rightarrow>
     ('p, 'i, 'f, 'l) engine_tree \<Rightarrow> ('p, 'i, 'f, 'l) engine_tree \<Rightarrow> bool" where
  "run_ok L keys ents rk U nm t t' \<longleftrightarrow>
     tree_inv L keys ents rk U t' \<and> tree_step L nm U t t' \<and> stored t \<subseteq>\<^sub>m stored t'"

lemma run_ok_refl: "tree_inv L keys ents rk U t \<Longrightarrow> run_ok L keys ents rk U nm t t"
  by (simp add: run_ok_def)

lemma run_ok_trans:
  "run_ok L keys ents rk U nm t t' \<Longrightarrow> run_ok L keys ents rk U nm t' t'' \<Longrightarrow>
     run_ok L keys ents rk U nm t t''"
  unfolding run_ok_def using tree_step_trans map_le_trans by blast

lemma run_ok_inv: "run_ok L keys ents rk U nm t t' \<Longrightarrow> tree_inv L keys ents rk U t'"
  by (simp add: run_ok_def)

lemma run_ok_stored: "run_ok L keys ents rk U nm t t' \<Longrightarrow> stored t h \<noteq> None \<Longrightarrow> stored t' h \<noteq> None"
  unfolding run_ok_def map_le_def by (metis domIff)

lemma run_ok_invalid:
  "tree_inv L keys ents rk U t \<Longrightarrow> ranked_entries rk (ents i) \<Longrightarrow>
     run_ok L keys ents rk U nm t (t\<lparr>invalid_headers := i\<rparr>)"
  by (simp add: run_ok_def tree_inv_invalid tree_step_same)

lemma tree_buffer_insert_self:
  assumes env: "tree_env L keys ents rk U" and inv: "tree_inv L keys ents rk U t" and "b \<in> U"
  shows "fmlookup (blocks (Block_Buffer.insert_block (buffer_ops L) b (block_buffer t))) (hash b) = Some b"
proof -
  note ok = tree_invD(4,5) [OF inv]
  have "victim (buffer_ops L) keys (hash b) (block_buffer t) \<noteq> Some (hash b)"
  proof (cases "keys (lru (block_buffer t))")
    case Nil
    then show ?thesis using ok(2) by (simp add: victim_def word_less_nat_alt)
  qed (auto simp: victim_def)
  then show ?thesis
    using buffer_insert_block_spec [OF tree_envD(2) [OF env] ok tree_agrees(1) [OF assms]] by simp
qed

lemma insert_effect_buffered:
  assumes env: "tree_env L keys ents rk U" and inv: "tree_inv L keys ents rk U t" and b: "b \<in> U"
    and e: "insert_effect L b mp t (Inr (Inserted s)) t'" and "s \<noteq> Valid"
  shows "buffered t' (hash b) = Some b"
proof (cases s)
  case NoProof
  then show ?thesis using e tree_buffer_insert_self [OF env inv b] by (simp add: insert_effect_def)
next
  case (Disconnected head missing)
  let ?buf = "case mp of Some p \<Rightarrow> insert_proof (hash b) p (block_buffer t) | None \<Rightarrow> block_buffer t"
  have "tree_inv L keys ents rk U (t\<lparr>block_buffer := ?buf\<rparr>)"
    using inv tree_inv_insert_proof [OF inv] by (auto split: option.splits)
  then show ?thesis
    using e Disconnected tree_buffer_insert_self [OF env _ b] by (force simp: insert_effect_def)
qed (use assms in simp)

lemma insert_block_run:
  assumes env: "tree_env L keys ents rk U" and inv: "tree_inv L keys ents rk U t" and b: "b \<in> U"
  shows "\<exists>r t'. insert_block L b mp t = Some (r, t') \<and> insert_effect L b mp t r t' \<and>
    run_ok L keys ents rk U nm t t' \<and>
    (r = Inr AlreadySeen \<or> r = Inr (Inserted Valid) \<longrightarrow> stored t' (hash b) \<noteq> None) \<and>
    (\<forall>s. r = Inr (Inserted s) \<longrightarrow> s \<noteq> Valid \<longrightarrow> buffered t' (hash b) \<noteq> None)"
proof -
  obtain r t' where i: "insert_block L b mp t = Some (r, t')" "tree_inv L keys ents rk U t'"
    and e: "insert_effect L b mp t r t'"
    using tree_insert_block_correct [OF env inv b, of mp] by blast
  then show ?thesis
    using insert_effect_step [OF inv b e] insert_effect_buffered [OF env inv b, of mp _ t']
    unfolding run_ok_def by fastforce
qed

lemma make_canonical_run:
  assumes env: "tree_env L keys ents rk U" and inv: "tree_inv L keys ents rk U t"
  shows "\<exists>t'. make_canonical L x t = Some t' \<and> run_ok L keys ents rk U nm t t'"
  using make_canonical_correct [OF env inv, of x nm] unfolding run_ok_def by auto

lemma on_insert_block_error_run:
  assumes env: "tree_env L keys ents rk U" and inv: "tree_inv L keys ents rk U t" and "b \<in> U"
  shows "\<exists>r t'. on_insert_block_error L (clone_sealed_block b) kind t = Some (r, t') \<and>
    run_ok L keys ents rk U nm t t' \<and>
    (case ensure_validation_error L kind of
        Inl fatal \<Rightarrow> r = Inl fatal
      | Inr msg \<Rightarrow> \<exists>st. r = Inr st \<and> status st = StatusInvalid msg \<and>
          (\<forall>h. latest_valid_hash st = Some h \<longrightarrow> stored t h \<noteq> None))"
  using on_insert_block_error_correct [OF assms, of kind] run_ok_invalid [OF inv] by blast

lemma connect_blocks_run:
  assumes env: "tree_env L keys ents rk U"
  shows "tree_inv L keys ents rk U t \<Longrightarrow> \<forall>x \<in> set l. fst x \<in> U \<Longrightarrow>
    \<exists>r t'. connect_blocks L l t = Some (r, t') \<and> run_ok L keys ents rk U nm t t'"
proof (induction l arbitrary: t)
  case Nil
  then show ?case by (simp add: run_ok_refl)
next
  case (Cons x l)
  obtain c w where x: "x = (c, w)" by (cases x)
  obtain r t1 where i: "insert_block L c (Some w) t = Some (r, t1)"
    and run1: "run_ok L keys ents rk U nm t t1"
    using insert_block_run [OF env Cons.prems(1)] Cons.prems(2) x by force
  show ?case
  proof (cases r)
    case (Inl kind)
    obtain r2 t2 where e: "on_insert_block_error L (clone_sealed_block c) kind t1 = Some (r2, t2)"
      and run2: "run_ok L keys ents rk U nm t1 t2"
      using on_insert_block_error_run [OF env run_ok_inv [OF run1]] Cons.prems(2) x by force
    note run12 = run_ok_trans [OF run1 run2]
    obtain r3 t3 where c: "connect_blocks L l t2 = Some (r3, t3)"
      and run3: "run_ok L keys ents rk U nm t2 t3"
      using Cons.IH [OF run_ok_inv [OF run2]] Cons.prems(2) by auto
    show ?thesis
      using i e c run12 run_ok_trans [OF run12 run3] Inl x by (cases r2) auto
  next
    case (Inr res)
    let ?m = "if is_sync_target_head L t1 (hash c) \<and> res = Inserted Valid
      then make_canonical L (hash c) t1 else Some t1"
    have "\<exists>t2. ?m = Some t2 \<and> run_ok L keys ents rk U nm t1 t2"
      using make_canonical_run [OF env run_ok_inv [OF run1], of "hash c" nm]
        run_ok_refl [OF run_ok_inv [OF run1], of nm] by simp
    then obtain t2 where m: "?m = Some t2" and run2: "run_ok L keys ents rk U nm t1 t2" by blast
    note run12 = run_ok_trans [OF run1 run2]
    obtain r3 t3 where c: "connect_blocks L l t2 = Some (r3, t3)"
      and run3: "run_ok L keys ents rk U nm t2 t3"
      using Cons.IH [OF run_ok_inv [OF run2]] Cons.prems(2) by auto
    have "connect_blocks L (x # l) t = Some (r3, t3)"
      using i m c Inr by (simp add: x)
    then show ?thesis using run_ok_trans [OF run12 run3] by blast
  qed
qed

lemma try_connect_run:
  assumes env: "tree_env L keys ents rk U" and inv: "tree_inv L keys ents rk U t"
  shows "\<exists>r t'. try_connect_buffered_blocks L h t = Some (r, t') \<and> run_ok L keys ents rk U nm t t'"
proof -
  note laws = tree_envD(2) [OF env] and binv = tree_invD(4) [OF inv]
  obtain rs buf where rb: "remove_block_with_children (buffer_ops L) h (block_buffer t) = (rs, buf)"
    by (cases "remove_block_with_children (buffer_ops L) h (block_buffer t)")
  note spec = remove_block_with_children_spec [OF laws binv tree_ranked(2) [OF env inv] rb]
  have "lru_max_length (buffer_ops L) (lru buf) = lru_max_length (buffer_ops L) (lru (block_buffer t))"
    using remove_block_with_children_limit [OF laws, of h "block_buffer t"] rb by simp
  then have inv1: "tree_inv L keys ents rk U (t\<lparr>block_buffer := buf\<rparr>)"
    using inv spec unfolding tree_inv_def by (auto split: if_splits)
  have run1: "run_ok L keys ents rk U nm t (t\<lparr>block_buffer := buf\<rparr>)"
    using inv1 by (simp add: run_ok_def tree_step_same)
  have "\<forall>x \<in> set rs. fst x \<in> U"
    using spec tree_invD(6) [OF inv] by (auto simp: removable_Some)
  then show ?thesis
    using connect_blocks_run [OF env inv1, of rs nm] run1 run_ok_trans [OF run1]
    by (cases "rs = []") (auto simp: try_connect_buffered_blocks_def rb Let_def)
qed

end
