(* ===== verification/Tree_Handlers.thy ===== *)
theory Tree_Handlers
  imports Tree_Invariant
begin

text \<open>
  The handlers of the engine tree: new payloads, downloaded blocks and forkchoice updates return,
  keep the invariant and the canonical chain, and their answers are true of the tree.
\<close>

section \<open>Answers to payloads\<close>

definition answer_ok ::
  "('p, 'i, 'f, 'l) engine_tree \<Rightarrow> b256 \<Rightarrow> payload_status tree_outcome \<Rightarrow> bool" where
  "answer_ok t' h o' \<longleftrightarrow>
     (case status (outcome o') of
        StatusValid \<Rightarrow> latest_valid_hash (outcome o') = Some h \<and> stored t' h \<noteq> None \<and>
          (event o' = None \<or> event o' = Some (make_canonical_event h))
      | StatusSyncing \<Rightarrow> latest_valid_hash (outcome o') = None \<and> buffered t' h \<noteq> None \<and>
          (event o' = Some (download_proof_event h) \<or>
           (\<exists>m. event o' = Some (download_block_event m)))
      | StatusInvalid _ \<Rightarrow> event o' = None \<and>
          (\<forall>x. latest_valid_hash (outcome o') = Some x \<longrightarrow> x \<noteq> 0 \<longrightarrow> stored t' x \<noteq> None)
      | StatusAccepted \<Rightarrow> False)"

lemma with_maybe_event_sel [simp]:
  "outcome (with_maybe_event o' e) = outcome o'"
  "event (with_maybe_event (tree_outcome_new x) e) = e"
  by (auto simp: with_maybe_event_def split: option.splits)

lemma check_invalid_run:
  assumes env: "tree_env L keys ents rk U" and inv: "tree_inv L keys ents rk U t"
    and le: "rk c \<le> rk h"
  shows "\<exists>r t'. check_invalid_ancestor_with_head L c h t = Some (r, t') \<and>
    run_ok L keys ents rk U nm t t' \<and>
    (\<forall>st. r = Some st \<longrightarrow> answer_ok t' x (tree_outcome_new st))"
  using check_invalid_ancestor_with_head_correct [OF assms] run_ok_invalid [OF inv]
  by (fastforce simp: answer_ok_def)

lemma insert_error_answer:
  assumes env: "tree_env L keys ents rk U" and inv: "tree_inv L keys ents rk U t" and "b \<in> U"
  shows "\<exists>r t'. on_insert_block_error L (clone_sealed_block b) kind t = Some (r, t') \<and>
    run_ok L keys ents rk U nm t t' \<and>
    (\<forall>st. r = Inr st \<longrightarrow> answer_ok t' x (tree_outcome_new st))"
  using on_insert_block_error_correct [OF assms, of kind] run_ok_invalid [OF inv]
  by (fastforce simp: answer_ok_def split: sum.splits)

text \<open>The insertion of a block with what the handlers may go on with: connecting others, or the error.\<close>

lemma insert_block_continued:
  assumes env: "tree_env L keys ents rk U" and inv: "tree_inv L keys ents rk U t" and b: "b \<in> U"
  obtains r t2 f t3 re te where "insert_block L b mp t = Some (r, t2)" and "run_ok L keys ents rk U nm t t2"
    and "r = Inr AlreadySeen \<or> r = Inr (Inserted Valid) \<Longrightarrow> stored t3 (hash b) \<noteq> None"
    and "r = Inr AlreadySeen \<Longrightarrow> stored t2 (hash b) \<noteq> None"
    and "\<And>s. r = Inr (Inserted s) \<Longrightarrow> s \<noteq> Valid \<Longrightarrow> buffered t2 (hash b) \<noteq> None"
    and "try_connect_buffered_blocks L (hash b) t2 = Some (f, t3)" and "run_ok L keys ents rk U nm t t3"
    and "\<And>kind. r = Inl kind \<Longrightarrow> on_insert_block_error L (clone_sealed_block b) kind t2 = Some (re, te)"
    and "run_ok L keys ents rk U nm t te"
    and "\<And>kind st. r = Inl kind \<Longrightarrow> re = Inr st \<Longrightarrow> answer_ok te (hash b) (tree_outcome_new st)"
proof -
  obtain r t2 where i: "insert_block L b mp t = Some (r, t2)" "run_ok L keys ents rk U nm t t2"
    "r = Inr AlreadySeen \<or> r = Inr (Inserted Valid) \<longrightarrow> stored t2 (hash b) \<noteq> None"
    "\<And>s. r = Inr (Inserted s) \<Longrightarrow> s \<noteq> Valid \<Longrightarrow> buffered t2 (hash b) \<noteq> None"
    using insert_block_run [OF env inv b, of mp nm] by blast
  note inv2 = run_ok_inv [OF i(2)]
  obtain f t3 where f: "try_connect_buffered_blocks L (hash b) t2 = Some (f, t3)" "run_ok L keys ents rk U nm t2 t3"
    using try_connect_run [OF env inv2] by blast
  obtain re te where e: "\<And>kind. r = Inl kind \<Longrightarrow>
      on_insert_block_error L (clone_sealed_block b) kind t2 = Some (re, te)"
    "run_ok L keys ents rk U nm t2 te"
    "\<And>st. r = Inl (projl r) \<Longrightarrow> re = Inr st \<Longrightarrow> answer_ok te (hash b) (tree_outcome_new st)"
    using insert_error_answer [OF env inv2 b, of "projl r" nm "hash b"] by (cases r) force+
  show ?thesis
  proof (rule that [OF i(1,2) _ _ i(4) f(1) _ e(1)])
    show "run_ok L keys ents rk U nm t t3" by (rule run_ok_trans [OF i(2) f(2)])
    show "run_ok L keys ents rk U nm t te" by (rule run_ok_trans [OF i(2) e(2)])
    show "stored t3 (hash b) \<noteq> None" if "r = Inr AlreadySeen \<or> r = Inr (Inserted Valid)"
      using that i(3) run_ok_stored [OF f(2)] by blast
  qed (use i(3) e(3) in auto)
qed

lemma on_downloaded_block_run:
  assumes env: "tree_env L keys ents rk U" and inv: "tree_inv L keys ents rk U t" and b: "b \<in> U"
  shows "\<exists>r t'. on_downloaded_block L b w t = Some (r, t') \<and> run_ok L keys ents rk U nm t t' \<and>
    (\<forall>o'. r = Inr o' \<longrightarrow> answer_ok t' (hash b) o')"
proof -
  obtain a where a: "lowest_buffered_ancestor_or t (hash b) = Some a" "rk a \<le> rk (hash b)"
    using lowest_buffered_ancestor_or_correct [OF tree_invD(4) [OF inv] tree_ranked(2) [OF env inv]]
    by blast
  obtain c t1 where c: "check_invalid_ancestor_with_head L a (hash b) t = Some (c, t1)"
    and run1: "run_ok L keys ents rk U nm t t1"
    and ans1: "\<And>st. c = Some st \<Longrightarrow> answer_ok t1 (hash b) (tree_outcome_new st)"
    using check_invalid_run [OF env inv a(2), of nm "hash b"] by blast
  show ?thesis
  proof (cases c)
    case (Some st)
    then show ?thesis using a c run1 ans1 by (auto simp: on_downloaded_block_def)
  next
    case None
    note inv1 = run_ok_inv [OF run1]
    obtain r t2 f t3 re te where i: "insert_block L b (Some w) t1 = Some (r, t2)"
      and run: "run_ok L keys ents rk U nm t1 t2"
      and st: "r = Inr AlreadySeen \<or> r = Inr (Inserted Valid) \<Longrightarrow> stored t3 (hash b) \<noteq> None"
        "r = Inr AlreadySeen \<Longrightarrow> stored t2 (hash b) \<noteq> None"
        "\<And>s. r = Inr (Inserted s) \<Longrightarrow> s \<noteq> Valid \<Longrightarrow> buffered t2 (hash b) \<noteq> None"
      and f: "try_connect_buffered_blocks L (hash b) t2 = Some (f, t3)" "run_ok L keys ents rk U nm t1 t3"
      and e: "\<And>kind. r = Inl kind \<Longrightarrow> on_insert_block_error L (clone_sealed_block b) kind t2 = Some (re, te)"
        "run_ok L keys ents rk U nm t1 te"
        "\<And>kind st. r = Inl kind \<Longrightarrow> re = Inr st \<Longrightarrow> answer_ok te (hash b) (tree_outcome_new st)"
      by (rule insert_block_continued [OF env inv1 b, of "Some w" nm]) (rule that)
    note run2 = run_ok_trans [OF run1 run]
    have red: "on_downloaded_block L b w t =
      do {
        (r, t) \<leftarrow>
          (case r of
             Inr (Inserted Valid) \<Rightarrow> do {
               let maybe_event =
                 (if is_sync_target_head L t2 (hash b)
                  then Some (make_canonical_event (hash b)) else None);
               (fatal, t) \<leftarrow> try_connect_buffered_blocks L (hash b) t2;
               (case fatal of
                  Some e \<Rightarrow> Some (Inl e, t)
                | None \<Rightarrow>
                    Some (Inr (payload_status_new StatusValid (Some (hash b)), maybe_event), t))
             }
           | Inr AlreadySeen \<Rightarrow>
               Some (Inr (payload_status_new StatusValid (Some (hash b)), None), t2)
           | Inr (Inserted (Disconnected _ missing)) \<Rightarrow>
               Some (Inr (payload_status_new StatusSyncing None,
                          Some (download_block_event (nh_hash missing))), t2)
           | Inr (Inserted NoProof) \<Rightarrow>
               Some (Inr (payload_status_new StatusSyncing None,
                          Some (download_proof_event (hash b))), t2)
           | Inl kind \<Rightarrow> do {
               (r, t) \<leftarrow> on_insert_block_error L (clone_sealed_block b) kind t2;
               Some (map_sum id (\<lambda>st. (st, None)) r, t)
             });
        Some (map_sum id
          (\<lambda>(st, maybe_event). with_maybe_event (tree_outcome_new st) maybe_event)
          r, t)
      }"
      using a c i None by (simp add: on_downloaded_block_def Let_def)
    show ?thesis
    proof (cases r)
      case (Inl kind)
      then show ?thesis
        unfolding red using e run_ok_trans [OF run1 e(2)]
        by (cases re) (auto simp: with_maybe_event_def)
    next
      case (Inr ok)
      show ?thesis
      proof (cases "ok = Inserted Valid")
        case True
        then show ?thesis
          unfolding red using Inr f run_ok_trans [OF run1 f(2)] st
          by (cases f) (auto simp: answer_ok_def)
      next
        case False
        then show ?thesis
          unfolding red using Inr run2 st
          by (cases ok; cases "case ok of Inserted s \<Rightarrow> s") (auto simp: answer_ok_def split: block_status.splits)
      qed
    qed
  qed
qed

text \<open>
  Documented behaviour of the payload validator: a well-formed payload is the block it names by
  hash, and its errors are reported as an invalid status.
\<close>

definition payload_laws ::
  "('p, 'x, 'e, 'a, 'i, 'f, 'l) tree_lib \<Rightarrow> recovered_block set \<Rightarrow> bool" where
  "payload_laws L U \<longleftrightarrow>
     (\<forall>x b. ensure_well_formed_payload L x = Inr b \<longrightarrow> b \<in> U \<and> hash b = payload_block_hash L x) \<and>
     (\<forall>e. \<exists>m. status_of_payload_error L e = StatusInvalid m)"

text \<open>A payload that is not well formed is invalid; its answer names a stored ancestor where it may.\<close>

lemma on_malformed_payload_run:
  assumes env: "tree_env L keys ents rk U" and inv: "tree_inv L keys ents rk U t"
    and pl: "payload_laws L U" and Inl: "ensure_well_formed_payload L x = Inl e"
  shows "\<exists>r t'. on_new_payload L x mp t = Some (r, t') \<and> run_ok L keys ents rk U nm t t' \<and>
    (\<forall>o'. r = Inr o' \<longrightarrow> answer_ok t' (payload_block_hash L x) o')"
proof -
  obtain m where m: "status_of_payload_error L e = StatusInvalid m"
    using pl unfolding payload_laws_def by blast
  obtain h i where l: "latest_valid_hash_for_invalid_payload L (payload_parent_hash L x) t =
      Some (h, t\<lparr>invalid_headers := i\<rparr>)"
    "ranked_entries rk (ents i)" "\<forall>y. h = Some y \<longrightarrow> stored t y \<noteq> None"
    using latest_valid_hash_correct [OF env inv] by blast
  show ?thesis
  proof (cases "is_block_hash_mismatch L e \<or> is_invalid_versioned_hashes L e")
    case True
    then show ?thesis
      using Inl m run_ok_refl [OF inv] by (simp add: on_new_payload_def answer_ok_def)
  next
    case False
    then show ?thesis
      using Inl m l run_ok_invalid [OF inv l(2)] by (simp add: on_new_payload_def answer_ok_def)
  qed
qed

lemma on_new_payload_run:
  assumes env: "tree_env L keys ents rk U" and inv: "tree_inv L keys ents rk U t"
    and pl: "payload_laws L U"
  shows "\<exists>r t'. on_new_payload L x mp t = Some (r, t') \<and> run_ok L keys ents rk U nm t t' \<and>
    (\<forall>o'. r = Inr o' \<longrightarrow> answer_ok t' (payload_block_hash L x) o')"
proof (cases "ensure_well_formed_payload L x")
  case (Inl e)
  then show ?thesis by (rule on_malformed_payload_run [OF env inv pl])
next
  case (Inr b)
  have b: "b \<in> U" and hb: "payload_block_hash L x = hash b"
    using pl Inr unfolding payload_laws_def by auto
  obtain a where a: "lowest_buffered_ancestor_or t (hash b) = Some a" "rk a \<le> rk (hash b)"
    using lowest_buffered_ancestor_or_correct [OF tree_invD(4) [OF inv] tree_ranked(2) [OF env inv]]
    by blast
  define a' where "a' = (if a = hash b then parent_hash b else a)"
  have le: "rk a' \<le> rk (hash b)"
    using a(2) tree_envD(5) [OF env b] by (auto simp: a'_def hash_ranked_def)
  obtain c t1 where c: "check_invalid_ancestor_with_head L a' (hash b) t = Some (c, t1)"
    and run1: "run_ok L keys ents rk U nm t t1"
    and ans1: "\<And>st. c = Some st \<Longrightarrow> answer_ok t1 (hash b) (tree_outcome_new st)"
    using check_invalid_run [OF env inv le, of nm "hash b"] by blast
  show ?thesis
  proof (cases c)
    case (Some st)
    then show ?thesis
      using Inr a c run1 ans1 unfolding a'_def hb by (auto simp: on_new_payload_def Let_def)
  next
    case None
    note inv1 = run_ok_inv [OF run1]
    obtain r t2 f t3 re te where i: "insert_block L b mp t1 = Some (r, t2)"
      and run: "run_ok L keys ents rk U nm t1 t2"
      and st: "r = Inr AlreadySeen \<or> r = Inr (Inserted Valid) \<Longrightarrow> stored t3 (hash b) \<noteq> None"
        "r = Inr AlreadySeen \<Longrightarrow> stored t2 (hash b) \<noteq> None"
        "\<And>s. r = Inr (Inserted s) \<Longrightarrow> s \<noteq> Valid \<Longrightarrow> buffered t2 (hash b) \<noteq> None"
      and f: "try_connect_buffered_blocks L (hash b) t2 = Some (f, t3)" "run_ok L keys ents rk U nm t1 t3"
      and e: "\<And>kind. r = Inl kind \<Longrightarrow> on_insert_block_error L (clone_sealed_block b) kind t2 = Some (re, te)"
        "run_ok L keys ents rk U nm t1 te"
        "\<And>kind st. r = Inl kind \<Longrightarrow> re = Inr st \<Longrightarrow> answer_ok te (hash b) (tree_outcome_new st)"
      by (rule insert_block_continued [OF env inv1 b, of mp nm]) (rule that)
    note run2 = run_ok_trans [OF run1 run]
    have red: "on_new_payload L x mp t =
      do {
        (r, t) \<leftarrow>
          (case r of
             Inr (Inserted (Disconnected _ missing)) \<Rightarrow>
               Some (Inr (payload_status_new StatusSyncing None,
                          Some (download_block_event (nh_hash missing))), t2)
           | Inr (Inserted NoProof) \<Rightarrow>
               Some (Inr (payload_status_new StatusSyncing None,
                          Some (download_proof_event (hash b))), t2)
           | Inr _ \<Rightarrow> do {
               (fatal, t) \<leftarrow> try_connect_buffered_blocks L (hash b) t2;
               (case fatal of
                  Some e \<Rightarrow> Some (Inl e, t)
                | None \<Rightarrow>
                    Some (Inr (payload_status_new StatusValid (Some (hash b)),
                      if is_sync_target_head L t (hash b)
                      then Some (make_canonical_event (hash b)) else None), t))
             }
           | Inl kind \<Rightarrow> do {
               (r, t) \<leftarrow> on_insert_block_error L (clone_sealed_block b) kind t2;
               Some (map_sum id (\<lambda>st. (st, None)) r, t)
             });
        Some (map_sum id
          (\<lambda>(st, maybe_event). with_maybe_event (tree_outcome_new st) maybe_event)
          r, t)
      }"
      using Inr a(1) c i None unfolding a'_def by (simp add: on_new_payload_def Let_def)
    show ?thesis
      unfolding hb
    proof (cases r)
      case (Inl kind)
      then show "\<exists>r t'. on_new_payload L x mp t = Some (r, t') \<and> run_ok L keys ents rk U nm t t' \<and>
          (\<forall>o'. r = Inr o' \<longrightarrow> answer_ok t' (hash b) o')"
        unfolding red using e run_ok_trans [OF run1 e(2)]
        by (cases re) (auto simp: with_maybe_event_def)
    next
      case (Inr ok)
      show "\<exists>r t'. on_new_payload L x mp t = Some (r, t') \<and> run_ok L keys ents rk U nm t t' \<and>
          (\<forall>o'. r = Inr o' \<longrightarrow> answer_ok t' (hash b) o')"
      proof (cases "ok = AlreadySeen \<or> ok = Inserted Valid")
        case True
        then show ?thesis
          unfolding red using Inr f run_ok_trans [OF run1 f(2)] st
          by (cases f) (auto simp: answer_ok_def)
      next
        case False
        then show ?thesis
          unfolding red using Inr run2 st
          by (cases ok; cases "case ok of Inserted s \<Rightarrow> s") (auto simp: answer_ok_def split: block_status.splits)
      qed
    qed
  qed
qed

section \<open>Finality\<close>

lemma remove_finalized_sel:
  assumes wf: "cs_wf cs"
  shows "fmlookup (blocks_by_hash (remove_blocks_on_finalized f cs)) h = Some b \<longleftrightarrow>
      fmlookup (blocks_by_hash cs) h = Some b \<and>
      (\<forall>fb. fmlookup (blocks_by_hash cs) f = Some fb \<longrightarrow> number fb \<le> number b)"
    and "canonical (remove_blocks_on_finalized f cs) k = Some c \<longleftrightarrow>
      canonical cs k = Some c \<and>
      (\<forall>fb. fmlookup (blocks_by_hash cs) f = Some fb \<longrightarrow> unat (number fb) - 256 \<le> unat k)"
  using remove_blocks_on_finalized_unknown [of cs f] remove_blocks_on_finalized_lookup [OF wf]
  by (cases "fmlookup (blocks_by_hash cs) f";
      auto simp: word_less_nat_alt unat_saturating_sub word_le_nat_alt split: option.splits)+

text \<open>Pruning keeps the ancestors from the finalized block on, and invents none.\<close>

lemma prune_ancestor_down:
  assumes wf: "cs_wf cs" and hts: "heights nm cs" and fb: "fmlookup (blocks_by_hash cs) f = Some fb"
    and "ancestor_in cs x h" "fmlookup (blocks_by_hash cs) h = Some b" "number fb \<le> number b"
  shows "ancestor_in (remove_blocks_on_finalized f cs) x h"
  using assms(4-6)
proof (induction rule: is_ancestor.induct)
  case (is_ancestor_step x c h)
  note sel = remove_finalized_sel [OF wf, of f, unfolded fb, simplified]
  have "nm h \<le> nm (parent_hash c)" using ancestor_height [OF hts is_ancestor_step.hyps(2)] .
  moreover have "nm (parent_hash c) = unat (number c)" "nm h = Suc (unat (number b))"
    using hts is_ancestor_step.hyps(1) is_ancestor_step.prems(1) unfolding heights_def by blast+
  ultimately have "number fb \<le> number c"
    using is_ancestor_step.prems(2) by (simp add: word_le_nat_alt)
  then have "fmlookup (blocks_by_hash (remove_blocks_on_finalized f cs)) x = Some c"
    using is_ancestor_step.hyps(1) sel(1) by blast
  then show ?case
    using is_ancestor_step.IH [OF is_ancestor_step.prems] by (rule is_ancestor.is_ancestor_step)
qed (rule is_ancestor_refl)

lemma prune_ancestor_up:
  assumes wf: "cs_wf cs" and fb: "fmlookup (blocks_by_hash cs) f = Some fb"
    and "ancestor_in (remove_blocks_on_finalized f cs) x h"
  shows "ancestor_in cs x h"
  using assms(3)
proof (induction rule: is_ancestor.induct)
  case (is_ancestor_step x c h)
  then have "fmlookup (blocks_by_hash cs) x = Some c"
    using remove_finalized_sel [OF wf, of f, unfolded fb, simplified] by blast
  then show ?case using is_ancestor_step.IH by (rule is_ancestor.is_ancestor_step)
qed (rule is_ancestor_refl)

lemma prune_above_floor:
  assumes wf: "cs_wf cs" and hts: "heights nm cs" and fl: "above_floor nm cs head"
    and Some: "fmlookup (blocks_by_hash cs) f = Some fb"
  shows "above_floor nm (remove_blocks_on_finalized f cs) head"
proof -
  let ?cs = "remove_blocks_on_finalized f cs"
  note sel = remove_finalized_sel [OF wf, of f, unfolded Some, simplified] and up = prune_ancestor_up [OF wf Some]
  obtain m where m: "\<And>h b. fmlookup (blocks_by_hash cs) h = Some b \<Longrightarrow> m \<le> unat (number b)"
    "\<And>h. fmlookup (blocks_by_hash cs) h = None \<Longrightarrow>
       (\<exists>k. canonical cs k = Some h) \<or> ancestor_in cs (nh_hash head) h \<Longrightarrow> nm h \<le> m"
    using fl unfolding above_floor_def by blast
  have "nm h \<le> max m (unat (number fb))"
    if "fmlookup (blocks_by_hash ?cs) h = None"
      "(\<exists>k. canonical ?cs k = Some h) \<or> ancestor_in ?cs (nh_hash head) h" for h
  proof (cases "fmlookup (blocks_by_hash cs) h")
    case None
    then show ?thesis using m(2) [OF None] that(2) sel(2) up by (meson max.coboundedI1)
  next
    case (Some b)
    then have "\<not> number fb \<le> number b" using that(1) sel(1) by (metis option.distinct(1))
    moreover have "nm h = Suc (unat (number b))" using hts Some unfolding heights_def by blast
    ultimately show ?thesis by (simp add: word_le_nat_alt)
  qed
  moreover have "max m (unat (number fb)) \<le> unat (number b)"
    if "fmlookup (blocks_by_hash ?cs) h = Some b" for h b
    using that sel(1) [of h b] m(1) [of h b] by (simp add: word_le_nat_alt)
  ultimately show ?thesis unfolding above_floor_def by blast
qed

lemma prune_ok:
  assumes ok: "chain_ok nm cs head" and wf: "cs_wf cs" and can_f: "canonical cs kf = Some f"
  shows "chain_ok nm (remove_blocks_on_finalized f cs) head"
proof (cases "fmlookup (blocks_by_hash cs) f")
  case None
  then show ?thesis using ok by (simp add: remove_blocks_on_finalized_unknown)
next
  case (Some fb)
  let ?cs = "remove_blocks_on_finalized f cs"
  have hts: "heights nm cs" and can: "canonical_chain cs head" and fl: "above_floor nm cs head"
    using ok by (simp_all add: chain_ok_def)
  note sel = remove_finalized_sel [OF wf, of f, unfolded Some, simplified]
  have "kf = number fb" using can can_f Some unfolding canonical_chain_def by blast
  then have le: "number fb \<le> nh_number head"
    using can can_f unfolding canonical_chain_def by (metis not_less option.distinct(1))
  obtain hb where hb: "fmlookup (blocks_by_hash cs) (nh_hash head) = Some hb"
    using can unfolding canonical_chain_def by blast
  then have nhb: "number hb = nh_number head" using can unfolding canonical_chain_def by metis
  note down = prune_ancestor_down [OF wf hts Some] and up = prune_ancestor_up [OF wf Some]
  have "heights nm ?cs" using hts sel(1) unfolding heights_def by blast
  moreover have "canonical_chain ?cs head"
    unfolding canonical_chain_def
  proof (intro conjI allI impI)
    show "fmlookup (blocks_by_hash ?cs) (nh_hash head) \<noteq> None"
      using sel(1) [of "nh_hash head" hb] hb le nhb by simp
    show "canonical ?cs (nh_number head) = Some (nh_hash head)"
      using can le sel(2) [of "nh_number head" "nh_hash head"]
      unfolding canonical_chain_def by (simp add: word_le_nat_alt)
  next
    fix k assume "nh_number head < k"
    then have "canonical cs k = None" using can unfolding canonical_chain_def by blast
    then show "canonical ?cs k = None" using sel(2) [of k] by (metis not_None_eq)
  next
    fix h b k assume "fmlookup (blocks_by_hash ?cs) h = Some b"
    then have b: "fmlookup (blocks_by_hash cs) h = Some b" "number fb \<le> number b" using sel(1) by blast+
    have "canonical cs k = Some h \<longleftrightarrow> k = number b \<and> ancestor_in cs (nh_hash head) h"
      using can b(1) unfolding canonical_chain_def by blast
    moreover have "unat (number fb) - 256 \<le> unat (number b)"
      using b(2) by (simp add: word_le_nat_alt)
    ultimately show "canonical ?cs k = Some h \<longleftrightarrow> k = number b \<and> ancestor_in ?cs (nh_hash head) h"
      using sel(2) up down [OF _ b] by blast
  qed
  moreover have "above_floor nm ?cs head" by (rule prune_above_floor [OF wf hts fl Some])
  ultimately show ?thesis by (simp add: chain_ok_def)
qed

section \<open>Forkchoice updates\<close>

text \<open>What a forkchoice update answers, and what the answer says of the tree.\<close>

definition fcu_answer_ok ::
  "('p, 'i, 'f, 'l) engine_tree \<Rightarrow> ('p, 'i, 'f, 'l) engine_tree \<Rightarrow> forkchoice_state \<Rightarrow>
     on_fork_choice_updated tree_outcome \<Rightarrow> bool" where
  "fcu_answer_ok t t' state o' \<longleftrightarrow>
     (case outcome o' of
        FcuValid st \<Rightarrow>
          (status st = StatusValid \<and> latest_valid_hash st = Some (head_block_hash state) \<and>
           event o' = None \<and> head_block_hash state \<noteq> 0 \<and>
           (nh_hash (canonical_head t') = head_block_hash state \<or>
            stored t (head_block_hash state) \<noteq> None \<and> canonical_head t' = canonical_head t)) \<or>
          (status st = StatusSyncing \<and> latest_valid_hash st = None \<and>
           stored t (head_block_hash state) = None \<and> canonical_head t' = canonical_head t \<and>
           (\<forall>e. event o' = Some e \<longrightarrow>
              (\<exists>h. stored t h = None \<and> buffered t h = None \<and>
                 (e = download_finalized_event h \<and> h = finalized_block_hash state \<and> h \<noteq> 0 \<or>
                  e = download_block_event h \<and> h \<noteq> finalized_block_hash state))))
      | FcuWithInvalid st \<Rightarrow> (\<exists>m. status st = StatusInvalid m) \<and> event o' = None \<and>
          canonical_head t' = canonical_head t
      | FcuInvalidState \<Rightarrow> event o' = None \<and>
          (head_block_hash state = 0 \<or>
           (\<exists>h \<in> {finalized_block_hash state, safe_block_hash state}.
              h \<noteq> 0 \<and> \<not> provider_is_hash_canonical (provider t') h))
      | FcuInvalidPayloadAttributes \<Rightarrow> event o' = None \<and>
          nh_hash (canonical_head t') = head_block_hash state)"

lemma is_hash_canonical_iff:
  "provider_is_hash_canonical pr h \<longleftrightarrow> (\<exists>k. canonical (chain_state_of pr) k = Some h)"
  by (auto simp: provider_is_hash_canonical_def is_hash_canonical_def fmran.rep_eq ran_def)

lemma ensure_consistent_Some:
  "ensure_consistent_forkchoice_state t state = Some o' \<Longrightarrow> o' = FcuInvalidState \<and>
     (\<exists>h \<in> {finalized_block_hash state, safe_block_hash state}.
        h \<noteq> 0 \<and> \<not> provider_is_hash_canonical (provider t) h)"
  by (auto simp: ensure_consistent_forkchoice_state_def split: if_splits)

lemma ensure_consistent_None:
  "ensure_consistent_forkchoice_state t state = None \<longleftrightarrow>
     (\<forall>h \<in> {finalized_block_hash state, safe_block_hash state}.
        h \<noteq> 0 \<longrightarrow> provider_is_hash_canonical (provider t) h)"
  by (auto simp: ensure_consistent_forkchoice_state_def)

lemma validate_payload_attributes_Some:
  "validate_payload_attributes L attr h state v = Some o' \<Longrightarrow> o' = FcuInvalidPayloadAttributes"
  by (auto simp: validate_payload_attributes_def split: if_splits)

lemma persisted_or_buffered:
  "is_block_persisted_or_buffered t h \<longleftrightarrow> stored t h \<noteq> None \<or> buffered t h \<noteq> None"
  by (auto simp: is_block_persisted_or_buffered_def provider_sealed_header_None)

lemma fcu_same_head_correct:
  assumes "nh_hash (canonical_head t) = head_block_hash state" and "head_block_hash state \<noteq> 0"
  shows "case fcu_same_head L state attrs v t of
     Inr o' \<Rightarrow> fcu_answer_ok t t state o'
   | Inl e \<Rightarrow> e = HeaderNotFound (head_block_hash state) \<and> stored t (head_block_hash state) = None"
  using assms
  by (auto simp: fcu_same_head_def fcu_answer_ok_def fcu_valid_head_def provider_sealed_header_None
      dest!: ensure_consistent_Some validate_payload_attributes_Some split: option.splits)

lemma fcu_sync_correct:
  assumes env: "tree_env L keys ents rk U" and inv: "tree_inv L keys ents rk U t"
    and "stored t (head_block_hash state) = None"
  shows "\<exists>o'. fcu_sync state t = Some o' \<and> fcu_answer_ok t t state o'"
proof -
  let ?target = "if safe_block_hash state \<noteq> 0 \<and>
      \<not> is_block_persisted_or_buffered t (safe_block_hash state)
    then safe_block_hash state else head_block_hash state"
  obtain a where "lowest_buffered_ancestor_or t ?target = Some a" "buffered t a = None"
    using lowest_buffered_ancestor_or_correct [OF tree_invD(4) [OF inv] tree_ranked(2) [OF env inv]]
    by blast
  note a = this
  show ?thesis
  proof (cases "finalized_block_hash state \<noteq> 0 \<and>
           \<not> is_block_persisted_or_buffered t (finalized_block_hash state)")
    case True
    then show ?thesis
      using assms(3)
      by (auto simp: fcu_sync_def fcu_answer_ok_def Let_def persisted_or_buffered)
  next
    case False
    define tg where "tg = ?target"
    have "fcu_sync state t =
        Some (if a \<noteq> finalized_block_hash state \<and> \<not> is_block_persisted_or_buffered t a
          then with_event (tree_outcome_new (FcuValid (payload_status_from_status StatusSyncing)))
                 (download_block_event a)
          else tree_outcome_new (FcuValid (payload_status_from_status StatusSyncing)))"
      using a(1) unfolding tg_def [symmetric] fcu_sync_def Let_def by (simp add: False)
    then show ?thesis
      using assms(3) by (auto simp: fcu_answer_ok_def persisted_or_buffered)
  qed
qed

lemma tree_inv_finalized:
  assumes env: "tree_env L keys ents rk U" and inv: "tree_inv L keys ents rk U t"
  shows "tree_inv L keys ents rk U (t\<lparr>provider := on_finalized f (provider t)\<rparr>)"
  using inv remove_finalized_sel(1) [OF tree_invD(1) [OF inv]]
  by (auto simp: tree_inv_def on_finalized_def intro: inv_intros)

lemma tree_inv_evict:
  assumes env: "tree_env L keys ents rk U" and inv: "tree_inv L keys ents rk U t"
  shows "tree_inv L keys ents rk U
    (t\<lparr>block_buffer := evict_old_blocks (buffer_ops L) n (block_buffer t)\<rparr>)"
  using inv evict_old_blocks_spec [OF tree_envD(2) [OF env] tree_invD(4) [OF inv], of n]
    evict_old_blocks_limit [OF tree_envD(2) [OF env] tree_invD(4) [OF inv], of n]
  by (auto simp: tree_inv_def split: if_splits)

lemma finalized_step:
  assumes inv: "tree_inv L keys ents rk U t"
    and "f \<noteq> 0 \<Longrightarrow> provider_is_hash_canonical (provider t) f"
  shows "tree_step L nm U t (t\<lparr>provider := on_finalized f (provider t)\<rparr>)"
  using assms(2) prune_ok [OF _ tree_invD(1) [OF inv], of nm "canonical_head t" _ f]
    remove_finalized_sel(1) [OF tree_invD(1) [OF inv]]
  by (auto simp: tree_step_def on_finalized_def is_hash_canonical_iff)

lemma fcu_new_head_correct:
  assumes env: "tree_env L keys ents rk U" and inv: "tree_inv L keys ents rk U t"
    and e: "new_head_effect t (head_block_hash state) c" and nz: "head_block_hash state \<noteq> 0"
  shows "\<exists>o' t'. fcu_new_head L state attrs v c t = Some (o', t') \<and>
    tree_inv L keys ents rk U t' \<and> tree_step L nm U t t' \<and>
    nh_hash (canonical_head t') = head_block_hash state \<and> fcu_answer_ok t t' state o'"
proof -
  obtain tip where tip: "chain_tip c = Some tip" using chain_tip_correct [OF e] by blast
  obtain t1 where u: "on_canonical_chain_update c t = Some t1" "tree_inv L keys ents rk U t1"
    "tree_step L nm U t t1" "nh_hash (canonical_head t1) = head_block_hash state"
    using on_canonical_chain_update_correct [OF inv e, of nm] by blast
  show ?thesis
  proof (cases "ensure_consistent_forkchoice_state t1 state")
    case (Some o')
    then show ?thesis
      using u tip ensure_consistent_Some [OF Some]
      by (simp add: fcu_new_head_def fcu_answer_ok_def)
  next
    case None
    define t2 where "t2 = t1\<lparr>provider := on_finalized (finalized_block_hash state) (provider t1)\<rparr>"
    have canf: "finalized_block_hash state \<noteq> 0 \<Longrightarrow>
        provider_is_hash_canonical (provider t1) (finalized_block_hash state)"
      using None by (simp add: ensure_consistent_None)
    have t2: "tree_inv L keys ents rk U t2" "tree_step L nm U t1 t2" "canonical_head t2 = canonical_head t1"
      unfolding t2_def using tree_inv_finalized [OF env u(2)] finalized_step [OF u(2) canf] by simp_all
    define t3 where "t3 = (case provider_block_number (provider t2) (finalized_block_hash state) of
        Some n \<Rightarrow> t2\<lparr>block_buffer := evict_old_blocks (buffer_ops L) n (block_buffer t2)\<rparr>
      | None \<Rightarrow> t2)"
    have t3: "tree_inv L keys ents rk U t3" "tree_step L nm U t2 t3" "canonical_head t3 = canonical_head t2"
      unfolding t3_def using t2(1) tree_inv_evict [OF env t2(1)]
      by (simp_all add: tree_step_same split: option.splits)
    define r where "r = (case attrs of None \<Rightarrow> fcu_valid_head state
      | Some attr \<Rightarrow> (case validate_payload_attributes L attr (clone_header tip) state v of
          Some s \<Rightarrow> tree_outcome_new s | None \<Rightarrow> fcu_valid_head state))"
    have "fcu_new_head L state attrs v c t = Some (r, t3)"
      using tip u(1) None unfolding t3_def r_def t2_def
      by (simp add: fcu_new_head_def Let_def split: option.splits)
    moreover have "fcu_answer_ok t t3 state r"
      using nz u(4) t2(3) t3(3)
      by (auto simp: r_def fcu_answer_ok_def fcu_valid_head_def
          dest!: validate_payload_attributes_Some split: option.splits)
    moreover have "tree_step L nm U t t3"
      using u(3) t2(2) t3(2) tree_step_trans by blast
    ultimately show ?thesis using t3 t2(3) u(4) by auto
  qed
qed

lemma on_forkchoice_updated_run:
  assumes env: "tree_env L keys ents rk U" and inv: "tree_inv L keys ents rk U t"
  shows "\<exists>r t'. on_forkchoice_updated L state attrs v t = Some (r, t') \<and>
    tree_inv L keys ents rk U t' \<and> tree_step L nm U t t' \<and>
    (case r of
       Inr o' \<Rightarrow> fcu_answer_ok t t' state o'
     | Inl e \<Rightarrow> e = HeaderNotFound (head_block_hash state) \<and>
         nh_hash (canonical_head t) = head_block_hash state \<and>
         stored t (head_block_hash state) = None)"
proof (cases "head_block_hash state = 0")
  case True
  then show ?thesis
    using inv
    by (simp add: on_forkchoice_updated_def pre_validate_forkchoice_update_def fcu_answer_ok_def)
next
  case False
  obtain a where a: "lowest_buffered_ancestor_or t (head_block_hash state) = Some a"
    using lowest_buffered_ancestor_or_correct [OF tree_invD(4) [OF inv] tree_ranked(2) [OF env inv]]
    by blast
  obtain c i where c: "check_invalid_ancestor L a t = Some (c, t\<lparr>invalid_headers := i\<rparr>)"
    "ranked_entries rk (ents i)"
    "\<And>st. c = Some st \<Longrightarrow> status st = StatusInvalid (links_to_rejected_payload L)"
    using check_invalid_ancestor_correct [OF env inv, of a] by blast
  let ?t = "t\<lparr>invalid_headers := i\<rparr>"
  have inv1: "tree_inv L keys ents rk U ?t" by (rule tree_inv_invalid [OF inv c(2)])
  have step1: "tree_step L nm U t ?t" by (simp add: tree_step_same)
  have pre: "pre_validate_forkchoice_update L state t = Some (map_option FcuWithInvalid c, ?t)"
    using False a c(1) by (simp add: pre_validate_forkchoice_update_def)
  have same: "fcu_answer_ok ?t t' state o' = fcu_answer_ok t t' state o'" for t' o'
    by (cases "outcome o'") (simp_all add: fcu_answer_ok_def)
  show ?thesis
  proof (cases c)
    case (Some st)
    then show ?thesis
      using pre inv1 step1 c(3) by (simp add: on_forkchoice_updated_def fcu_answer_ok_def)
  next
    case None
    show ?thesis
    proof (cases "nh_hash (canonical_head t) = head_block_hash state")
      case True
      then show ?thesis
        using pre None inv1 step1 fcu_same_head_correct [of ?t state L attrs v] False
        by (simp add: on_forkchoice_updated_def same split: sum.splits)
    next
      case ne: False
      obtain r where r: "on_new_head L ?t (head_block_hash state) = Some r"
        "\<And>u. r = Some u \<Longrightarrow> new_head_effect ?t (head_block_hash state) u"
        using on_new_head_correct [OF env inv1] by blast
      show ?thesis
      proof (cases r)
        case (Some u)
        obtain o' t' where "fcu_new_head L state attrs v u ?t = Some (o', t')"
          "tree_inv L keys ents rk U t'" "tree_step L nm U ?t t'" "fcu_answer_ok ?t t' state o'"
          using fcu_new_head_correct [OF env inv1 r(2) [OF Some] False] by blast
        then show ?thesis
          using pre None ne r(1) Some tree_step_trans [OF step1]
          by (simp add: on_forkchoice_updated_def same)
      next
        case rn: None
        show ?thesis
        proof (cases "stored t (head_block_hash state)")
          case (Some b)
          then have "provider_sealed_header (provider t) (head_block_hash state) \<noteq> None"
            by (simp add: provider_sealed_header_None)
          then show ?thesis
            using pre None ne r(1) rn Some inv1 step1 False
            by (auto simp: on_forkchoice_updated_def fcu_answer_ok_def fcu_valid_head_def)
        next
          case sn: None
          then have p: "provider_sealed_header (provider t) (head_block_hash state) = None"
            by (simp add: provider_sealed_header_None)
          obtain o' where "fcu_sync state ?t = Some o'" "fcu_answer_ok ?t ?t state o'"
            using fcu_sync_correct [OF env inv1] sn by auto
          then show ?thesis
            using pre None ne r(1) rn p inv1 step1
            by (simp add: on_forkchoice_updated_def same)
        qed
      qed
    qed
  qed
qed

end
