(* ===== verification/Launch.thy ===== *)
theory Launch
  imports Tree_Handlers
begin

text \<open>
  The state the node launches with (\<open>NodeLauncher::launch\<close>, \<open>bin/zk-ress/src/launch.rs\<close>): the
  provider holds the genesis block, which is the canonical head of the engine tree. The launched
  tree satisfies the invariant and its canonical chain; the handlers keep both. The theory ends
  with a concrete library and the trees the instances of the properties are about.
\<close>

section \<open>Genesis\<close>

definition genesis_block :: "chain_spec \<Rightarrow> recovered_block" where
  "genesis_block spec =
     (let h = genesis_header spec
      in \<lparr>number = number h, parent_hash = parent_hash h, state_root = state_root h,
          difficulty = difficulty h, header_rest = header_rest h, hash = genesis_hash spec,
          body = [], senders = []\<rparr>)"

definition launch_provider :: "chain_spec \<Rightarrow> 'p provider" where
  "launch_provider spec =
     provider_insert_canonical_hash 0 (genesis_hash spec)
       (provider_insert_block (genesis_block spec) None (provider_new spec))"

definition launch_tree ::
  "('p, 'x, 'e, 'a, 'i, 'f, 'l) tree_lib \<Rightarrow> chain_spec \<Rightarrow> ('p, 'i, 'f, 'l) engine_tree" where
  "launch_tree L spec = engine_tree_new L (launch_provider spec)"

lemma genesis_block_sel [simp]:
  "number (genesis_block spec) = number (genesis_header spec)"
  "parent_hash (genesis_block spec) = parent_hash (genesis_header spec)"
  "hash (genesis_block spec) = genesis_hash spec"
  by (simp_all add: genesis_block_def Let_def)

lemma launch_tree_sel:
  "stored (launch_tree L spec) h = (if h = genesis_hash spec then Some (genesis_block spec) else None)"
  "canonical (chain_state_of (provider (launch_tree L spec))) k =
     (if k = 0 then Some (genesis_hash spec) else None)"
  "nh_hash (canonical_head (launch_tree L spec)) = genesis_hash spec"
  "nh_number (canonical_head (launch_tree L spec)) = number (genesis_header spec)"
  "block_buffer (launch_tree L spec) = buffer_new (buffer_ops L) 256"
  "invalid_headers (launch_tree L spec) = invalid_cache_new L 256"
  by (simp_all add: launch_tree_def engine_tree_new_def launch_provider_def provider_new_def
      provider_chain_spec_def chain_state_default_def Let_def)

lemma launch_tree_inv:
  assumes env: "tree_env L keys ents rk U" and g: "genesis_block spec \<in> U"
  shows "tree_inv L keys ents rk U (launch_tree L spec)"
proof -
  have "cs_wf (chain_state_of (launch_provider spec))"
    by (auto simp: launch_provider_def provider_new_def chain_state_default_def intro!: inv_intros)
       (auto intro: inv_intros simp flip: chain_state_default_def)
  moreover have "buffer_inv (buffer_ops L) keys (\<lambda>_. True) (buffer_new (buffer_ops L) 256)"
    "0 < lru_max_length (buffer_ops L) (lru (buffer_new (buffer_ops L) 256 :: ('a, 'g) block_buffer))"
    using tree_envD(2) [OF env]
    by (auto simp: buffer_new_def buffer_inv_def links_inv_def buffer_lib_laws_def)
  ultimately show ?thesis
    using g tree_envD(3) [OF env]
    unfolding tree_inv_def launch_tree_sel
    by (auto simp: buffer_new_def ranked_entries_def invalid_cache_laws_def launch_tree_def
        engine_tree_new_def split: if_splits)
qed

lemma launch_chain_ok:
  assumes "number (genesis_header spec) = 0" and "nm (genesis_hash spec) = Suc 0"
    and "nm (parent_hash (genesis_header spec)) = 0"
  shows "chain_ok nm (chain_state_of (provider (launch_tree L spec)))
    (canonical_head (launch_tree L spec))"
proof -
  let ?cs = "chain_state_of (provider (launch_tree L spec))"
  have anc: "ancestor_in ?cs (genesis_hash spec) h \<longleftrightarrow>
      h = genesis_hash spec \<or> h = parent_hash (genesis_header spec)" for h
  proof -
    have g: "stored (launch_tree L spec) (genesis_hash spec) = Some (genesis_block spec)"
      and p: "stored (launch_tree L spec) (parent_hash (genesis_header spec)) = None"
      using assms(2,3) by (auto simp: launch_tree_sel)
    have "ancestor_in ?cs (genesis_hash spec) h \<longleftrightarrow>
        h = genesis_hash spec \<or> ancestor_in ?cs (parent_hash (genesis_block spec)) h"
      using g by (rule ancestor_step_iff)
    moreover have "ancestor_in ?cs (parent_hash (genesis_header spec)) h \<longleftrightarrow>
        h = parent_hash (genesis_header spec)"
      using p by (rule ancestor_end)
    ultimately show ?thesis by simp
  qed
  have "heights nm ?cs" using assms by (simp add: heights_def launch_tree_sel)
  moreover have "canonical_chain ?cs (canonical_head (launch_tree L spec))"
    using assms anc by (auto simp: canonical_chain_def launch_tree_sel is_ancestor_refl)
  moreover have "above_floor nm ?cs (canonical_head (launch_tree L spec))"
    unfolding above_floor_def using assms
    by (intro exI [of _ 0]) (auto simp: launch_tree_sel anc split: if_splits)
  ultimately show ?thesis by (simp add: chain_ok_def)
qed

section \<open>Good trees\<close>

text \<open>The invariant and the canonical chain together, under a verifier that checks numbers.\<close>

definition tree_good ::
  "('p, 'x, 'e, 'a, 'i, 'f, 'l) tree_lib \<Rightarrow> ('l \<Rightarrow> b256 list) \<Rightarrow> ('i \<Rightarrow> b256 \<rightharpoonup> block_with_parent) \<Rightarrow>
     (b256 \<Rightarrow> nat) \<Rightarrow> recovered_block set \<Rightarrow> (b256 \<Rightarrow> nat) \<Rightarrow> ('p, 'i, 'f, 'l) engine_tree \<Rightarrow> bool" where
  "tree_good L keys ents rk U nm t \<longleftrightarrow>
     tree_inv L keys ents rk U t \<and> chain_ok nm (chain_state_of (provider t)) (canonical_head t)"

lemma tree_good_step:
  "tree_good L keys ents rk U nm t \<Longrightarrow> numbers_checked L nm U \<Longrightarrow> tree_inv L keys ents rk U t' \<Longrightarrow>
     tree_step L nm U t t' \<Longrightarrow> tree_good L keys ents rk U nm t'"
  by (simp add: tree_good_def tree_step_def)

lemma downloaded_good:
  assumes "tree_env L keys ents rk U" "numbers_checked L nm U" "b \<in> U"
    and "tree_good L keys ents rk U nm t"
  shows "tree_good L keys ents rk U nm (snd (the (on_downloaded_block L b w t)))"
  using on_downloaded_block_run [OF assms(1) _ assms(3), of t w nm] assms(2,4) tree_good_step
  unfolding run_ok_def by (fastforce simp: tree_good_def)

lemma forkchoice_good:
  assumes "tree_env L keys ents rk U" "numbers_checked L nm U"
    and "tree_good L keys ents rk U nm t"
  shows "tree_good L keys ents rk U nm (snd (the (on_forkchoice_updated L state attrs v t)))"
  using on_forkchoice_updated_run [OF assms(1), where t = t and nm = nm and state = state and
      attrs = attrs and v = v] assms(2,3) tree_good_step
  by (fastforce simp: tree_good_def)

section \<open>A concrete library\<close>

text \<open>
  A payload is a block; the cache of invalid headers is a finite map, the tracker the last state.
  The verifier accepts a block of the next number with any proof but 0.
\<close>

definition ex_universe :: "recovered_block list" where
  "ex_universe = [mk_block 0 10 0, mk_block 1 11 10, mk_block 2 12 11, mk_block 3 13 12,
     mk_block 2 22 11, mk_block 3 23 22]"

type_synonym ex_lib_type =
  "(nat, recovered_block, unit, unit, (b256, block_with_parent) fmap, forkchoice_state option,
     b256 list \<times> u32) tree_lib"

definition ex_lib :: ex_lib_type where
  "ex_lib = \<lparr>parent_num_hash = std_parent_num_hash, buffer_ops = list_lru,
     validate_header = (\<lambda>_. None), validate_block_pre_execution = (\<lambda>_. None),
     verify = (\<lambda>cs b p w. if w \<noteq> 0 \<and> unat (number b) = Suc (unat (number p)) then None
       else Some (VerifierOther ''rejected'')),
     payload_parent_hash = parent_hash, payload_block_hash = hash,
     ensure_well_formed_payload = (\<lambda>b. if b \<in> set ex_universe then Inr b else Inl ()),
     is_block_hash_mismatch = (\<lambda>_. False), is_invalid_versioned_hashes = (\<lambda>_. False),
     status_of_payload_error = (\<lambda>_. StatusInvalid ''malformed''),
     attributes_match_header = (\<lambda>_ _. True), builder_attributes_ok = (\<lambda>_ _ _. True),
     ensure_validation_error = (\<lambda>_. Inr ''invalid block''),
     links_to_rejected_payload = ''links to rejected'',
     invalid_cache_new = (\<lambda>_. fmempty), invalid_get = (\<lambda>h i. (fmlookup i h, i)),
     invalid_insert = (\<lambda>v i. fmupd (nh_hash (bwp_block v)) v i),
     invalid_insert_with_ancestor = (\<lambda>h v i. fmupd h v i),
     tracker_new = None, sync_target_state = (\<lambda>f. f),
     tracker_set_latest = (\<lambda>s _ _. Some s),
     forkchoice_status_of = (\<lambda>r. case r of
         FcuValid p \<Rightarrow> (if status p = StatusValid then FcValid else FcSyncing)
       | _ \<Rightarrow> FcInvalid)\<rparr>"

definition ex_height :: "b256 \<Rightarrow> nat" where
  "ex_height h = (if h = 0 then 0 else Suc (unat h mod 10))"

lemma ex_env: "tree_env ex_lib list_lru_keys fmlookup unat (set ex_universe)"
  by (auto simp: tree_env_def ex_lib_def list_lru_laws invalid_cache_laws_def links_agree_def
      ex_universe_def hash_ranked_def split: if_splits)

lemma ex_numbers: "numbers_checked ex_lib ex_height (set ex_universe)"
  by (auto simp: numbers_checked_def ex_lib_def ex_universe_def ex_height_def split: if_splits)

definition ex_spec :: chain_spec where
  "ex_spec = \<lparr>genesis_header = clone_header (mk_block 0 10 0), genesis_hash = 10\<rparr>"

type_synonym ex_tree_type =
  "(nat, (b256, block_with_parent) fmap, forkchoice_state option, b256 list \<times> u32) engine_tree"

definition ex_launch :: ex_tree_type where
  "ex_launch = launch_tree ex_lib ex_spec"

lemma ex_genesis: "genesis_block ex_spec = mk_block 0 10 0"
  by (simp add: genesis_block_def ex_spec_def mk_block_def Let_def)

lemma ex_launch_good: "tree_good ex_lib list_lru_keys fmlookup unat (set ex_universe) ex_height ex_launch"
  unfolding tree_good_def ex_launch_def
  by (intro conjI launch_tree_inv [OF ex_env] launch_chain_ok)
     (simp_all add: ex_genesis, simp_all add: ex_spec_def ex_universe_def ex_height_def)

text \<open>
  The blocks 11 and 12 are downloaded, and 12 becomes the head; then the block 13 and the fork 22,
  23 are downloaded.
\<close>

definition ex_download :: "recovered_block \<Rightarrow> ex_tree_type \<Rightarrow> ex_tree_type" where
  "ex_download b t = snd (the (on_downloaded_block ex_lib b 7 t))"

definition ex_fcu :: "b256 \<Rightarrow> b256 \<Rightarrow> ex_tree_type \<Rightarrow> ex_tree_type" where
  "ex_fcu h f t = snd (the (on_forkchoice_updated ex_lib
     \<lparr>head_block_hash = h, safe_block_hash = 0, finalized_block_hash = f\<rparr> None 3 t))"

definition ex_tree :: ex_tree_type where
  "ex_tree = ex_fcu 12 0 (ex_download (mk_block 2 12 11) (ex_download (mk_block 1 11 10) ex_launch))"

definition ex_forked :: ex_tree_type where
  "ex_forked = ex_download (mk_block 3 23 22) (ex_download (mk_block 2 22 11)
     (ex_download (mk_block 3 13 12) ex_tree))"

lemma ex_steps_good:
  assumes "tree_good ex_lib list_lru_keys fmlookup unat (set ex_universe) ex_height t"
  shows "b \<in> set ex_universe \<Longrightarrow>
      tree_good ex_lib list_lru_keys fmlookup unat (set ex_universe) ex_height (ex_download b t)"
    and "tree_good ex_lib list_lru_keys fmlookup unat (set ex_universe) ex_height (ex_fcu h f t)"
  unfolding ex_download_def ex_fcu_def
  using downloaded_good [OF ex_env ex_numbers _ assms] forkchoice_good [OF ex_env ex_numbers assms]
  by blast+

lemma ex_trees_good:
  "tree_good ex_lib list_lru_keys fmlookup unat (set ex_universe) ex_height ex_tree"
  "tree_good ex_lib list_lru_keys fmlookup unat (set ex_universe) ex_height ex_forked"
proof -
  show t: "tree_good ex_lib list_lru_keys fmlookup unat (set ex_universe) ex_height ex_tree"
    unfolding ex_tree_def by (intro ex_steps_good ex_launch_good) (simp_all add: ex_universe_def)
  show "tree_good ex_lib list_lru_keys fmlookup unat (set ex_universe) ex_height ex_forked"
    unfolding ex_forked_def by (intro ex_steps_good t) (simp_all add: ex_universe_def)
qed

lemma ex_stored: "stored ex_forked 13 = Some (mk_block 3 13 12)"
  "stored ex_forked 23 = Some (mk_block 3 23 22)" "nh_hash (canonical_head ex_forked) = 12"
  by code_simp+

end
