(* ===== verification/Head_Update.thy ===== *)
theory Head_Update
  imports Tree_Handlers
begin

text \<open>
  When the engine tree finds the chain update of a new head, and what \<open>is_fork\<close> says: the converse
  of the facts about \<open>on_new_head\<close>, for stored chains that meet the chain of the canonical head.
\<close>

section \<open>Heights along stored chains\<close>

lemma ancestor_same_height:
  assumes "heights nm cs" and "ancestor_in cs h a" and "nm h \<le> nm a"
  shows "h = a"
proof (rule ccontr)
  assume "h \<noteq> a"
  then obtain b where "fmlookup (blocks_by_hash cs) h = Some b" "ancestor_in cs (parent_hash b) a"
    using assms(2) by (auto elim: ancestor_storedE)
  then have "nm a \<le> nm (parent_hash b)" "nm h = Suc (nm (parent_hash b))"
    using ancestor_height [OF assms(1)] assms(1) unfolding heights_def by (blast, simp)
  then show False using assms(3) by simp
qed

text \<open>Above a common ancestor a block is stored and its parent has the ancestor too.\<close>

lemma ancestor_above:
  assumes hts: "heights nm (chain_state_of pr)" and "ancestor_in (chain_state_of pr) h a"
    and "h \<noteq> a"
  shows "\<exists>b. provider_sealed_header pr h = Some b \<and> ancestor_in (chain_state_of pr) (parent_hash b) a \<and>
    nm h = Suc (nm (parent_hash b)) \<and> nm (parent_hash b) = unat (number b)"
proof -
  obtain b where b: "fmlookup (blocks_by_hash (chain_state_of pr)) h = Some b"
    "ancestor_in (chain_state_of pr) (parent_hash b) a"
    using assms(2,3) by (auto elim: ancestor_storedE)
  moreover have "nm h = Suc (unat (number b))" "nm (parent_hash b) = unat (number b)"
    using hts b(1) unfolding heights_def by blast+
  ultimately show ?thesis by (auto simp: provider_sealed_header_Some)
qed

lemma word_pred_less:
  fixes c n :: u64
  assumes "c < n"
  shows "unat n = Suc (unat (n - 1))" and "c \<le> n - 1"
  using assms by (auto simp: word_less_nat_alt word_le_nat_alt unat_sub_if')

section \<open>The walks of a new head find the fork point\<close>

lemma walk_new_chain_finds:
  assumes "heights nm (chain_state_of pr)" and "nm a \<le> Suc (unat c)"
    and "ancestor_in (chain_state_of pr) h a" and "nm h = Suc (unat n)"
  shows "\<exists>n' h' hs'. walk_new_chain pr c n h hs = Some (n', h', hs') \<and>
      ancestor_in (chain_state_of pr) h' a \<and> nm h' = Suc (unat n') \<and> n' \<le> c"
  using assms
proof (induction pr c n h hs rule: walk_new_chain.induct)
  case (1 pr c n h hs)
  show ?case
  proof (cases "c < n")
    case True
    then have "h \<noteq> a" using "1.prems"(2,4) by (auto simp: word_less_nat_alt)
    from ancestor_above [OF "1.prems"(1,3) this] obtain b where
      b: "provider_sealed_header pr h = Some b" "ancestor_in (chain_state_of pr) (parent_hash b) a"
      "nm h = Suc (nm (parent_hash b))" by blast
    have "nm (parent_hash b) = Suc (unat (n - 1))"
      using b(3) "1.prems"(4) word_pred_less(1) [OF True] by simp
    from "1.IH" [OF True b(1) "1.prems"(1,2) b(2) this] show ?thesis
      using True b(1) by (subst walk_new_chain.simps) simp
  qed (use "1.prems" in \<open>subst walk_new_chain.simps, auto simp: not_less\<close>)
qed

lemma walk_old_chain_finds:
  assumes "heights nm (chain_state_of pr)" and "nm a \<le> Suc (unat n)"
    and "ancestor_in (chain_state_of pr) h a" and "nm h = Suc (unat c)" and "n \<le> c"
  shows "\<exists>h' hs'. walk_old_chain pr c n h hs = Some (h', hs') \<and>
      ancestor_in (chain_state_of pr) h' a \<and> nm h' = Suc (unat n)"
  using assms
proof (induction pr c n h hs rule: walk_old_chain.induct)
  case (1 pr c n h hs)
  show ?case
  proof (cases "n < c")
    case True
    then have "h \<noteq> a" using "1.prems"(2,4) by (auto simp: word_less_nat_alt)
    from ancestor_above [OF "1.prems"(1,3) this] obtain b where
      b: "provider_sealed_header pr h = Some b" "ancestor_in (chain_state_of pr) (parent_hash b) a"
      "nm h = Suc (nm (parent_hash b))" by blast
    have "nm (parent_hash b) = Suc (unat (c - 1))"
      using b(3) "1.prems"(4) word_pred_less(1) [OF True] by simp
    from "1.IH" [OF True b(1) "1.prems"(1,2) b(2) this word_pred_less(2) [OF True]] show ?thesis
      using True b(1) by (subst walk_old_chain.simps) simp
  qed (use "1.prems" in \<open>subst walk_old_chain.simps, auto simp: not_less\<close>)
qed

lemma walk_to_fork_finds:
  assumes hts: "heights nm (chain_state_of pr)"
  shows "ancestor_in (chain_state_of pr) h\<^sub>o a \<Longrightarrow> ancestor_in (chain_state_of pr) h\<^sub>n a \<Longrightarrow>
    nm h\<^sub>o = nm h\<^sub>n \<Longrightarrow> \<exists>r. walk_to_fork pr h\<^sub>o h\<^sub>n os ns = Some (Some r)"
proof (induction "nm h\<^sub>o" arbitrary: h\<^sub>o h\<^sub>n os ns rule: less_induct)
  case less
  show ?case
  proof (cases "h\<^sub>o = h\<^sub>n")
    case True
    then show ?thesis by (subst walk_to_fork.simps) simp
  next
    case False
    have "h\<^sub>o \<noteq> a" "h\<^sub>n \<noteq> a"
      using False less.prems ancestor_same_height [OF hts, of h\<^sub>n a]
        ancestor_same_height [OF hts, of h\<^sub>o a] by auto
    obtain b where b: "provider_sealed_header pr h\<^sub>o = Some b"
      "ancestor_in (chain_state_of pr) (parent_hash b) a" "nm h\<^sub>o = Suc (nm (parent_hash b))"
      using ancestor_above [OF hts less.prems(1) \<open>h\<^sub>o \<noteq> a\<close>] by blast
    obtain d where d: "provider_sealed_header pr h\<^sub>n = Some d"
      "ancestor_in (chain_state_of pr) (parent_hash d) a" "nm h\<^sub>n = Suc (nm (parent_hash d))"
      using ancestor_above [OF hts less.prems(2) \<open>h\<^sub>n \<noteq> a\<close>] by blast
    have "\<exists>r. walk_to_fork pr (parent_hash b) (parent_hash d) (os @ [b]) (ns @ [d]) = Some (Some r)"
      using less.hyps [of "parent_hash b" "parent_hash d"] b d less.prems(3) by simp
    then show ?thesis using False b(1) d(1) by (subst walk_to_fork.simps) simp
  qed
qed

lemma on_new_head_finds:
  assumes law: "parent_num_hash_law (parent_num_hash L)"
    and hts: "heights nm (chain_state_of (provider t))"
    and head: "nm (nh_hash (canonical_head t)) = Suc (unat (nh_number (canonical_head t)))"
    and x: "stored t x = Some b" "number b \<noteq> 0"
    and anc: "ancestor_in (chain_state_of (provider t)) x a"
      "ancestor_in (chain_state_of (provider t)) (nh_hash (canonical_head t)) a"
  shows "\<exists>c. on_new_head L t x = Some (Some c)"
proof -
  let ?pr = "provider t" and ?c = "nh_number (canonical_head t)" and ?h = "nh_hash (canonical_head t)"
  let ?anc = "ancestor_in (chain_state_of ?pr)"
  have px: "?anc x (parent_hash b)" using x(1) by (blast intro: is_ancestor.intros)
  have nx: "nm x = Suc (nm (parent_hash b))" "nm (parent_hash b) = unat (number b)"
    using hts x(1) unfolding heights_def by auto
  have sx: "provider_sealed_header ?pr x = Some (clone_sealed_header b)"
    using x(1) by (simp add: provider_sealed_header_Some)
  obtain a' where a': "?anc (parent_hash b) a'" "?anc ?h a'"
  proof (cases "x = a")
    case True
    then have "?anc ?h (parent_hash b)" using ancestor_trans [OF anc(2)] px by simp
    then show ?thesis by (rule that [OF is_ancestor_refl])
  next
    case False
    then have "?anc (parent_hash b) a" using anc(1) x(1) by (auto elim: ancestor_storedE)
    then show ?thesis using anc(2) by (rule that)
  qed
  have low: "nm a' \<le> Suc (unat ?c)" using ancestor_height [OF hts a'(2)] head by simp
  define n where "n = nh_number (parent_num_hash L (clone_sealed_header b))"
  have "unat (number b) \<noteq> 0" using x(2) by (simp add: unat_eq_0)
  then have pn: "nh_hash (parent_num_hash L (clone_sealed_header b)) = parent_hash b"
    "nm (parent_hash b) = Suc (unat n)"
    using law nx(2) unfolding parent_num_hash_law_def n_def by (simp_all add: unat_saturating_sub)
  obtain n' h' hs' where w: "walk_new_chain ?pr ?c n (parent_hash b) [clone_sealed_header b] =
      Some (n', h', hs')" "?anc h' a'" "nm h' = Suc (unat n')" "n' \<le> ?c"
    using walk_new_chain_finds [OF hts low a'(1) pn(2)] by blast
  have "nm a' \<le> Suc (unat n')" using ancestor_height [OF hts w(2)] w(3) by simp
  from walk_old_chain_finds [OF hts this a'(2) head w(4)] obtain h\<^sub>o os where
    o': "walk_old_chain ?pr ?c n' ?h [] = Some (h\<^sub>o, os)" "?anc h\<^sub>o a'" "nm h\<^sub>o = Suc (unat n')" by blast
  obtain r where "walk_to_fork ?pr h\<^sub>o h' os hs' = Some (Some r)"
    using walk_to_fork_finds [OF hts o'(2) w(2)] o'(3) w(3) by metis
  then show ?thesis
    using sx w(1) o'(1) pn(1) unfolding n_def
    by (cases "h' = ?h"; cases r) (simp_all add: on_new_head_def Let_def)
qed

section \<open>Forks\<close>

text \<open>\<open>is_fork\<close> says whether the head is missing among the ancestors of the block.\<close>

lemma is_fork_correct:
  assumes hts: "heights nm (chain_state_of pr)" and wf: "cs_wf (chain_state_of pr)"
    and head: "fmlookup (blocks_by_hash (chain_state_of pr)) (nh_hash head) = Some hb"
      "number hb = nh_number head"
  shows "is_fork_loop pr head h = Some (\<not> ancestor_in (chain_state_of pr) h (nh_hash head))"
proof (induction "nm h" arbitrary: h rule: less_induct)
  case less
  show ?case
  proof (cases "fmlookup (blocks_by_hash (chain_state_of pr)) h")
    case None
    then have "\<not> ancestor_in (chain_state_of pr) h (nh_hash head)"
      using head(1) None by (auto elim: ancestor_storedE)
    moreover have "provider_sealed_header pr h = None" using None by (simp add: provider_sealed_header_None)
    ultimately show ?thesis by (subst is_fork_loop.simps) simp
  next
    case (Some b)
    then have s: "provider_sealed_header pr h = Some (clone_sealed_header b)" and hb: "hash b = h"
      using cs_wf_hash [OF wf Some] by (simp_all add: provider_sealed_header_Some)
    have nm: "nm h = Suc (unat (number b))" "nm (parent_hash b) = unat (number b)"
      "nm (nh_hash head) = Suc (unat (nh_number head))"
      using hts Some head unfolding heights_def by auto
    have step: "ancestor_in (chain_state_of pr) h (nh_hash head) \<longleftrightarrow>
        nh_hash head = h \<or> ancestor_in (chain_state_of pr) (parent_hash b) (nh_hash head)"
      using Some by (rule ancestor_step_iff)
    consider "h = nh_hash head" | "h \<noteq> nh_hash head" "number b \<le> nh_number head"
      | "h \<noteq> nh_hash head" "\<not> number b \<le> nh_number head" by blast
    then show ?thesis
    proof cases
      case 1
      then show ?thesis using s hb by (subst is_fork_loop.simps) (simp add: is_ancestor_refl)
    next
      case 2
      then have "\<not> ancestor_in (chain_state_of pr) h (nh_hash head)"
        using ancestor_same_height [OF hts] nm by (metis Suc_le_mono word_le_nat_alt)
      then show ?thesis using 2 s hb by (subst is_fork_loop.simps) simp
    next
      case 3
      have "is_fork_loop pr head (parent_hash b) =
          Some (\<not> ancestor_in (chain_state_of pr) (parent_hash b) (nh_hash head))"
        by (rule less.hyps) (simp add: nm)
      then show ?thesis using 3 s hb step by (subst is_fork_loop.simps) auto
    qed
  qed
qed

end
