(* ===== verification/Tree_Props.thy ===== *)
theory Tree_Props
  imports Launch Head_Update
begin

text \<open>
  The properties of the engine tree: inserting a block, the canonical chain and its head, the
  answers of the three handlers, finality, and connecting buffered blocks; with an instance of each
  on the concrete trees of \<open>Launch\<close>.
\<close>

section \<open>Connecting buffered blocks\<close>

fun connectable :: "b256 set \<Rightarrow> (recovered_block \<times> 'p) list \<Rightarrow> bool" where
  "connectable S [] \<longleftrightarrow> True"
| "connectable S (r # rs) \<longleftrightarrow> parent_hash (fst r) \<in> S \<and> connectable (insert (hash (fst r)) S) rs"

lemma connectable_parents_first:
  "parents_first rs \<Longrightarrow> (\<And>r. r \<in> set rs \<Longrightarrow> parent_hash (fst r) \<in> S \<union> (hash \<circ> fst) ` set rs) \<Longrightarrow>
     connectable S rs"
proof (induction rs arbitrary: S)
  case (Cons r rs)
  have "parent_hash (fst r) \<in> S" using Cons.prems(1) Cons.prems(2) [of r] by auto
  moreover have "connectable (insert (hash (fst r)) S) rs"
    using Cons.prems by (intro Cons.IH) auto
  ultimately show ?case by simp
qed simp

text \<open>The verifier accepts the block with its proof on top of its parent.\<close>

definition acceptable ::
  "('p, 'x, 'e, 'a, 'i, 'f, 'l) tree_lib \<Rightarrow> recovered_block set \<Rightarrow> recovered_block \<Rightarrow> 'p \<Rightarrow> bool" where
  "acceptable L U b w \<longleftrightarrow> validate_block L (clone_sealed_block b) = None \<and>
     (\<forall>cs. \<forall>q \<in> U. hash q = parent_hash b \<longrightarrow> verify L cs b (clone_sealed_header q) w = None)"

lemma insert_acceptable:
  assumes env: "tree_env L keys ents rk U" and inv: "tree_inv L keys ents rk U t" and b: "b \<in> U"
    and acc: "acceptable L U b w" and p: "stored t (parent_hash b) \<noteq> None"
  shows "\<exists>r t'. insert_block L b (Some w) t = Some (Inr r, t') \<and> tree_inv L keys ents rk U t' \<and>
    stored t \<subseteq>\<^sub>m stored t' \<and> stored t' (hash b) \<noteq> None"
proof -
  obtain r t' where i: "insert_block L b (Some w) t = Some (r, t')" "tree_inv L keys ents rk U t'"
    and e: "insert_effect L b (Some w) t r t'"
    using tree_insert_block_correct [OF env inv b] by blast
  have "q \<in> U \<and> hash q = parent_hash b" if "stored t (parent_hash b) = Some q" for q
    using tree_invD(2,3) [OF inv that] by simp
  then have "r = Inr AlreadySeen \<or> r = Inr (Inserted Valid)"
    using e acc p
    by (auto simp: insert_effect_def acceptable_def
        split: sum.splits insert_payload_ok.splits block_status.splits)
  then show ?thesis using i insert_effect_step [OF inv b e] by blast
qed

lemma connect_blocks_stores:
  assumes env: "tree_env L keys ents rk U"
  shows "tree_inv L keys ents rk U t \<Longrightarrow> connectable S l \<Longrightarrow> (\<forall>x \<in> S. stored t x \<noteq> None) \<Longrightarrow>
    (\<forall>(b, w) \<in> set l. b \<in> U \<and> acceptable L U b w) \<Longrightarrow>
    \<exists>t'. connect_blocks L l t = Some (None, t') \<and> stored t \<subseteq>\<^sub>m stored t' \<and>
      (\<forall>x \<in> (hash \<circ> fst) ` set l. stored t' x \<noteq> None)"
proof (induction l arbitrary: t S)
  case (Cons x l)
  obtain b w where x: "x = (b, w)" by (cases x)
  have b: "b \<in> U" "acceptable L U b w" "stored t (parent_hash b) \<noteq> None"
    using Cons.prems x by auto
  obtain r t1 where i: "insert_block L b (Some w) t = Some (Inr r, t1)"
    "tree_inv L keys ents rk U t1" "stored t \<subseteq>\<^sub>m stored t1" "stored t1 (hash b) \<noteq> None"
    using insert_acceptable [OF env Cons.prems(1) b] by blast
  obtain t2 where m: "(if is_sync_target_head L t1 (hash b) \<and> r = Inserted Valid
      then make_canonical L (hash b) t1 else Some t1) = Some t2"
    "tree_inv L keys ents rk U t2" "stored t2 = stored t1"
    using make_canonical_correct [OF env i(2), of "hash b"] i(2)
    by (cases "is_sync_target_head L t1 (hash b) \<and> r = Inserted Valid") auto
  have "connectable (insert (hash b) S) l" "\<forall>x \<in> insert (hash b) S. stored t2 x \<noteq> None"
    "\<forall>(b, w) \<in> set l. b \<in> U \<and> acceptable L U b w"
    using Cons.prems x i(3,4) m(3) by (auto simp: map_le_def dom_def)
  from Cons.IH [OF m(2) this] obtain t3 where
    c: "connect_blocks L l t2 = Some (None, t3)" "stored t2 \<subseteq>\<^sub>m stored t3"
    "\<forall>x \<in> (hash \<circ> fst) ` set l. stored t3 x \<noteq> None" by blast
  have "connect_blocks L (x # l) t = connect_blocks L l t2"
    unfolding x connect_blocks.simps i(1) by (simp only: Option.bind.simps prod.case sum.case m(1))
  then have "connect_blocks L (x # l) t = Some (None, t3)" using c(1) by (rule trans)
  moreover have "stored t \<subseteq>\<^sub>m stored t3"
    using map_le_trans [OF i(3), of "stored t3"] c(2) unfolding m(3) by simp
  moreover have "stored t3 (hash b) \<noteq> None" using i(4) m(3) c(2) by (metis domIff map_le_def)
  then have "\<forall>y \<in> (hash \<circ> fst) ` set (x # l). stored t3 y \<noteq> None" using c(3) by (simp add: x)
  ultimately show ?case by blast
qed simp

lemma descendant_parent:
  assumes inv: "links_inv P buf" and x: "x \<in> descendants buf {h}" "x \<noteq> h"
    and b: "fmlookup (blocks buf) x = Some b"
  shows "parent_hash b \<in> descendants buf {h}"
proof -
  obtain q where "q \<in> closure (kids buf) {h}" "x |\<in>| kids buf q"
    using x unfolding descendants_def by (auto elim: closure.cases)
  then show ?thesis
    using links_child [OF inv, of x q] b unfolding descendants_def by auto
qed

lemma connect_buffered_spec:
  assumes env: "tree_env L keys ents rk U" and inv: "tree_inv L keys ents rk U t"
    and h: "stored t h \<noteq> None" "buffered t h = None"
    and all: "\<And>x b. x \<in> descendants (block_buffer t) {h} \<Longrightarrow> buffered t x = Some b \<Longrightarrow>
      \<exists>w. buffer_proof (block_buffer t) x = Some w \<and> acceptable L U b w"
  shows "\<exists>t'. try_connect_buffered_blocks L h t = Some (None, t') \<and>
    (\<forall>x \<in> descendants (block_buffer t) {h}. stored t' x \<noteq> None)"
proof -
  let ?D = "descendants (block_buffer t) {h}"
  note binv = tree_invD(4) [OF inv]
  note links = buffer_links [OF binv]
  obtain rs buf where rb: "remove_block_with_children (buffer_ops L) h (block_buffer t) = (rs, buf)"
    by (cases "remove_block_with_children (buffer_ops L) h (block_buffer t)")
  note spec = remove_block_with_children_spec [OF tree_envD(2) [OF env] binv tree_ranked(2) [OF env inv] rb]
  have "lru_max_length (buffer_ops L) (lru buf) = lru_max_length (buffer_ops L) (lru (block_buffer t))"
    using remove_block_with_children_limit [OF tree_envD(2) [OF env], of h "block_buffer t"] rb by simp
  then have inv1: "tree_inv L keys ents rk U (t\<lparr>block_buffer := buf\<rparr>)"
    using inv spec unfolding tree_inv_def by (auto split: if_splits)
  have in_D: "\<exists>b w. buffered t x = Some b \<and> buffer_proof (block_buffer t) x = Some w \<and>
      acceptable L U b w \<and> hash b = x" if "x \<in> ?D" "x \<noteq> h" for x
  proof -
    note x = that
    obtain q where "q \<in> closure (kids (block_buffer t)) {h}" "x |\<in>| kids (block_buffer t) q"
      using x unfolding descendants_def by (auto elim: closure.cases)
    then obtain b where "buffered t x = Some b" using links_child [OF links, of x q] by auto
    then show ?thesis using all [OF x(1)] tree_invD(7) [OF inv] by blast
  qed
  have rs: "r \<in> set rs \<longleftrightarrow> (\<exists>x \<in> ?D. x \<noteq> h \<and> buffered t x = Some (fst r) \<and>
      buffer_proof (block_buffer t) x = Some (snd r))" for r
  proof -
    have "r \<in> set rs \<longleftrightarrow> (\<exists>x \<in> ?D. buffered t x = Some (fst r) \<and>
        buffer_proof (block_buffer t) x = Some (snd r))"
      using spec by (cases r) (simp add: removable_Some buffer_proof_def)
    then show ?thesis using h(2) by (metis option.distinct(1))
  qed
  have mem: "fst r \<in> U \<and> acceptable L U (fst r) (snd r)" if "r \<in> set rs" for r
    using that in_D tree_invD(6) [OF inv] unfolding rs by fastforce
  have hashes: "(hash \<circ> fst) ` set rs = ?D - {h}"
  proof (intro equalityI subsetI)
    fix x assume "x \<in> ?D - {h}"
    then obtain b w where "buffered t x = Some b" "buffer_proof (block_buffer t) x = Some w" "hash b = x"
      using in_D by blast
    then have "(b, w) \<in> set rs" using \<open>x \<in> ?D - {h}\<close> rs [of "(b, w)"] by auto
    then show "x \<in> (hash \<circ> fst) ` set rs" using \<open>hash b = x\<close> by force
  qed (use rs tree_invD(7) [OF inv] in auto)
  have con: "connectable {h} rs"
  proof (rule connectable_parents_first)
    fix r assume "r \<in> set rs"
    then obtain x where "x \<in> ?D" "x \<noteq> h" "buffered t x = Some (fst r)" using rs by blast
    then have "parent_hash (fst r) \<in> ?D" by (rule descendant_parent [OF links])
    then show "parent_hash (fst r) \<in> {h} \<union> (hash \<circ> fst) ` set rs" unfolding hashes by blast
  qed (use spec in blast)
  have "\<forall>x \<in> {h}. stored (t\<lparr>block_buffer := buf\<rparr>) x \<noteq> None" using h(1) by simp
  moreover have "\<forall>(b, w) \<in> set rs. b \<in> U \<and> acceptable L U b w" using mem by auto
  ultimately obtain t' where c: "connect_blocks L rs (t\<lparr>block_buffer := buf\<rparr>) = Some (None, t')"
    "stored (t\<lparr>block_buffer := buf\<rparr>) \<subseteq>\<^sub>m stored t'" "\<forall>x \<in> ?D - {h}. stored t' x \<noteq> None"
    using connect_blocks_stores [OF env inv1 con] unfolding hashes by blast
  show ?thesis
  proof (cases "rs = []")
    case True
    then have "?D = {h}" using hashes by (auto simp: descendants_met)
    moreover have "try_connect_buffered_blocks L h t = Some (None, t\<lparr>block_buffer := buf\<rparr>)"
      using True rb by (simp add: try_connect_buffered_blocks_def)
    moreover have "stored (t\<lparr>block_buffer := buf\<rparr>) h \<noteq> None" using h(1) by simp
    ultimately show ?thesis by simp
  next
    case False
    then have "try_connect_buffered_blocks L h t = Some (None, t')"
      using c(1) rb by (simp add: try_connect_buffered_blocks_def Let_def)
    moreover have "stored t' h \<noteq> None" using h(1) c(2) by (auto simp: map_le_def dom_def)
    then have "\<forall>x \<in> ?D. stored t' x \<noteq> None" using c(3) by blast
    ultimately show ?thesis by blast
  qed
qed


section \<open>Events and heads\<close>

lemma insert_valid_event_spec:
  assumes env: "tree_env L keys ents rk U" and num: "numbers_checked L nm U"
    and good: "tree_good L keys ents rk U nm t" and b: "b \<in> U"
    and i: "insert_block L b mp t = Some (Inr (Inserted Valid), t')"
  shows "events t' = events t @
    [if ancestor_in (chain_state_of (provider t')) (hash b) (nh_hash (canonical_head t))
     then CanonicalBlockAdded b else ForkBlockAdded b]"
proof -
  have inv: "tree_inv L keys ents rk U t"
    and ok: "chain_ok nm (chain_state_of (provider t)) (canonical_head t)"
    using good by (simp_all add: tree_good_def)
  obtain f w where f: "is_fork (t\<lparr>provider := provider_insert_block b (Some w) (provider t)\<rparr>) (hash b) = Some f"
    and t': "t' = emit_event (if f then ForkBlockAdded b else CanonicalBlockAdded b)
      (t\<lparr>provider := provider_insert_block b (Some w) (provider t)\<rparr>)"
    using i unfolding Engine_Tree.insert_block_def
    by (auto simp: Let_def split: if_splits option.splits bind_splits)
  have e: "insert_effect L b mp t (Inr (Inserted Valid)) t'" and inv': "tree_inv L keys ents rk U t'"
    using tree_insert_block_correct [OF env inv b, of mp] i by simp_all
  have ok': "chain_ok nm (chain_state_of (provider t')) (canonical_head t')"
    using insert_effect_step [OF inv b e] num ok unfolding tree_step_def by blast
  obtain hb where "stored t' (nh_hash (canonical_head t')) = Some hb"
    "number hb = nh_number (canonical_head t')"
    using ok' unfolding chain_ok_def canonical_chain_def by fastforce
  note fork = is_fork_correct [where nm = nm, OF _ tree_invD(1) [OF inv'] this]
  have "is_fork t' (hash b) =
      Some (\<not> ancestor_in (chain_state_of (provider t')) (hash b) (nh_hash (canonical_head t')))"
    unfolding is_fork_def by (rule fork) (use ok' in \<open>simp add: chain_ok_def\<close>)
  moreover have "is_fork t' (hash b) = Some f" using f by (simp add: t' emit_event_def is_fork_def)
  ultimately show ?thesis by (simp add: t' emit_event_def)
qed

lemma make_canonical_sets_head_spec:
  assumes env: "tree_env L keys ents rk U" and good: "tree_good L keys ents rk U nm t"
    and num: "numbers_checked L nm U"
    and x: "stored t x = Some b" "number b \<noteq> 0"
    and anc: "ancestor_in (chain_state_of (provider t)) x a"
      "ancestor_in (chain_state_of (provider t)) (nh_hash (canonical_head t)) a"
  shows "\<exists>t'. make_canonical L x t = Some t' \<and>
    canonical_head t' = \<lparr>nh_number = number b, nh_hash = x\<rparr> \<and> stored t' = stored t \<and>
    canonical_chain (chain_state_of (provider t')) (canonical_head t')"
proof -
  have inv: "tree_inv L keys ents rk U t"
    and ok: "chain_ok nm (chain_state_of (provider t)) (canonical_head t)"
    using good by (simp_all add: tree_good_def)
  have hts: "heights nm (chain_state_of (provider t))" using ok by (simp add: chain_ok_def)
  obtain hb where hb: "stored t (nh_hash (canonical_head t)) = Some hb"
    "number hb = nh_number (canonical_head t)"
    using ok unfolding chain_ok_def canonical_chain_def by fastforce
  then have "nm (nh_hash (canonical_head t)) = Suc (unat (nh_number (canonical_head t)))"
    using hts unfolding heights_def by auto
  from on_new_head_finds [OF tree_envD(1) [OF env] hts this x anc] obtain c where
    c: "on_new_head L t x = Some (Some c)" by blast
  then have "new_head_effect t x c" using on_new_head_correct [OF env inv, of x] by auto
  from on_canonical_chain_update_correct [OF inv this, of nm] obtain t' where
    t': "on_canonical_chain_update c t = Some t'" "tree_step L nm U t t'" "stored t' = stored t"
    "nh_hash (canonical_head t') = x" by blast
  have can: "canonical_chain (chain_state_of (provider t')) (canonical_head t')"
    using t'(2) num ok unfolding tree_step_def chain_ok_def by blast
  then have "nh_number (canonical_head t') = number b"
    using t'(3,4) x(1) unfolding canonical_chain_def by metis
  then show ?thesis
    using can c t' by (auto simp: make_canonical_def intro!: num_hash.equality)
qed

lemma no_update_not_canonical:
  assumes env: "tree_env L keys ents rk U" and good: "tree_good L keys ents rk U nm t"
    and x: "stored t x = Some b" "number b \<noteq> 0" and none: "on_new_head L t x = Some None"
  shows "\<not> provider_is_hash_canonical (provider t) x"
proof
  assume "provider_is_hash_canonical (provider t) x"
  have ok: "chain_ok nm (chain_state_of (provider t)) (canonical_head t)"
    using good by (simp add: tree_good_def)
  have hts: "heights nm (chain_state_of (provider t))" using ok by (simp add: chain_ok_def)
  have anc: "ancestor_in (chain_state_of (provider t)) (nh_hash (canonical_head t)) x"
    using ok x(1) \<open>provider_is_hash_canonical (provider t) x\<close>
    unfolding chain_ok_def canonical_chain_def is_hash_canonical_iff by blast
  obtain hb where "stored t (nh_hash (canonical_head t)) = Some hb"
    "number hb = nh_number (canonical_head t)"
    using ok unfolding chain_ok_def canonical_chain_def by fastforce
  then have "nm (nh_hash (canonical_head t)) = Suc (unat (nh_number (canonical_head t)))"
    using hts unfolding heights_def by auto
  from on_new_head_finds [OF tree_envD(1) [OF env] hts this x is_ancestor_refl anc] none
  show False by simp
qed

section \<open>Properties\<close>

text \<open>
  C13: inserting a block returns and leaves one of the documented effects: an error (without a
  change) only from the consensus or the verifier; \<open>AlreadySeen\<close> for a stored block; \<open>Valid\<close> after
  storing a block whose parent is stored and whose proof is verified; \<open>NoProof\<close> after buffering a
  block on a stored parent; \<open>Disconnected\<close> after buffering it otherwise, with the first ancestor
  that is not buffered. The invariant is kept.
\<close>

theorem insert_block_effect:
  assumes "tree_env L keys ents rk U" and "tree_inv L keys ents rk U t" and "b \<in> U"
  shows "\<exists>r t'. insert_block L b mp t = Some (r, t') \<and> insert_effect L b mp t r t' \<and>
    tree_inv L keys ents rk U t'"
  using assms by (rule tree_insert_block_correct)

text \<open>
  A block inserted as valid is announced once: as a canonical block if the canonical head is
  the block's ancestor, as a fork block otherwise.
\<close>

theorem insert_valid_event:
  assumes "tree_env L keys ents rk U" and "numbers_checked L nm U"
    and "tree_good L keys ents rk U nm t" and "b \<in> U"
    and "insert_block L b mp t = Some (Inr (Inserted Valid), t')"
  shows "events t' = events t @
    [if ancestor_in (chain_state_of (provider t')) (hash b) (nh_hash (canonical_head t))
     then CanonicalBlockAdded b else ForkBlockAdded b]"
  using assms by (rule insert_valid_event_spec)

text \<open>
  C29: the chain update \<open>on_new_head\<close> finds is a chain of stored headers from the canonical head, or
  from a common ancestor of it and the new head; an unknown head has none. The walks return.
\<close>

theorem on_new_head_sound:
  assumes "tree_env L keys ents rk U" and "tree_inv L keys ents rk U t"
  shows "\<exists>r. on_new_head L t x = Some r \<and> (stored t x = None \<longrightarrow> r = None) \<and>
    (case r of
       None \<Rightarrow> True
     | Some (Commit new) \<Rightarrow> new \<noteq> [] \<and>
         linked_chain (provider t) (nh_hash (canonical_head t)) new x
     | Some (Reorg new old) \<Rightarrow> new \<noteq> [] \<and> old \<noteq> [] \<and>
         (\<exists>a. linked_chain (provider t) a new x \<and>
              linked_chain (provider t) a old (nh_hash (canonical_head t))))"
  using on_new_head_correct [OF assms, of x]
  by (fastforce simp: new_head_effect_def split: option.splits new_canonical_chain.splits)

text \<open>
  C12: making a stored block canonical that shares an ancestor with the canonical head makes it the
  head: the canonical hashes are then exactly the chain of the block, and no block is lost.
\<close>

theorem make_canonical_sets_head:
  assumes "tree_env L keys ents rk U" and "tree_good L keys ents rk U nm t"
    and "numbers_checked L nm U" and "stored t x = Some b" and "number b \<noteq> 0"
    and "ancestor_in (chain_state_of (provider t)) x a"
    and "ancestor_in (chain_state_of (provider t)) (nh_hash (canonical_head t)) a"
  shows "\<exists>t'. make_canonical L x t = Some t' \<and>
    canonical_head t' = \<lparr>nh_number = number b, nh_hash = x\<rparr> \<and> stored t' = stored t \<and>
    canonical_chain (chain_state_of (provider t')) (canonical_head t')"
  using assms by (rule make_canonical_sets_head_spec)

text \<open>
  Finality keeps the canonical chain: pruning at a canonical block leaves the canonical hashes
  the chain of the head among the blocks that remain.
\<close>

theorem finality_keeps_chain:
  assumes "chain_ok nm cs head" and "cs_wf cs" and "canonical cs kf = Some f"
  shows "chain_ok nm (remove_blocks_on_finalized f cs) head"
  using assms by (rule prune_ok)

text \<open>
  The launched tree satisfies the invariant, and genesis is its canonical chain.
\<close>

theorem launch_tree_good:
  assumes "tree_env L keys ents rk U" and "genesis_block spec \<in> U"
    and "number (genesis_header spec) = 0" and "nm (genesis_hash spec) = Suc 0"
    and "nm (parent_hash (genesis_header spec)) = 0"
  shows "tree_good L keys ents rk U nm (launch_tree L spec)"
  unfolding tree_good_def
  using launch_tree_inv [OF assms(1,2)] launch_chain_ok [OF assms(3-5)] by blast

text \<open>
  C8: a new payload is always answered. \<open>VALID\<close> names the payload, which is then stored;
  \<open>SYNCING\<close> comes with a download; the latest valid hash of \<open>INVALID\<close> is a stored block or zero.
  Only blocks the consensus and the verifier accepted are stored, none is lost, and the tree stays
  good.
\<close>

theorem new_payload_answered:
  assumes "tree_env L keys ents rk U" and "numbers_checked L nm U" and "payload_laws L U"
    and "tree_good L keys ents rk U nm t"
  shows "\<exists>r t'. on_new_payload L x mp t = Some (r, t') \<and> tree_good L keys ents rk U nm t' \<and>
    stored t \<subseteq>\<^sub>m stored t' \<and>
    (\<forall>h b. stored t' h = Some b \<longrightarrow> stored t h = Some b \<or> accepted L b) \<and>
    (\<forall>o'. r = Inr o' \<longrightarrow> answer_ok t' (payload_block_hash L x) o')"
  using on_new_payload_run [OF assms(1) _ assms(3), of t x mp nm] assms(2,4) tree_good_step
  unfolding run_ok_def by (fastforce simp: tree_good_def tree_step_def)

text \<open>C20: the same for a downloaded block and its proof.\<close>

theorem downloaded_block_answered:
  assumes "tree_env L keys ents rk U" and "numbers_checked L nm U" and "b \<in> U"
    and "tree_good L keys ents rk U nm t"
  shows "\<exists>r t'. on_downloaded_block L b w t = Some (r, t') \<and> tree_good L keys ents rk U nm t' \<and>
    stored t \<subseteq>\<^sub>m stored t' \<and>
    (\<forall>h c. stored t' h = Some c \<longrightarrow> stored t h = Some c \<or> accepted L c) \<and>
    (\<forall>o'. r = Inr o' \<longrightarrow> answer_ok t' (hash b) o')"
  using on_downloaded_block_run [OF assms(1) _ assms(3), of t w nm] assms(2,4) tree_good_step
  unfolding run_ok_def by (fastforce simp: tree_good_def tree_step_def)

text \<open>
  C9: a forkchoice update is always answered, and truly: \<open>VALID\<close> names the head, which is the
  canonical head or was stored; \<open>SYNCING\<close> means an unknown head, and a download is of a block
  neither stored nor buffered; an invalid state has a zero head or a safe or finalized hash that is
  not canonical. The tree stays good.
\<close>

theorem forkchoice_answered:
  assumes "tree_env L keys ents rk U" and "numbers_checked L nm U"
    and "tree_good L keys ents rk U nm t"
  shows "\<exists>r t'. on_forkchoice_updated L state attrs v t = Some (r, t') \<and>
    tree_good L keys ents rk U nm t' \<and>
    (case r of
       Inr o' \<Rightarrow> fcu_answer_ok t t' state o'
     | Inl e \<Rightarrow> e = HeaderNotFound (head_block_hash state) \<and>
         stored t (head_block_hash state) = None)"
proof -
  obtain r t' where "on_forkchoice_updated L state attrs v t = Some (r, t')"
    "tree_inv L keys ents rk U t'" "tree_step L nm U t t'"
    "case r of Inr o' \<Rightarrow> fcu_answer_ok t t' state o'
     | Inl e \<Rightarrow> e = HeaderNotFound (head_block_hash state) \<and>
         nh_hash (canonical_head t) = head_block_hash state \<and>
         stored t (head_block_hash state) = None"
    using on_forkchoice_updated_run [OF assms(1), where t = t and nm = nm and state = state and
      attrs = attrs and v = v] assms(3) unfolding tree_good_def by blast
  then show ?thesis using tree_good_step [OF assms(3,2)] by (cases r) auto
qed


text \<open>
  A forkchoice update is refused as inconsistent exactly if its finalized or its safe hash is
  not zero and not canonical at any number.
\<close>

theorem consistent_forkchoice_state:
  "ensure_consistent_forkchoice_state t state =
     (if \<exists>h \<in> {finalized_block_hash state, safe_block_hash state}.
           h \<noteq> 0 \<and> (\<forall>k. canonical (chain_state_of (provider t)) k \<noteq> Some h)
      then Some FcuInvalidState else None)"
  by (auto simp: ensure_consistent_forkchoice_state_def is_hash_canonical_iff)

definition ex_finalized :: ex_tree_type where
  "ex_finalized = ex_fcu 13 13 ex_forked"


text \<open>
  That branch is never taken for a canonical head other than genesis: every canonical block
  shares an ancestor with the head, so a chain update is found for it and the head moves back.
\<close>

theorem canonical_branch_not_canonical:
  assumes "tree_env L keys ents rk U" and "tree_good L keys ents rk U nm t"
    and "stored t x = Some b" and "number b \<noteq> 0" and "on_new_head L t x = Some None"
  shows "\<not> provider_is_hash_canonical (provider t) x"
  using assms by (rule no_update_not_canonical)

text \<open>
  The response for a descendant of a rejected block whose valid ancestor is unknown names the
  zero hash as the latest valid hash, where the engine API asks for none.
\<close>

theorem unknown_ancestor_zero_hash:
  assumes "stored t p = None" and "fst (invalid_get L p (invalid_headers t)) = None"
  shows "\<exists>t'. prepare_invalid_response L p t =
    Some (with_latest_valid_hash
      (payload_status_from_status (StatusInvalid (links_to_rejected_payload L))) 0, t')"
proof -
  obtain i where i: "invalid_get L p (invalid_headers t) = (None, i)"
    using assms(2) by (cases "invalid_get L p (invalid_headers t)") simp
  have p: "provider_sealed_header (provider t) p = None"
    using assms(1) by (simp add: provider_sealed_header_None)
  have "invalid_ancestors_loop L (provider t) None i = Some (None, i)"
    by (subst invalid_ancestors_loop.simps) simp
  then show ?thesis
    by (simp add: prepare_invalid_response_def latest_valid_hash_for_invalid_payload_def i p)
qed

section \<open>Concrete instances\<close>

lemmas ex_tree_inv = ex_trees_good(1) [unfolded tree_good_def, THEN conjunct1]
lemmas ex_forked_inv = ex_trees_good(2) [unfolded tree_good_def, THEN conjunct1]

lemma ex_universe_mem: "mk_block 3 13 12 \<in> set ex_universe" "mk_block 2 22 11 \<in> set ex_universe"
  by (simp_all add: ex_universe_def)

theorem insert_block_witness:
  "\<exists>t'. insert_block ex_lib (mk_block 3 13 12) None ex_tree = Some (Inr (Inserted NoProof), t') \<and>
     t' = ex_tree\<lparr>block_buffer :=
       Block_Buffer.insert_block list_lru (mk_block 3 13 12) (block_buffer ex_tree)\<rparr>"
proof -
  have "fst (the (insert_block ex_lib (mk_block 3 13 12) None ex_tree)) = Inr (Inserted NoProof)"
    by code_simp
  then show ?thesis
    using insert_block_effect [OF ex_env ex_tree_inv ex_universe_mem(1), of None]
    by (auto simp: insert_effect_def ex_lib_def)
qed

theorem insert_valid_event_witness:
  "\<exists>t'. insert_block ex_lib (mk_block 2 22 11) (Some 7) ex_tree = Some (Inr (Inserted Valid), t') \<and>
     events t' = events ex_tree @ [ForkBlockAdded (mk_block 2 22 11)]"
proof -
  let ?r = "insert_block ex_lib (mk_block 2 22 11) (Some 7) ex_tree"
  have "fst (the ?r) = Inr (Inserted Valid)" "?r \<noteq> None" by code_simp+
  then obtain t' where i: "?r = Some (Inr (Inserted Valid), t')" by (cases ?r) auto
  have "is_fork (snd (the ?r)) 22 = Some True" by code_simp
  have "events (snd (the ?r)) \<noteq> events ex_tree @ [CanonicalBlockAdded (mk_block 2 22 11)]"
    by code_simp
  then show ?thesis
    using insert_valid_event [OF ex_env ex_numbers ex_trees_good(1) ex_universe_mem(2) i] i
    by (auto split: if_splits)
qed

theorem on_new_head_witness:
  "\<exists>a new old. on_new_head ex_lib ex_forked 23 = Some (Some (Reorg new old)) \<and>
     linked_chain (provider ex_forked) a new 23 \<and> linked_chain (provider ex_forked) a old 12 \<and>
     map hash new = [22, 23] \<and> map hash old = [12]"
proof -
  have "case on_new_head ex_lib ex_forked 23 of
      Some (Some (Reorg new old)) \<Rightarrow> map hash new = [22, 23] \<and> map hash old = [12] | _ \<Rightarrow> False"
    by code_simp
  then obtain new old where r: "on_new_head ex_lib ex_forked 23 = Some (Some (Reorg new old))"
    "map hash new = [22, 23]" "map hash old = [12]"
    by (auto split: option.splits new_canonical_chain.splits)
  then show ?thesis
    using on_new_head_sound [OF ex_env ex_forked_inv, of 23] ex_stored(3) by auto
qed

theorem make_canonical_witness:
  "\<exists>t'. make_canonical ex_lib 23 ex_forked = Some t' \<and>
     canonical_head t' = \<lparr>nh_number = 3, nh_hash = 23\<rparr> \<and>
     canonical_chain (chain_state_of (provider t')) (canonical_head t')"
proof -
  have s: "stored ex_forked 22 = Some (mk_block 2 22 11)" "stored ex_forked 12 = Some (mk_block 2 12 11)"
    by code_simp+
  have "ancestor_in (chain_state_of (provider ex_forked)) 22 11"
    using s(1) by (rule is_ancestor_step) (simp add: is_ancestor_refl)
  then have a: "ancestor_in (chain_state_of (provider ex_forked)) 23 11"
    using is_ancestor_step [where lk = "stored ex_forked" and par = parent_hash] ex_stored(2) by simp
  have b: "ancestor_in (chain_state_of (provider ex_forked)) 12 11"
    using s(2) by (rule is_ancestor_step) (simp add: is_ancestor_refl)
  show ?thesis
    using make_canonical_sets_head [OF ex_env ex_trees_good(2) ex_numbers ex_stored(2) _ a] b
      ex_stored(3) by auto
qed

theorem finality_witness:
  "chain_ok ex_height (remove_blocks_on_finalized 11 (chain_state_of (provider ex_tree)))
     (canonical_head ex_tree) \<and>
   fmlookup (blocks_by_hash (remove_blocks_on_finalized 11 (chain_state_of (provider ex_tree)))) 10 = None"
proof -
  have "canonical (chain_state_of (provider ex_tree)) 1 = Some 11"
    "fmlookup (blocks_by_hash (remove_blocks_on_finalized 11 (chain_state_of (provider ex_tree)))) 10 = None"
    by code_simp+
  then show ?thesis
    using finality_keeps_chain [OF _ tree_invD(1) [OF ex_tree_inv]] ex_trees_good(1)
    by (auto simp: tree_good_def)
qed

theorem launch_tree_witness:
  "tree_good ex_lib list_lru_keys fmlookup unat (set ex_universe) ex_height (launch_tree ex_lib ex_spec)"
  by (rule launch_tree_good [OF ex_env])
     (simp_all add: ex_genesis, simp_all add: ex_spec_def ex_universe_def ex_height_def)

lemma ex_payload_laws: "payload_laws ex_lib (set ex_universe)"
  by (auto simp: payload_laws_def ex_lib_def)

text \<open>The answers of the handlers on the concrete tree.\<close>

definition valid_answer :: "b256 \<Rightarrow> payload_status tree_outcome" where
  "valid_answer h = tree_outcome_new (payload_status_new StatusValid (Some h))"

theorem new_payload_witness:
  "\<exists>t'. on_new_payload ex_lib (mk_block 3 13 12) (Some 7) ex_tree = Some (Inr (valid_answer 13), t') \<and>
     tree_good ex_lib list_lru_keys fmlookup unat (set ex_universe) ex_height t' \<and>
     stored t' 13 \<noteq> None"
proof -
  have "map_option fst (on_new_payload ex_lib (mk_block 3 13 12) (Some 7) ex_tree) =
      Some (Inr (valid_answer 13))" by code_simp
  moreover have "payload_block_hash ex_lib (mk_block 3 13 12) = 13" by (simp add: ex_lib_def)
  ultimately show ?thesis
    using new_payload_answered [OF ex_env ex_numbers ex_payload_laws ex_trees_good(1),
        of "mk_block 3 13 12" "Some 7"]
    by (auto simp: answer_ok_def valid_answer_def)
qed

theorem downloaded_block_witness:
  "\<exists>t'. on_downloaded_block ex_lib (mk_block 3 13 12) 7 ex_tree = Some (Inr (valid_answer 13), t') \<and>
     tree_good ex_lib list_lru_keys fmlookup unat (set ex_universe) ex_height t' \<and>
     stored t' 13 \<noteq> None"
proof -
  have "map_option fst (on_downloaded_block ex_lib (mk_block 3 13 12) 7 ex_tree) =
      Some (Inr (valid_answer 13))" by code_simp
  then show ?thesis
    using downloaded_block_answered [OF ex_env ex_numbers ex_universe_mem(1) ex_trees_good(1), of 7]
    by (auto simp: answer_ok_def valid_answer_def)
qed

theorem forkchoice_witness:
  "\<exists>t'. on_forkchoice_updated ex_lib
      \<lparr>head_block_hash = 13, safe_block_hash = 12, finalized_block_hash = 11\<rparr> None 3 ex_forked =
      Some (Inr (tree_outcome_new (FcuValid (payload_status_new StatusValid (Some 13)))), t') \<and>
     tree_good ex_lib list_lru_keys fmlookup unat (set ex_universe) ex_height t' \<and>
     nh_hash (canonical_head t') = 13"
proof -
  let ?r = "on_forkchoice_updated ex_lib
      \<lparr>head_block_hash = 13, safe_block_hash = 12, finalized_block_hash = 11\<rparr> None 3 ex_forked"
  have "map_option fst ?r =
      Some (Inr (tree_outcome_new (FcuValid (payload_status_new StatusValid (Some 13)))))"
    by code_simp
  moreover have "nh_hash (canonical_head (snd (the ?r))) = 13" by code_simp
  ultimately show ?thesis
    using forkchoice_answered [OF ex_env ex_numbers ex_trees_good(2), of
        "\<lparr>head_block_hash = 13, safe_block_hash = 12, finalized_block_hash = 11\<rparr>" None 3]
    by auto
qed

theorem canonical_branch_witness:
  "\<not> provider_is_hash_canonical (provider ex_finalized) 23 \<and>
   stored ex_finalized 23 = Some (mk_block 3 23 22)"
proof -
  have s: "stored ex_finalized 23 = Some (mk_block 3 23 22)" "on_new_head ex_lib ex_finalized 23 = Some None"
    by code_simp+
  have "tree_good ex_lib list_lru_keys fmlookup unat (set ex_universe) ex_height ex_finalized"
    unfolding ex_finalized_def by (rule ex_steps_good(2) [OF ex_trees_good(2)])
  from canonical_branch_not_canonical [OF ex_env this s(1) _ s(2)] s(1) show ?thesis by simp
qed

theorem unknown_ancestor_witness:
  "\<exists>t'. prepare_invalid_response ex_lib 99 ex_tree = Some
     (with_latest_valid_hash (payload_status_from_status (StatusInvalid ''links to rejected'')) 0, t')"
proof -
  have "stored ex_tree 99 = None" "fst (invalid_get ex_lib 99 (invalid_headers ex_tree)) = None"
    by code_simp+
  from unknown_ancestor_zero_hash [OF this] show ?thesis by (simp add: ex_lib_def)
qed


text \<open>The blocks 12 and 13 wait in the buffer with their proofs while 11 is stored.\<close>

definition ex_waiting :: ex_tree_type where
  "ex_waiting = snd (the (insert_block ex_lib (mk_block 1 11 10) (Some 7)
     (ex_download (mk_block 2 12 11) (ex_download (mk_block 3 13 12) ex_launch))))"

lemma ex_waiting_inv: "tree_inv ex_lib list_lru_keys fmlookup unat (set ex_universe) ex_waiting"
proof -
  let ?t = "ex_download (mk_block 2 12 11) (ex_download (mk_block 3 13 12) ex_launch)"
  have "tree_inv ex_lib list_lru_keys fmlookup unat (set ex_universe) ?t"
    using ex_steps_good(1) [OF ex_steps_good(1) [OF ex_launch_good]]
    by (simp add: ex_universe_def tree_good_def)
  moreover have "mk_block 1 11 10 \<in> set ex_universe" by (simp add: ex_universe_def)
  ultimately show ?thesis
    using tree_insert_block_correct [OF ex_env, of ?t "mk_block 1 11 10" "Some 7"]
    unfolding ex_waiting_def by auto
qed


end
