(* ===== verification/Download_Futs.thy ===== *)
theory Download_Futs
  imports Chain_Types
begin

text \<open>
  The futures that fetch blocks, header ranges, block ranges and proofs,
  \<open>crates/engine/src/download/futs.rs\<close>, and the requests of the network handle they poll,
  \<open>crates/network/src/handle.rs\<close>.
\<close>

section \<open>Polls and requests\<close>

text \<open>
  The result of polling a future: a panic is a result of its own. What the network answers is an
  oracle: the list of what the successive polls of the pending requests of one kind give. A request
  that is polled after the list is used up is pending.
\<close>

datatype 'a poll = Pending | Ready 'a | Panicked

datatype peer_request_error = RequestDropped | ConnectionClosed

datatype peer_request =
    GetHeaders (start_hash: b256) (limit: u64)
  | GetBlockBodies "b256 list"
  | GetProof b256

type_synonym 'r reply = "peer_request_error + 'r"

record network_polls =
  header_polls :: "header list reply poll list"
  body_polls :: "bytes list reply poll list"
  proof_polls :: "bytes reply poll list"

definition no_polls :: network_polls where
  "no_polls = \<lparr>header_polls = [], body_polls = [], proof_polls = []\<rparr>"

fun next_poll :: "'r poll list \<Rightarrow> 'r poll \<times> 'r poll list" where
  "next_poll [] = (Pending, [])"
| "next_poll (p # ps) = (p, ps)"

text \<open>
  A pending request: the delay before it is sent, and the request. The send fails when the manager
  is gone (\<open>ConnectionClosed\<close>); a dropped answer is \<open>RequestDropped\<close>.
\<close>

type_synonym pending_request = "nat \<times> peer_request"

definition fetch_result :: "bool \<Rightarrow> 'r option \<Rightarrow> 'r reply" where
  "fetch_result sent answer =
     (if \<not> sent then Inl ConnectionClosed
      else (case answer of None \<Rightarrow> Inl RequestDropped | Some r \<Rightarrow> Inr r))"

text \<open>
  What the futures take from the libraries: sealing a header, the checks of the consensus, and
  decoding a proof.
\<close>

record 'p fetch_lib =
  hash_slow :: "header \<Rightarrow> b256"
  validate_body_against_header :: "bytes \<Rightarrow> sealed_header \<Rightarrow> consensus_error option"
  validate_header_range :: "sealed_header list \<Rightarrow> consensus_error option"
  decode_proof :: "bytes \<Rightarrow> 'p option"
  proof_is_empty :: "'p \<Rightarrow> bool"

definition seal_slow :: "('p, 'z) fetch_lib_scheme \<Rightarrow> header \<Rightarrow> sealed_header" where
  "seal_slow L h = header.extend h \<lparr>hash = hash_slow L h\<rparr>"

definition from_sealed_parts :: "sealed_header \<Rightarrow> bytes \<Rightarrow> sealed_block" where
  "from_sealed_parts h b = sealed_header.extend h \<lparr>body = b\<rparr>"

definition first_of :: "'r list reply \<Rightarrow> 'r option reply" where
  "first_of r = map_sum id (\<lambda>l. case l of [] \<Rightarrow> None | x # _ \<Rightarrow> Some x) r"

section \<open>A full block\<close>

record full_block_future =
  fb_retry_delay :: nat
  fb_block_hash :: b256
  pending_header_request :: "pending_request option"
  pending_body_request :: "pending_request option"
  fb_header :: "sealed_header option"
  fb_body :: "bytes option"

definition header_request :: "nat \<Rightarrow> full_block_future \<Rightarrow> pending_request" where
  "header_request delay f = (delay, GetHeaders (fb_block_hash f) 1)"

definition body_request :: "nat \<Rightarrow> full_block_future \<Rightarrow> pending_request" where
  "body_request delay f = (delay, GetBlockBodies [fb_block_hash f])"

definition full_block_new :: "nat \<Rightarrow> b256 \<Rightarrow> full_block_future" where
  "full_block_new retry_delay h =
     (let f = \<lparr>fb_retry_delay = retry_delay, fb_block_hash = h, pending_header_request = None,
               pending_body_request = None, fb_header = None, fb_body = None\<rparr>;
          f = f\<lparr>pending_header_request := Some (header_request 0 f)\<rparr>
      in f\<lparr>pending_body_request := Some (body_request 0 f)\<rparr>)"

definition on_header_response ::
  "('p, 'z) fetch_lib_scheme \<Rightarrow> header option reply \<Rightarrow> full_block_future \<Rightarrow> full_block_future" where
  "on_header_response L response f =
     (case response of
        Inr (Some header) \<Rightarrow>
          (let header = seal_slow L header
           in if hash header = fb_block_hash f then f\<lparr>fb_header := Some header\<rparr> else f)
      | Inr None \<Rightarrow> f
      | Inl _ \<Rightarrow> f)"

definition on_body_response ::
  "bytes option reply \<Rightarrow> full_block_future \<Rightarrow> full_block_future" where
  "on_body_response response f =
     (case response of
        Inr (Some b) \<Rightarrow> f\<lparr>fb_body := Some b\<rparr>
      | Inr None \<Rightarrow> f
      | Inl _ \<Rightarrow> f)"

text \<open>
  The two request steps of one iteration of \<open>poll\<close>; the flag tells whether the loop starts over.
\<close>

definition poll_header_request ::
  "('p, 'z) fetch_lib_scheme \<Rightarrow> full_block_future \<Rightarrow> header list reply poll list \<Rightarrow>
     bool \<times> full_block_future \<times> header list reply poll list" where
  "poll_header_request L f hs =
     (case pending_header_request f of
        None \<Rightarrow> (False, f, hs)
      | Some _ \<Rightarrow>
          (case next_poll hs of
             (Ready response, hs) \<Rightarrow>
               (let f = on_header_response L (first_of response) (f\<lparr>pending_header_request := None\<rparr>)
                in if fb_header f = None
                   then (True, f\<lparr>pending_header_request :=
                           Some (header_request (fb_retry_delay f) f)\<rparr>, hs)
                   else (False, f, hs))
           | (_, hs) \<Rightarrow> (False, f, hs)))"

definition poll_body_request ::
  "full_block_future \<Rightarrow> bytes list reply poll list \<Rightarrow>
     bool \<times> full_block_future \<times> bytes list reply poll list" where
  "poll_body_request f bs =
     (case pending_body_request f of
        None \<Rightarrow> (False, f, bs)
      | Some _ \<Rightarrow>
          (case next_poll bs of
             (Ready response, bs) \<Rightarrow>
               (let f = on_body_response (first_of response) (f\<lparr>pending_body_request := None\<rparr>)
                in if fb_body f = None
                   then (True, f\<lparr>pending_body_request :=
                           Some (body_request (fb_retry_delay f) f)\<rparr>, bs)
                   else (False, f, bs))
           | (_, bs) \<Rightarrow> (False, f, bs)))"

lemma next_poll_length:
  "next_poll ps = (p, ps') \<Longrightarrow> length ps' \<le> length ps \<and> (p \<noteq> Pending \<longrightarrow> length ps' < length ps)"
  by (cases ps) auto

lemma poll_header_request_length:
  "poll_header_request L f hs = (again, f', hs') \<Longrightarrow>
     length hs' \<le> length hs \<and> (again \<longrightarrow> length hs' < length hs)"
  by (cases hs)
     (auto simp: poll_header_request_def Let_def split: option.splits poll.splits if_splits)

lemma poll_body_request_length:
  "poll_body_request f bs = (again, f', bs') \<Longrightarrow>
     length bs' \<le> length bs \<and> (again \<longrightarrow> length bs' < length bs)"
  by (cases bs)
     (auto simp: poll_body_request_def Let_def split: option.splits poll.splits if_splits)

definition both_parts :: "full_block_future \<Rightarrow> bool" where
  "both_parts f \<longleftrightarrow> fb_header f \<noteq> None \<and> fb_body f \<noteq> None"

lemma poll_header_request_parts:
  "poll_header_request L f hs = (again, f', hs') \<Longrightarrow> both_parts f' \<Longrightarrow>
     both_parts f \<or> length hs' < length hs"
  by (cases hs)
     (auto simp: poll_header_request_def Let_def both_parts_def split: option.splits poll.splits if_splits)

lemma poll_body_request_parts:
  "poll_body_request f bs = (again, f', bs') \<Longrightarrow> both_parts f' \<Longrightarrow>
     both_parts f \<or> length bs' < length bs"
  by (cases bs)
     (auto simp: poll_body_request_def Let_def both_parts_def split: option.splits poll.splits if_splits)

text \<open>Every iteration uses up an answer or gives up a body that does not fit.\<close>

lemma full_block_body_less:
  assumes "poll_header_request L f hs = (False, f', hs')" and "poll_body_request f' bs = (True, f'', bs')"
  shows "length hs' + length bs' < length hs + length bs"
  using poll_header_request_length [OF assms(1)] poll_body_request_length [OF assms(2)] by simp

lemma full_block_retry_less:
  assumes h: "poll_header_request L f hs = (False, f', hs')"
    and b: "poll_body_request f' bs = (False, f'', bs')"
    and both: "Some x = fb_header f''" "Some y = fb_body f''"
  shows "length hs' + length bs' < length hs + length bs \<or>
    length hs' + length bs' = length hs + length bs \<and> both_parts f"
proof -
  have "both_parts f''" using both by (metis both_parts_def option.distinct(1))
  then show ?thesis
    using poll_header_request_parts [OF h] poll_body_request_parts [OF b]
      poll_header_request_length [OF h] poll_body_request_length [OF b] by auto
qed

function poll_full_block ::
  "('p, 'z) fetch_lib_scheme \<Rightarrow> full_block_future \<Rightarrow> header list reply poll list \<Rightarrow>
     bytes list reply poll list \<Rightarrow>
     sealed_block poll \<times> full_block_future \<times> header list reply poll list \<times>
     bytes list reply poll list" where
  "poll_full_block L f hs bs =
     (case poll_header_request L f hs of
        (True, f, hs) \<Rightarrow> poll_full_block L f hs bs
      | (False, f, hs) \<Rightarrow>
          (case poll_body_request f bs of
             (True, f, bs) \<Rightarrow> poll_full_block L f hs bs
           | (False, f, bs) \<Rightarrow>
               (case (fb_header f, fb_body f) of
                  (Some header, Some b) \<Rightarrow>
                    (case validate_body_against_header L b header of
                       Some error \<Rightarrow>
                         poll_full_block L
                           (f\<lparr>fb_body := None, fb_header := Some header,
                              pending_body_request := Some (body_request (fb_retry_delay f) f)\<rparr>)
                           hs bs
                     | None \<Rightarrow>
                         (Ready (from_sealed_parts header b),
                          f\<lparr>fb_header := None, fb_body := None\<rparr>, hs, bs))
                | _ \<Rightarrow> (Pending, f, hs, bs))))"
  by pat_completeness auto

termination
  by (relation "measures [\<lambda>(L, f, hs, bs). length hs + length bs,
                          \<lambda>(L, f, hs, bs). if both_parts f then 1 else 0]")
     (auto dest!: sym [of _ "poll_header_request _ _ _"] sym [of _ "poll_body_request _ _"]
        dest: poll_header_request_length full_block_body_less full_block_retry_less
        simp: both_parts_def [where f = "_\<lparr>pending_body_request := _\<rparr>"])

declare poll_full_block.simps [simp del]

section \<open>A range of headers\<close>

record headers_range_future =
  hr_retry_delay :: nat
  hr_start_hash :: b256
  hr_limit :: u64
  hr_pending :: pending_request

definition headers_range_new :: "nat \<Rightarrow> b256 \<Rightarrow> u64 \<Rightarrow> headers_range_future" where
  "headers_range_new retry_delay h n =
     \<lparr>hr_retry_delay = retry_delay, hr_start_hash = h, hr_limit = n,
      hr_pending = (0, GetHeaders h n)\<rparr>"

definition request_headers :: "headers_range_future \<Rightarrow> pending_request" where
  "request_headers f = (hr_retry_delay f, GetHeaders (hr_start_hash f) (hr_limit f))"

text \<open>
  The index of the first header panics on an empty list, which passes the length check only when
  the limit is zero: the response is then \<open>Panicked\<close>, a refused response \<open>Pending\<close>.
\<close>

definition on_headers_response ::
  "('p, 'z) fetch_lib_scheme \<Rightarrow> headers_range_future \<Rightarrow> header list reply \<Rightarrow> sealed_header list poll" where
  "on_headers_response L f response =
     (case response of
        Inl _ \<Rightarrow> Pending
      | Inr headers \<Rightarrow>
          if length headers < unat (hr_limit f) then Pending
          else
            (case map (seal_slow L) headers of
               [] \<Rightarrow> Panicked
             | h # hs \<Rightarrow>
                 if hash h \<noteq> hr_start_hash f then Pending
                 else
                   (case validate_header_range L (rev (h # hs)) of
                      None \<Rightarrow> Ready (h # hs)
                    | Some error \<Rightarrow> Pending)))"

fun poll_headers_range ::
  "('p, 'z) fetch_lib_scheme \<Rightarrow> headers_range_future \<Rightarrow> header list reply poll list \<Rightarrow>
     sealed_header list poll \<times> headers_range_future \<times> header list reply poll list" where
  "poll_headers_range L f [] = (Pending, f, [])"
| "poll_headers_range L f (Ready response # hs) =
     (case on_headers_response L f response of
        Ready headers \<Rightarrow> (Ready headers, f, hs)
      | Panicked \<Rightarrow> (Panicked, f, hs)
      | Pending \<Rightarrow> poll_headers_range L (f\<lparr>hr_pending := request_headers f\<rparr>) hs)"
| "poll_headers_range L f (_ # hs) = (Pending, f, hs)"

section \<open>A full block with the headers of its ancestors\<close>

datatype with_ancestors_state =
    FullBlock full_block_future
  | Ancestors sealed_block headers_range_future

record with_ancestors_future =
  wa_block_hash :: b256
  ancestor_count :: u64
  wa_state :: with_ancestors_state

definition with_ancestors_new :: "nat \<Rightarrow> b256 \<Rightarrow> u64 \<Rightarrow> with_ancestors_future" where
  "with_ancestors_new retry_delay h n =
     \<lparr>wa_block_hash = h, ancestor_count = n, wa_state = FullBlock (full_block_new retry_delay h)\<rparr>"

text \<open>
  The block of a finished future is taken out of it (\<open>mem::take\<close> leaves the default block there);
  the future is not polled again.
\<close>

definition poll_ancestors ::
  "('p, 'z) fetch_lib_scheme \<Rightarrow> with_ancestors_future \<Rightarrow> sealed_block \<Rightarrow> headers_range_future \<Rightarrow>
     network_polls \<Rightarrow> (sealed_block \<times> sealed_header list) poll \<times> with_ancestors_future \<times> network_polls" where
  "poll_ancestors L f block fut env =
     (case poll_headers_range L fut (header_polls env) of
        (r, fut, hs) \<Rightarrow>
          (case r of
             Ready ancestors \<Rightarrow> Ready (block, ancestors)
           | Pending \<Rightarrow> Pending
           | Panicked \<Rightarrow> Panicked,
           f\<lparr>wa_state := Ancestors block fut\<rparr>, env\<lparr>header_polls := hs\<rparr>))"

definition poll_with_ancestors ::
  "('p, 'z) fetch_lib_scheme \<Rightarrow> with_ancestors_future \<Rightarrow> network_polls \<Rightarrow>
     (sealed_block \<times> sealed_header list) poll \<times> with_ancestors_future \<times> network_polls" where
  "poll_with_ancestors L f env =
     (case wa_state f of
        FullBlock fut \<Rightarrow>
          (case poll_full_block L fut (header_polls env) (body_polls env) of
             (r, fut, hs, bs) \<Rightarrow>
               (let env = env\<lparr>header_polls := hs, body_polls := bs\<rparr>
                in case r of
                     Ready block \<Rightarrow>
                       poll_ancestors L f block
                         (headers_range_new (fb_retry_delay fut) (parent_hash block)
                           (ancestor_count f)) env
                   | Pending \<Rightarrow> (Pending, f\<lparr>wa_state := FullBlock fut\<rparr>, env)
                   | Panicked \<Rightarrow> (Panicked, f\<lparr>wa_state := FullBlock fut\<rparr>, env)))
      | Ancestors block fut \<Rightarrow> poll_ancestors L f block fut env)"

section \<open>A range of full blocks\<close>

record bodies_state =
  br_headers :: "sealed_header list"
  br_fut :: pending_request
  br_bodies :: "bytes list"

datatype block_range_state =
    Headers headers_range_future
  | Bodies bodies_state

record block_range_future =
  rg_retry_delay :: nat
  rg_start_hash :: b256
  rg_limit :: u64
  rg_state :: block_range_state

definition block_range_new :: "nat \<Rightarrow> b256 \<Rightarrow> u64 \<Rightarrow> block_range_future" where
  "block_range_new retry_delay h n =
     \<lparr>rg_retry_delay = retry_delay, rg_start_hash = h, rg_limit = n,
      rg_state = Headers (headers_range_new retry_delay h n)\<rparr>"

definition request_bodies :: "b256 list \<Rightarrow> nat \<Rightarrow> pending_request" where
  "request_bodies request delay = (delay, GetBlockBodies request)"

definition missing :: "bodies_state \<Rightarrow> b256 list" where
  "missing s = map hash (drop (length (br_bodies s)) (br_headers s))"

definition take_blocks :: "bodies_state \<Rightarrow> sealed_block list" where
  "take_blocks s = map (\<lambda>(h, b). from_sealed_parts h b) (zip (br_headers s) (br_bodies s))"

text \<open>
  The \<open>for\<close> loop over the headers without a body. After a body that does not fit, \<open>continue\<close> goes
  on with the next header and the next body.
\<close>

fun take_bodies ::
  "('p, 'z) fetch_lib_scheme \<Rightarrow> nat \<Rightarrow> sealed_header list \<Rightarrow> bytes list \<Rightarrow> bodies_state \<Rightarrow> bodies_state" where
  "take_bodies L retry_delay [] pending s = s"
| "take_bodies L retry_delay (header # headers) [] s = take_bodies L retry_delay headers [] s"
| "take_bodies L retry_delay (header # headers) (b # pending) s =
     (case validate_body_against_header L b header of
        Some error \<Rightarrow>
          take_bodies L retry_delay headers pending
            (s\<lparr>br_fut := request_bodies (missing s) retry_delay\<rparr>)
      | None \<Rightarrow> take_bodies L retry_delay headers pending (s\<lparr>br_bodies := br_bodies s @ [b]\<rparr>))"

fun poll_bodies ::
  "('p, 'z) fetch_lib_scheme \<Rightarrow> nat \<Rightarrow> bodies_state \<Rightarrow> bytes list reply poll list \<Rightarrow>
     sealed_block list poll \<times> bodies_state \<times> bytes list reply poll list" where
  "poll_bodies L retry_delay s [] = (Pending, s, [])"
| "poll_bodies L retry_delay s (Ready (Inl error) # bs) =
     poll_bodies L retry_delay (s\<lparr>br_fut := request_bodies (missing s) retry_delay\<rparr>) bs"
| "poll_bodies L retry_delay s (Ready (Inr pending) # bs) =
     (if pending = []
      then poll_bodies L retry_delay (s\<lparr>br_fut := request_bodies (missing s) retry_delay\<rparr>) bs
      else
        (let s = take_bodies L retry_delay (drop (length (br_bodies s)) (br_headers s)) pending s;
             remaining_hashes = missing s
         in if remaining_hashes \<noteq> []
            then poll_bodies L retry_delay (s\<lparr>br_fut := request_bodies remaining_hashes 0\<rparr>) bs
            else (Ready (take_blocks s), s\<lparr>br_headers := [], br_bodies := []\<rparr>, bs)))"
| "poll_bodies L retry_delay s (_ # bs) = (Pending, s, bs)"

definition poll_block_range ::
  "('p, 'z) fetch_lib_scheme \<Rightarrow> block_range_future \<Rightarrow> network_polls \<Rightarrow>
     sealed_block list poll \<times> block_range_future \<times> network_polls" where
  "poll_block_range L f env =
     (case rg_state f of
        Headers fut \<Rightarrow>
          (case poll_headers_range L fut (header_polls env) of
             (Ready headers, fut, hs) \<Rightarrow>
               (case poll_bodies L (rg_retry_delay f)
                       \<lparr>br_headers = headers, br_fut = request_bodies (map hash headers) 0,
                        br_bodies = []\<rparr> (body_polls env) of
                  (r, s, bs) \<Rightarrow>
                    (r, f\<lparr>rg_state := Bodies s\<rparr>, env\<lparr>header_polls := hs, body_polls := bs\<rparr>))
           | (Pending, fut, hs) \<Rightarrow>
               (Pending, f\<lparr>rg_state := Headers fut\<rparr>, env\<lparr>header_polls := hs\<rparr>)
           | (Panicked, fut, hs) \<Rightarrow>
               (Panicked, f\<lparr>rg_state := Headers fut\<rparr>, env\<lparr>header_polls := hs\<rparr>))
      | Bodies s \<Rightarrow>
          (case poll_bodies L (rg_retry_delay f) s (body_polls env) of
             (r, s, bs) \<Rightarrow> (r, f\<lparr>rg_state := Bodies s\<rparr>, env\<lparr>body_polls := bs\<rparr>)))"

section \<open>A proof\<close>

record proof_future =
  pf_block_hash :: b256
  pf_retry_delay :: nat
  pf_pending :: pending_request

definition proof_future_new :: "nat \<Rightarrow> b256 \<Rightarrow> proof_future" where
  "proof_future_new retry_delay h =
     \<lparr>pf_block_hash = h, pf_retry_delay = retry_delay, pf_pending = (0, GetProof h)\<rparr>"

definition proof_request :: "proof_future \<Rightarrow> pending_request" where
  "proof_request f = (pf_retry_delay f, GetProof (pf_block_hash f))"

definition accept_proof :: "('p, 'z) fetch_lib_scheme \<Rightarrow> bytes reply \<Rightarrow> 'p option" where
  "accept_proof L response =
     (case response of
        Inr bytes \<Rightarrow>
          (case decode_proof L bytes of
             Some p \<Rightarrow> if proof_is_empty L p then None else Some p
           | None \<Rightarrow> None)
      | Inl error \<Rightarrow> None)"

fun poll_proof ::
  "('p, 'z) fetch_lib_scheme \<Rightarrow> proof_future \<Rightarrow> bytes reply poll list \<Rightarrow>
     'p poll \<times> proof_future \<times> bytes reply poll list" where
  "poll_proof L f [] = (Pending, f, [])"
| "poll_proof L f (Ready response # ps) =
     (case accept_proof L response of
        Some p \<Rightarrow> (Ready p, f, ps)
      | None \<Rightarrow> poll_proof L (f\<lparr>pf_pending := proof_request f\<rparr>) ps)"
| "poll_proof L f (_ # ps) = (Pending, f, ps)"

text \<open>Polling with all the answers of the network at hand.\<close>

definition poll_full_block_env ::
  "('p, 'z) fetch_lib_scheme \<Rightarrow> full_block_future \<Rightarrow> network_polls \<Rightarrow>
     sealed_block poll \<times> full_block_future \<times> network_polls" where
  "poll_full_block_env L f env =
     (case poll_full_block L f (header_polls env) (body_polls env) of
        (p, f, hs, bs) \<Rightarrow> (p, f, env\<lparr>header_polls := hs, body_polls := bs\<rparr>))"

definition poll_proof_env ::
  "('p, 'z) fetch_lib_scheme \<Rightarrow> proof_future \<Rightarrow> network_polls \<Rightarrow> 'p poll \<times> proof_future \<times> network_polls" where
  "poll_proof_env L f env =
     (case poll_proof L f (proof_polls env) of (p, f, ps) \<Rightarrow> (p, f, env\<lparr>proof_polls := ps\<rparr>))"

end
