(* ===== verification/Fetch_Futures.thy ===== *)
theory Fetch_Futures
  imports Download_Futs
begin

text \<open>
  The contract of a fetching future, and that the futures of the downloader meet it: once ready,
  the result is what was asked for.
\<close>

section \<open>The contract of a fetching future\<close>

text \<open>Polling again and again, with what the network answers at each poll, until it is ready.\<close>

fun poll_all :: "('f \<Rightarrow> 'env \<Rightarrow> 'r poll \<times> 'f \<times> 'env) \<Rightarrow> 'f \<Rightarrow> 'env list \<Rightarrow> 'r poll" where
  "poll_all poll_fut f [] = Pending"
| "poll_all poll_fut f (e # es) =
     (case poll_fut f e of
        (Pending, f', _) \<Rightarrow> poll_all poll_fut f' es
      | (p, _, _) \<Rightarrow> p)"

text \<open>
  A future fetches for one target. Once ready, the result is good for the target; until then it
  stays a sound future for the same target. It never panics.
\<close>

locale fetch_future =
  fixes poll_fut :: "'f \<Rightarrow> 'env \<Rightarrow> 'r poll \<times> 'f \<times> 'env"
    and target :: "'f \<Rightarrow> b256"
    and invar :: "'f \<Rightarrow> bool"
    and good :: "b256 \<Rightarrow> 'r \<Rightarrow> bool"
  assumes poll_target: "invar f \<Longrightarrow> poll_fut f e = (p, f', e') \<Longrightarrow> target f' = target f"
    and poll_ready: "invar f \<Longrightarrow> poll_fut f e = (Ready r, f', e') \<Longrightarrow> good (target f) r"
    and poll_pending: "invar f \<Longrightarrow> poll_fut f e = (Pending, f', e') \<Longrightarrow> invar f'"
    and poll_no_panic: "invar f \<Longrightarrow> fst (poll_fut f e) \<noteq> Panicked"
begin

lemma poll_all_good:
  "invar f \<Longrightarrow> case poll_all poll_fut f es of Ready r \<Rightarrow> good (target f) r | Pending \<Rightarrow> True | Panicked \<Rightarrow> False"
proof (induction es arbitrary: f)
  case (Cons e es)
  obtain p f' e' where p: "poll_fut f e = (p, f', e')" by (cases "poll_fut f e")
  show ?case
  proof (cases p)
    case Pending
    then show ?thesis
      using Cons.IH [of f'] poll_pending [OF Cons.prems] poll_target [OF Cons.prems p] p
      by (simp cong: poll.case_cong)
  next
    case (Ready r)
    then show ?thesis using poll_ready [OF Cons.prems] p by simp
  next
    case Panicked
    then show ?thesis using poll_no_panic [OF Cons.prems, of e] p by simp
  qed
qed simp

end

text \<open>A future that stays pending, and sound, as long as the network answers nothing.\<close>

locale quiet_fetch_future = fetch_future +
  fixes quiet :: 'env
  assumes poll_quiet: "invar f \<Longrightarrow> fst (poll_fut f quiet) = Pending"
begin

lemma poll_all_quiet: "invar f \<Longrightarrow> poll_all poll_fut f (replicate n quiet) = Pending"
proof (induction n arbitrary: f)
  case (Suc n)
  obtain f' e' where "poll_fut f quiet = (Pending, f', e')"
    using poll_quiet [OF Suc.prems] by (metis prod.exhaust_sel)
  then show ?case using poll_pending [OF Suc.prems] Suc.IH by simp
qed simp

end

section \<open>A full block\<close>

lemma seal_slow_sel [simp]:
  "hash (seal_slow L h) = hash_slow L h" "number (seal_slow L h) = number h"
  "parent_hash (seal_slow L h) = parent_hash h" "clone_header (seal_slow L h) = h"
  by (simp_all add: seal_slow_def header.defs sealed_header.defs clone_header_def)

lemma from_sealed_parts_sel [simp]:
  "hash (from_sealed_parts h b) = hash h" "number (from_sealed_parts h b) = number h"
  "parent_hash (from_sealed_parts h b) = parent_hash h" "body (from_sealed_parts h b) = b"
  "clone_sealed_header (from_sealed_parts h b) = h"
  "clone_header (from_sealed_parts h b) = clone_header h"
  by (simp_all add: from_sealed_parts_def sealed_header.defs sealed_block.defs header.defs
      clone_sealed_header_def clone_header_def)

text \<open>
  A sound future: a header it has is sealed and has the block's hash, and what it does not have
  it is asking for.
\<close>

definition full_block_ok :: "('p, 'z) fetch_lib_scheme \<Rightarrow> full_block_future \<Rightarrow> bool" where
  "full_block_ok L f \<longleftrightarrow>
     (\<forall>h. fb_header f = Some h \<longrightarrow> hash h = fb_block_hash f \<and> hash_slow L (clone_header h) = hash h) \<and>
     (fb_header f = None \<longrightarrow> pending_header_request f \<noteq> None) \<and>
     (fb_body f = None \<longrightarrow> pending_body_request f \<noteq> None) \<and>
     (\<forall>r \<in> set_option (pending_header_request f). snd r = GetHeaders (fb_block_hash f) 1) \<and>
     (\<forall>r \<in> set_option (pending_body_request f). snd r = GetBlockBodies [fb_block_hash f])"

definition good_block :: "('p, 'z) fetch_lib_scheme \<Rightarrow> b256 \<Rightarrow> sealed_block \<Rightarrow> bool" where
  "good_block L h b \<longleftrightarrow> hash b = h \<and> hash_slow L (clone_header b) = h \<and>
     validate_body_against_header L (body b) (clone_sealed_header b) = None"

lemma full_block_new_ok: "full_block_ok L (full_block_new d h)" "fb_block_hash (full_block_new d h) = h"
  by (simp_all add: full_block_new_def full_block_ok_def header_request_def body_request_def)

lemma poll_header_request_ok:
  assumes "full_block_ok L f" and "poll_header_request L f hs = (again, f', hs')"
  shows "full_block_ok L f' \<and> fb_block_hash f' = fb_block_hash f \<and>
    fb_retry_delay f' = fb_retry_delay f"
  using assms
  by (auto simp: poll_header_request_def full_block_ok_def on_header_response_def Let_def
      header_request_def split: option.splits prod.splits poll.splits sum.splits if_splits)

lemma poll_body_request_ok:
  assumes "full_block_ok L f" and "poll_body_request f bs = (again, f', bs')"
  shows "full_block_ok L f' \<and> fb_block_hash f' = fb_block_hash f \<and>
    fb_retry_delay f' = fb_retry_delay f"
  using assms
  by (auto simp: poll_body_request_def full_block_ok_def on_body_response_def Let_def
      body_request_def split: option.splits prod.splits poll.splits sum.splits if_splits)

text \<open>
  What every step of an iteration keeps holds at the end of the poll: the poll is then ready with the
  two parts, which fit, or pending without one of them.
\<close>

lemma poll_full_block_rule:
  assumes "I f hs bs" and "poll_full_block L f hs bs = (p, f', hs', bs')"
    and header: "\<And>f hs bs again f1 hs1. I f hs bs \<Longrightarrow>
      poll_header_request L f hs = (again, f1, hs1) \<Longrightarrow> I f1 hs1 bs"
    and body: "\<And>f hs bs again f1 bs1. I f hs bs \<Longrightarrow>
      poll_body_request f bs = (again, f1, bs1) \<Longrightarrow> I f1 hs bs1"
    and retry: "\<And>f hs bs h. I f hs bs \<Longrightarrow> both_parts f \<Longrightarrow> fb_header f = Some h \<Longrightarrow>
      I (f\<lparr>fb_body := None, fb_header := Some h,
           pending_body_request := Some (body_request (fb_retry_delay f) f)\<rparr>) hs bs"
  shows "\<exists>f2. I f2 hs' bs' \<and>
    (\<exists>g hs0 bs0 g1. I g hs0 bs0 \<and> poll_header_request L g hs0 = (False, g1, hs') \<and>
       I g1 hs' bs0 \<and> poll_body_request g1 bs0 = (False, f2, bs')) \<and>
    (case p of
       Ready x \<Rightarrow> f' = f2\<lparr>fb_header := None, fb_body := None\<rparr> \<and>
         (\<exists>h b. fb_header f2 = Some h \<and> fb_body f2 = Some b \<and>
            validate_body_against_header L b h = None \<and> x = from_sealed_parts h b)
     | Pending \<Rightarrow> f' = f2 \<and> \<not> both_parts f2
     | Panicked \<Rightarrow> False)"
  using assms
proof (induction L f hs bs rule: poll_full_block.induct)
  case (1 L f hs bs)
  note steps = "1.prems"(3-5)
  obtain again f1 hs1 where h: "poll_header_request L f hs = (again, f1, hs1)"
    by (cases "poll_header_request L f hs")
  note I1 = steps(1) [OF "1.prems"(1) h]
  show ?case
  proof (cases again)
    case True
    have "poll_full_block L f1 hs1 bs = (p, f', hs', bs')"
      using "1.prems"(2) h True by (subst (asm) poll_full_block.simps) simp
    then show ?thesis using "1.IH"(1) [OF h [symmetric]] I1 steps True by blast
  next
    case False
    obtain again' f2 bs1 where b: "poll_body_request f1 bs = (again', f2, bs1)"
      by (cases "poll_body_request f1 bs")
    note I2 = steps(2) [OF I1 b]
    show ?thesis
    proof (cases again')
      case True
      have "poll_full_block L f2 hs1 bs1 = (p, f', hs', bs')"
        using "1.prems"(2) h b False True by (subst (asm) poll_full_block.simps) simp
      then show ?thesis using "1.IH"(2) [OF h [symmetric] _ _ b [symmetric]] I2 steps False True by blast
    next
      case no: False
      show ?thesis
      proof (cases "both_parts f2")
        case False
        then have "p = Pending" "f' = f2" "hs' = hs1" "bs' = bs1"
          using "1.prems"(2) h b \<open>\<not> again\<close> no
          by (subst (asm) poll_full_block.simps, auto simp: both_parts_def split: option.splits)+
        moreover have "\<exists>g hs0 bs0 g1. I g hs0 bs0 \<and> poll_header_request L g hs0 = (False, g1, hs1) \<and>
            I g1 hs1 bs0 \<and> poll_body_request g1 bs0 = (False, f2, bs1)"
          using "1.prems"(1) h b \<open>\<not> again\<close> no I1
          by (intro exI [of _ f] exI [of _ hs] exI [of _ bs] exI [of _ f1]) simp
        ultimately show ?thesis using I2 False by (intro exI [of _ f2]) simp
      next
        case both: True
        then obtain hd bd where hb: "fb_header f2 = Some hd" "fb_body f2 = Some bd"
          by (auto simp: both_parts_def)
        show ?thesis
        proof (cases "validate_body_against_header L bd hd")
          case None
          then have "p = Ready (from_sealed_parts hd bd)" "hs' = hs1" "bs' = bs1"
            "f' = f2\<lparr>fb_header := None, fb_body := None\<rparr>"
            using "1.prems"(2) h b False no hb by (subst (asm) poll_full_block.simps, simp)+
          moreover have "\<exists>g hs0 bs0 g1. I g hs0 bs0 \<and> poll_header_request L g hs0 = (False, g1, hs1) \<and>
              I g1 hs1 bs0 \<and> poll_body_request g1 bs0 = (False, f2, bs1)"
            using "1.prems"(1) h b False no I1
            by (intro exI [of _ f] exI [of _ hs] exI [of _ bs] exI [of _ f1]) simp
          ultimately show ?thesis using I2 hb None by (intro exI [of _ f2]) simp
        next
          case (Some e)
          let ?f = "f2\<lparr>fb_body := None, fb_header := Some hd,
            pending_body_request := Some (body_request (fb_retry_delay f2) f2)\<rparr>"
          have "poll_full_block L ?f hs1 bs1 = (p, f', hs', bs')"
            using "1.prems"(2) h b False no hb Some by (subst (asm) poll_full_block.simps) simp
          moreover have "I ?f hs1 bs1" using steps(3) [OF I2 both hb(1)] .
          ultimately show ?thesis
            using "1.IH"(3) [OF h [symmetric] _ _ b [symmetric]] False no hb Some steps by blast
        qed
      qed
    qed
  qed
qed

lemma poll_full_block_ok:
  assumes "full_block_ok L f" and "poll_full_block L f hs bs = (p, f', hs', bs')"
  shows "fb_block_hash f' = fb_block_hash f \<and> fb_retry_delay f' = fb_retry_delay f \<and>
    (case p of Ready b \<Rightarrow> good_block L (fb_block_hash f) b
     | Pending \<Rightarrow> full_block_ok L f' | Panicked \<Rightarrow> False)"
proof -
  let ?I = "\<lambda>g _ _. full_block_ok L g \<and> fb_block_hash g = fb_block_hash f \<and>
    fb_retry_delay g = fb_retry_delay f"
  note rule = poll_full_block_rule [where I = ?I, OF _ assms(2)]
  have "\<exists>f2. ?I f2 hs' bs' \<and>
    (case p of
       Ready x \<Rightarrow> f' = f2\<lparr>fb_header := None, fb_body := None\<rparr> \<and>
         (\<exists>h b. fb_header f2 = Some h \<and> fb_body f2 = Some b \<and>
            validate_body_against_header L b h = None \<and> x = from_sealed_parts h b)
     | Pending \<Rightarrow> f' = f2 \<and> \<not> both_parts f2
     | Panicked \<Rightarrow> False)"
  proof (rule ex_mono [rule_format, OF _ rule], goal_cases)
    case (1 f2)
    then show ?case by blast
  next
    case 2
    then show ?case using assms(1) by simp
  next
    case (3 g hs bs again g1 hs1)
    then show ?case using poll_header_request_ok [of L g hs again g1 hs1] by simp
  next
    case (4 g hs bs again g1 bs1)
    then show ?case using poll_body_request_ok [of L g bs again g1 bs1] by simp
  next
    case (5 g hs bs h)
    then show ?case by (auto simp: full_block_ok_def body_request_def)
  qed
  then show ?thesis
    by (auto simp: good_block_def full_block_ok_def split: poll.splits)
qed

text \<open>Between polls a pending future lacks a part, so that it stays pending without an answer.\<close>

definition full_block_idle :: "('p, 'z) fetch_lib_scheme \<Rightarrow> full_block_future \<Rightarrow> bool" where
  "full_block_idle L f \<longleftrightarrow> full_block_ok L f \<and> \<not> both_parts f"

lemma full_block_new_idle: "full_block_idle L (full_block_new d h)"
  by (simp add: full_block_idle_def full_block_new_ok)
     (simp add: both_parts_def full_block_new_def Let_def)

lemma poll_full_block_both:
  "poll_full_block L f hs bs = (Pending, f', hs', bs') \<Longrightarrow> \<not> both_parts f'"
  using poll_full_block_rule [where I = "\<lambda>_ _ _. True"] by fastforce

lemma poll_full_block_quiet:
  assumes "\<not> both_parts f"
  shows "poll_full_block L f [] [] = (Pending, f, [], [])"
proof -
  have "poll_header_request L f [] = (False, f, [])" "poll_body_request f [] = (False, f, [])"
    by (auto simp: poll_header_request_def poll_body_request_def split: option.splits)
  then show ?thesis
    using assms by (subst poll_full_block.simps) (auto simp: both_parts_def split: option.splits)
qed

section \<open>A range of headers\<close>

definition good_headers ::
  "('p, 'z) fetch_lib_scheme \<Rightarrow> u64 \<Rightarrow> b256 \<Rightarrow> sealed_header list \<Rightarrow> bool" where
  "good_headers L n h hs \<longleftrightarrow> unat n \<le> length hs \<and> hs \<noteq> [] \<and> hash (hd hs) = h \<and>
     validate_header_range L (rev hs) = None \<and> (\<forall>x \<in> set hs. hash_slow L (clone_header x) = hash x)"

lemma on_headers_response_ok:
  assumes "0 < hr_limit f"
  shows "case on_headers_response L f r of
     Ready hs \<Rightarrow> good_headers L (hr_limit f) (hr_start_hash f) hs
   | Pending \<Rightarrow> True | Panicked \<Rightarrow> False"
proof (cases "\<exists>headers. r = Inr headers \<and> unat (hr_limit f) \<le> length headers")
  case True
  then obtain headers where r: "r = Inr headers" "unat (hr_limit f) \<le> length headers" by blast
  then obtain x xs where x: "headers = x # xs"
    using assms by (cases headers) (auto simp: word_less_nat_alt)
  then show ?thesis
    using r by (auto simp: on_headers_response_def good_headers_def split: option.splits)
qed (auto simp: on_headers_response_def split: sum.splits)

lemma poll_headers_range_ok:
  assumes "0 < hr_limit f" and "poll_headers_range L f hs = (p, f', hs')"
  shows "hr_start_hash f' = hr_start_hash f \<and> hr_limit f' = hr_limit f \<and>
    (case p of Ready r \<Rightarrow> good_headers L (hr_limit f) (hr_start_hash f) r
     | Pending \<Rightarrow> True | Panicked \<Rightarrow> False)"
  using assms
proof (induction L f hs rule: poll_headers_range.induct)
  case (2 L f response hs)
  then show ?case
    using on_headers_response_ok [OF "2.prems"(1), of L response]
    by (cases "on_headers_response L f response") (auto cong: poll.case_cong)
qed auto

section \<open>A full block with the headers of its ancestors\<close>

definition good_with_ancestors ::
  "('p, 'z) fetch_lib_scheme \<Rightarrow> u64 \<Rightarrow> b256 \<Rightarrow> sealed_block \<times> sealed_header list \<Rightarrow> bool" where
  "good_with_ancestors L n h r \<longleftrightarrow>
     good_block L h (fst r) \<and> good_headers L n (parent_hash (fst r)) (snd r)"

definition with_ancestors_ok :: "('p, 'z) fetch_lib_scheme \<Rightarrow> u64 \<Rightarrow> with_ancestors_future \<Rightarrow> bool" where
  "with_ancestors_ok L n f \<longleftrightarrow> ancestor_count f = n \<and> 0 < n \<and>
     (case wa_state f of
        FullBlock fut \<Rightarrow> full_block_idle L fut \<and> fb_block_hash fut = wa_block_hash f
      | Ancestors block fut \<Rightarrow> good_block L (wa_block_hash f) block \<and>
          hr_start_hash fut = parent_hash block \<and> hr_limit fut = n)"

lemma with_ancestors_new_ok:
  "0 < n \<Longrightarrow> with_ancestors_ok L n (with_ancestors_new d h n)"
  "wa_block_hash (with_ancestors_new d h n) = h"
  by (simp_all add: with_ancestors_new_def with_ancestors_ok_def full_block_new_ok full_block_new_idle)

lemma poll_ancestors_ok:
  assumes "ancestor_count f = n" "0 < n" "good_block L (wa_block_hash f) block"
    "hr_start_hash fut = parent_hash block" "hr_limit fut = n"
    and "poll_ancestors L f block fut env = (p, f', env')"
  shows "wa_block_hash f' = wa_block_hash f \<and>
    (case p of Ready r \<Rightarrow> good_with_ancestors L n (wa_block_hash f) r
     | Pending \<Rightarrow> with_ancestors_ok L n f' | Panicked \<Rightarrow> False)"
proof -
  obtain q fut' hs where q: "poll_headers_range L fut (header_polls env) = (q, fut', hs)"
    by (cases "poll_headers_range L fut (header_polls env)")
  have "0 < hr_limit fut" using assms by simp
  from poll_headers_range_ok [OF this q] show ?thesis
    using assms q
    by (auto simp: poll_ancestors_def good_with_ancestors_def with_ancestors_ok_def
        split: poll.splits)
qed

lemma poll_with_ancestors_ok:
  assumes ok: "with_ancestors_ok L n f" and p: "poll_with_ancestors L f env = (p, f', env')"
  shows "wa_block_hash f' = wa_block_hash f \<and>
    (case p of Ready r \<Rightarrow> good_with_ancestors L n (wa_block_hash f) r
     | Pending \<Rightarrow> with_ancestors_ok L n f' | Panicked \<Rightarrow> False)"
proof (cases "wa_state f")
  case (Ancestors block fut)
  then show ?thesis
    using ok p poll_ancestors_ok [of f n L block fut env]
    by (simp add: with_ancestors_ok_def poll_with_ancestors_def)
next
  case (FullBlock fut)
  obtain q fut' hs bs where q: "poll_full_block L fut (header_polls env) (body_polls env) = (q, fut', hs, bs)"
    by (cases "poll_full_block L fut (header_polls env) (body_polls env)")
  have "full_block_ok L fut" "fb_block_hash fut = wa_block_hash f" "ancestor_count f = n" "0 < n"
    using ok FullBlock by (simp_all add: with_ancestors_ok_def full_block_idle_def)
  note full = poll_full_block_ok [OF this(1) q] and facts = this
  have idle: "q = Pending \<Longrightarrow> \<not> both_parts fut'" using q poll_full_block_both by blast
  show ?thesis
  proof (cases q)
    case (Ready block)
    then show ?thesis
      using p FullBlock q full facts
        poll_ancestors_ok [of f n L block
          "headers_range_new (fb_retry_delay fut') (parent_hash block) n"]
      by (simp add: poll_with_ancestors_def headers_range_new_def)
  qed (use p FullBlock q full facts idle in
    \<open>auto simp: poll_with_ancestors_def with_ancestors_ok_def full_block_idle_def\<close>)
qed

section \<open>A proof\<close>

definition good_proof :: "('p, 'z) fetch_lib_scheme \<Rightarrow> 'p \<Rightarrow> bool" where
  "good_proof L p \<longleftrightarrow> \<not> proof_is_empty L p \<and> (\<exists>bytes. decode_proof L bytes = Some p)"

lemma poll_proof_ok:
  assumes "poll_proof L f ps = (p, f', ps')"
  shows "pf_block_hash f' = pf_block_hash f \<and> p \<noteq> Panicked \<and>
    (\<forall>r. p = Ready r \<longrightarrow> good_proof L r)"
  using assms
proof (induction L f ps rule: poll_proof.induct)
  case (2 L f response ps)
  then show ?case
    by (cases "accept_proof L response")
       (auto simp: accept_proof_def good_proof_def split: sum.splits option.splits if_splits)
qed auto

section \<open>Every future of the downloader meets the contract\<close>

interpretation full_block: quiet_fetch_future "poll_full_block_env L" fb_block_hash "full_block_idle L"
    "good_block L" no_polls for L
  by unfold_locales
     (auto simp: poll_full_block_env_def full_block_idle_def poll_full_block_quiet no_polls_def
       dest: poll_full_block_both split: prod.splits poll.splits dest!: poll_full_block_ok)

interpretation with_ancestors: quiet_fetch_future "poll_with_ancestors L" wa_block_hash
    "with_ancestors_ok L n" "good_with_ancestors L n" no_polls for L n
proof unfold_locales
  fix f e assume "with_ancestors_ok L n f"
  then show "fst (poll_with_ancestors L f e) \<noteq> Panicked"
    using poll_with_ancestors_ok [of L n f e] by (cases "poll_with_ancestors L f e") auto
next
  fix f assume "with_ancestors_ok L n f"
  then show "fst (poll_with_ancestors L f no_polls) = Pending"
    by (auto simp: poll_with_ancestors_def with_ancestors_ok_def full_block_idle_def no_polls_def
        poll_full_block_quiet poll_ancestors_def split: with_ancestors_state.splits)
qed (auto dest: poll_with_ancestors_ok)

interpretation execution_proof: quiet_fetch_future "poll_proof_env L" pf_block_hash "\<lambda>_. True"
    "\<lambda>_. good_proof L" no_polls for L
  by unfold_locales
     (auto simp: poll_proof_env_def no_polls_def split: prod.splits dest!: poll_proof_ok)


section \<open>Properties\<close>

text \<open>
  C31: however often a full block is polled and whatever the network answers, a block it yields has
  the requested hash, which is the hash of its header, and a body that fits the header.
\<close>

theorem full_block_sound:
  "case poll_all (poll_full_block_env L) (full_block_new d h) envs of
     Ready b \<Rightarrow> hash b = h \<and> hash_slow L (clone_header b) = h \<and>
       validate_body_against_header L (body b) (clone_sealed_header b) = None
   | Pending \<Rightarrow> True
   | Panicked \<Rightarrow> False"
  using full_block.poll_all_good [OF full_block_new_idle, of L d h envs]
  by (simp add: full_block_new_ok(2) good_block_def cong: poll.case_cong)

text \<open>
  C32: a finalized block comes with at least the requested number of headers, the first of them its
  parent, that pass the range check of the consensus, lowest number first; and the future never
  panics when it asks for at least one.
\<close>

theorem with_ancestors_sound:
  assumes "0 < n"
  shows "case poll_all (poll_with_ancestors L) (with_ancestors_new d h n) envs of
     Ready (b, hs) \<Rightarrow> hash b = h \<and>
       validate_body_against_header L (body b) (clone_sealed_header b) = None \<and>
       unat n \<le> length hs \<and> hs \<noteq> [] \<and> hash (hd hs) = parent_hash b \<and>
       validate_header_range L (rev hs) = None \<and>
       (\<forall>x \<in> set hs. hash_slow L (clone_header x) = hash x)
   | Pending \<Rightarrow> True
   | Panicked \<Rightarrow> False"
  using with_ancestors.poll_all_good [OF with_ancestors_new_ok(1) [OF assms], of L d h envs]
  by (auto simp: with_ancestors_new_ok(2) good_with_ancestors_def good_block_def good_headers_def
      split: poll.splits prod.splits)


definition fits_number :: "nat fetch_lib" where
  "fits_number = \<lparr>hash_slow = (\<lambda>h. ucast (number h)),
     validate_body_against_header =
       (\<lambda>b h. if b = [ucast (number h)] then None else Some (OtherConsensusError ''body'')),
     validate_header_range = (\<lambda>_. None), decode_proof = (\<lambda>_. Some 1),
     proof_is_empty = (\<lambda>_. False)\<rparr>"

definition ex_header :: "u64 \<Rightarrow> header" where
  "ex_header n = \<lparr>number = n, parent_hash = ucast n - 1, state_root = 0, difficulty = 0,
     header_rest = []\<rparr>"

definition misaligned_polls :: network_polls where
  "misaligned_polls = \<lparr>header_polls = [Ready (Inr [ex_header 2, ex_header 1])],
     body_polls = [Ready (Inr [[9], [1]]), Ready (Inr [[1]])], proof_polls = []\<rparr>"

text \<open>
  A range of full blocks yields one block per header, but it can pair a header with the body of
  another block: after a body that does not fit, the loop goes on with the next header and stores
  the next body in the place of the one refused.
\<close>

theorem block_range_misaligns_bodies:
  "case fst (poll_block_range fits_number (block_range_new 50 2 2) misaligned_polls) of
     Ready [b2, b1] \<Rightarrow> hash b2 = 2 \<and> body b2 = [1] \<and> hash b1 = 1 \<and> body b1 = [1] \<and>
       validate_body_against_header fits_number (body b2) (clone_sealed_header b2) \<noteq> None
   | _ \<Rightarrow> False"
  by code_simp

text \<open>
  A request for a range of no headers panics on the first answer without headers: the length
  check lets the empty answer through to the index of its first header.
\<close>

theorem empty_range_panics:
  assumes "hr_limit f = 0"
  shows "poll_headers_range L f (Ready (Inr []) # hs) = (Panicked, f, hs)"
  using assms by (simp add: on_headers_response_def)

section \<open>Concrete instances\<close>

definition finalized_polls :: network_polls where
  "finalized_polls = \<lparr>header_polls =
       [Ready (Inl RequestDropped), Ready (Inr [ex_header 3]), Ready (Inr [ex_header 2, ex_header 1])],
     body_polls = [Ready (Inr [[9]]), Ready (Inr [[3]])], proof_polls = []\<rparr>"

theorem with_ancestors_witness:
  "case poll_all (poll_with_ancestors fits_number) (with_ancestors_new 50 3 2) [no_polls, finalized_polls] of
     Ready (b, hs) \<Rightarrow> hash b = 3 \<and> body b = [3] \<and> map hash hs = [2, 1] \<and> unat (2 :: u64) \<le> length hs
   | _ \<Rightarrow> False"
proof -
  have "case poll_all (poll_with_ancestors fits_number) (with_ancestors_new 50 3 2) [no_polls, finalized_polls] of
     Ready (b, hs) \<Rightarrow> hash b = 3 \<and> body b = [3] \<and> map hash hs = [2, 1]
   | _ \<Rightarrow> False"
    by code_simp
  then show ?thesis
    using with_ancestors_sound [where n = 2 and L = fits_number and d = 50 and h = 3 and
        envs = "[no_polls, finalized_polls]"]
    by (auto split: poll.splits prod.splits)
qed


theorem empty_range_witness:
  "poll_headers_range fits_number (headers_range_new 50 2 0) [Ready (Inr [])] =
     (Panicked, headers_range_new 50 2 0, [])"
  by (rule empty_range_panics) (simp add: headers_range_new_def)

end
