(* ===== verification/Rpc_Adapter.thy ===== *)
theory Rpc_Adapter
  imports Fetch_Futures
begin

text \<open>
  The adapter that serves peer requests from a JSON-RPC node in place of the network manager,
  \<open>crates/testing/src/rpc_adapter.rs\<close>.
\<close>

section \<open>The node\<close>

text \<open>
  The node answers requests for a block by hash or number, with the hashes of its transactions or
  with the transactions; a failed call is a message. Headers and bodies of the consensus types are
  taken from a block of the node, and have an encoded length. \<open>'b\<close> is a block of the node, \<open>'w\<close> the
  witness it gives for a block number.
\<close>

datatype block_id = ByHash b256 | ByNumber u64

datatype transactions_kind = Hashes | Full

record ('b, 'w) rpc_node =
  get_block :: "block_id \<Rightarrow> transactions_kind \<Rightarrow> string + 'b option"
  debug_execution_witness :: "u64 \<Rightarrow> string + 'w"
  into_consensus :: "'b \<Rightarrow> header"
  block_body_of :: "'b \<Rightarrow> bytes"
  header_length :: "header \<Rightarrow> nat"
  body_length :: "bytes \<Rightarrow> nat"
  encode_witness :: "'w \<Rightarrow> bytes"
  max_headers_serve :: u64
  max_bodies_serve :: nat
  soft_response_limit :: nat

definition rpc_block :: "('b, 'w) rpc_node \<Rightarrow> block_id \<Rightarrow> transactions_kind \<Rightarrow> 'b option" where
  "rpc_block R block_id kind = (case get_block R block_id kind of Inl _ \<Rightarrow> None | Inr b \<Rightarrow> b)"

section \<open>Headers\<close>

text \<open>The loop over the ordered futures; it ends at the first block the node does not have.\<close>

fun collect_headers ::
  "('b, 'w) rpc_node \<Rightarrow> 'b option list \<Rightarrow> nat \<Rightarrow> header list \<Rightarrow> header list" where
  "collect_headers R [] total_bytes headers = headers"
| "collect_headers R (None # futs) total_bytes headers = headers"
| "collect_headers R (Some block # futs) total_bytes headers =
     (let header = into_consensus R block;
          total_bytes = total_bytes + header_length R header;
          headers = headers @ [header]
      in if soft_response_limit R < total_bytes then headers
         else collect_headers R futs total_bytes headers)"

text \<open>
  \<open>push_front\<close> for every number of the range leaves the highest number first; the subtraction
  \<open>limit - 1\<close> does not wrap, as the limit is at least 2.
\<close>

definition on_headers_request :: "('b, 'w) rpc_node \<Rightarrow> b256 \<Rightarrow> u64 \<Rightarrow> header list" where
  "on_headers_request R start wanted =
     (case rpc_block R (ByHash start) Hashes of
        None \<Rightarrow> []
      | Some start_block \<Rightarrow>
          (let header = into_consensus R start_block;
               start_block_number = number header;
               total_bytes = header_length R header
           in if wanted \<le> 1 then [header]
              else
                (let end_block_number =
                       saturating_sub start_block_number (min (wanted - 1) (max_headers_serve R));
                     futs = map (\<lambda>n. rpc_block R (ByNumber (of_nat n)) Hashes)
                              (rev [unat end_block_number..<unat start_block_number])
                 in collect_headers R futs total_bytes [header])))"

section \<open>Bodies\<close>

fun collect_bodies ::
  "('b, 'w) rpc_node \<Rightarrow> 'b option list \<Rightarrow> nat \<Rightarrow> bytes list \<Rightarrow> bytes list" where
  "collect_bodies R [] total_bytes bodies = bodies"
| "collect_bodies R (None # futs) total_bytes bodies = bodies"
| "collect_bodies R (Some block # futs) total_bytes bodies =
     (let b = block_body_of R block;
          total_bytes = total_bytes + body_length R b;
          bodies = bodies @ [b]
      in if max_bodies_serve R \<le> length bodies \<or> soft_response_limit R < total_bytes then bodies
         else collect_bodies R futs total_bytes bodies)"

definition on_block_bodies_request :: "('b, 'w) rpc_node \<Rightarrow> b256 list \<Rightarrow> bytes list" where
  "on_block_bodies_request R request =
     collect_bodies R (map (\<lambda>h. rpc_block R (ByHash h) Full) request) 0 []"

section \<open>Proofs, and every request\<close>

definition on_proof_request :: "('b, 'w) rpc_node \<Rightarrow> b256 \<Rightarrow> bytes" where
  "on_proof_request R h =
     (let maybe_block = rpc_block R (ByHash h) Hashes;
          maybe_witness =
            (case maybe_block of
               Some block \<Rightarrow>
                 (case debug_execution_witness R (number (into_consensus R block)) of
                    Inr witness \<Rightarrow> Some (encode_witness R witness)
                  | Inl _ \<Rightarrow> None)
             | None \<Rightarrow> None)
      in case maybe_witness of Some w \<Rightarrow> w | None \<Rightarrow> [])"

datatype peer_response =
    HeadersResponse "header list"
  | BodiesResponse "bytes list"
  | ProofResponse bytes

definition rpc_serve :: "('b, 'w) rpc_node \<Rightarrow> peer_request \<Rightarrow> peer_response" where
  "rpc_serve R request =
     (case request of
        GetHeaders start wanted \<Rightarrow> HeadersResponse (on_headers_request R start wanted)
      | GetBlockBodies hs \<Rightarrow> BodiesResponse (on_block_bodies_request R hs)
      | GetProof h \<Rightarrow> ProofResponse (on_proof_request R h))"

section \<open>The collecting loops\<close>

text \<open>The reference: the blocks up to the first missing one, cut where the size limit is passed.\<close>

fun present :: "'b option list \<Rightarrow> 'b list" where
  "present (Some b # bs) = b # present bs"
| "present _ = []"

definition headers_size :: "('b, 'w) rpc_node \<Rightarrow> 'b list \<Rightarrow> nat" where
  "headers_size R bs = sum_list (map (header_length R \<circ> into_consensus R) bs)"

lemma headers_size_simps [simp]:
  "headers_size R [] = 0"
  "headers_size R (b # bs) = header_length R (into_consensus R b) + headers_size R bs"
  "headers_size R (bs @ cs) = headers_size R bs + headers_size R cs"
  by (simp_all add: headers_size_def)

lemma headers_size_take: "n \<le> m \<Longrightarrow> headers_size R (take n xs) \<le> headers_size R (take m xs)"
  using take_add [of n "m - n" xs] by simp

lemma collect_headers_prefix:
  "\<exists>n \<le> length futs. collect_headers R futs tb headers =
     headers @ map (into_consensus R) (take n (present futs)) \<and>
   (n = 0 \<or> tb + headers_size R (take (n - 1) (present futs))
       \<le> soft_response_limit R \<or> n = 1) \<and>
   (n < length (present futs) \<longrightarrow> soft_response_limit R <
      tb + headers_size R (take n (present futs)))"
proof (induction R futs tb headers rule: collect_headers.induct)
  case (3 R b futs tb headers)
  let ?tb = "tb + header_length R (into_consensus R b)"
  show ?case
  proof (cases "soft_response_limit R < ?tb")
    case True
    then show ?thesis by (intro exI [of _ 1]) auto
  next
    case False
    note IH = "3.IH" [OF refl refl refl False]
    obtain n where n: "n \<le> length futs"
      "collect_headers R futs ?tb (headers @ [into_consensus R b]) =
         (headers @ [into_consensus R b]) @ map (into_consensus R) (take n (present futs))"
      "n = 0 \<or> ?tb + headers_size R (take (n - 1) (present futs))
         \<le> soft_response_limit R \<or> n = 1"
      "n < length (present futs) \<longrightarrow> soft_response_limit R <
         ?tb + headers_size R (take n (present futs))"
      using IH by blast
    then show ?thesis
      using False by (intro exI [of _ "Suc n"]) (cases n; auto simp: Let_def)
  qed
qed auto

lemma collect_headers_all:
  assumes "tb + headers_size R (present futs) \<le> soft_response_limit R"
  shows "collect_headers R futs tb headers = headers @ map (into_consensus R) (present futs)"
proof -
  obtain n where n: "collect_headers R futs tb headers =
      headers @ map (into_consensus R) (take n (present futs))"
    "n < length (present futs) \<longrightarrow> soft_response_limit R <
      tb + headers_size R (take n (present futs))"
    using collect_headers_prefix [of futs R tb headers] by blast
  have "headers_size R (take n (present futs)) \<le> headers_size R (present futs)"
    using headers_size_simps(3) [of R "take n (present futs)" "drop n (present futs)"] by simp
  then show ?thesis using n assms by (cases "n < length (present futs)") auto
qed

lemma collect_bodies_prefix:
  assumes "length bodies < max_bodies_serve R"
  shows "\<exists>n. collect_bodies R futs tb bodies =
     bodies @ map (block_body_of R) (take n (present futs)) \<and>
   length bodies + length (take n (present futs)) \<le> max_bodies_serve R"
  using assms
proof (induction R futs tb bodies rule: collect_bodies.induct)
  case (3 R b futs tb bodies)
  let ?tb = "tb + body_length R (block_body_of R b)"
  show ?case
  proof (cases "max_bodies_serve R \<le> Suc (length bodies) \<or> soft_response_limit R < ?tb")
    case True
    then show ?thesis using 3(2) by (intro exI [of _ 1]) (auto simp: Let_def)
  next
    case False
    then have "\<not> (max_bodies_serve R \<le> length (bodies @ [block_body_of R b]) \<or> soft_response_limit R < ?tb)"
      by simp
    note IH = "3.IH" [OF refl refl refl this]
    obtain n where "collect_bodies R futs ?tb (bodies @ [block_body_of R b]) =
        (bodies @ [block_body_of R b]) @ map (block_body_of R) (take n (present futs))"
      "length (bodies @ [block_body_of R b]) + length (take n (present futs)) \<le> max_bodies_serve R"
      using IH False by auto
    then show ?thesis using False by (intro exI [of _ "Suc n"]) (auto simp: Let_def)
  qed
qed auto

lemma present_length: "length (present futs) \<le> length futs"
  by (induction futs rule: present.induct) auto

lemma present_Some: "present (map Some bs) = bs"
  by (induction bs) auto

text \<open>The numbers below the start that are asked for.\<close>

lemma headers_range_end:
  "unat (saturating_sub (s :: u64) (min (n - 1) m)) = unat s - min (unat n - 1) (unat m)" if "1 \<le> n"
proof -
  have "unat (n - 1) = unat n - 1" using that by (simp add: unat_sub)
  then show ?thesis by (simp add: unat_saturating_sub min_def word_le_nat_alt)
qed

text \<open>Within the bounds of the server all the headers that are asked for are served.\<close>

lemma headers_served:
  assumes start: "get_block R (ByHash start) Hashes = Inr (Some (chain s))"
    and range: "\<And>k. k < s \<Longrightarrow> get_block R (ByNumber (of_nat k)) Hashes = Inr (Some (chain k))"
    and num: "unat (number (into_consensus R (chain s))) = s"
    and n: "0 < n" "unat n \<le> Suc s" "n - 1 \<le> max_headers_serve R"
    and size: "sum_list (map (\<lambda>k. header_length R (into_consensus R (chain k))) [Suc s - unat n..<Suc s])
      \<le> soft_response_limit R"
  shows "on_headers_request R start n = rev (map (\<lambda>k. into_consensus R (chain k)) [Suc s - unat n..<Suc s])"
proof -
  let ?hdr = "\<lambda>k. into_consensus R (chain k)" and ?e = "Suc s - unat n"
  have le: "?e \<le> s" using n(1) by (simp add: word_less_nat_alt)
  then have split: "[?e..<Suc s] = [?e..<s] @ [s]" by simp
  show ?thesis
  proof (cases "n \<le> 1")
    case True
    then have "n = 1" using n(1) by (metis word_le_less_eq word_less_1 word_not_simps(1))
    then show ?thesis
      using start split by (simp add: on_headers_request_def rpc_block_def Let_def)
  next
    case False
    have "min (unat (n) - 1) (unat (max_headers_serve R)) = unat (n) - 1"
    proof -
      have "unat (n - 1) = unat (n) - 1" using False by (simp add: unat_sub)
      then show ?thesis using n(3) by (simp add: word_le_nat_alt)
    qed
    then have e: "unat (saturating_sub (number (?hdr s)) (min (n - 1) (max_headers_serve R))) = ?e"
    proof -
      have "1 \<le> n" using False by (meson linear)
      moreover have "0 < unat (n)" using n(1) by (simp add: word_less_nat_alt)
      ultimately show ?thesis
        using headers_range_end [of "n" "number (?hdr s)" "max_headers_serve R"] num n(2)
        by (simp add: \<open>min (unat (n) - 1) (unat (max_headers_serve R)) = unat (n) - 1\<close>
            del: One_nat_def)
    qed
    have futs: "map (\<lambda>k. rpc_block R (ByNumber (of_nat k)) Hashes) (rev [?e..<s]) = map Some (rev (map chain [?e..<s]))"
      using range by (simp add: rpc_block_def rev_map)
    have "header_length R (?hdr s) + headers_size R (rev (map chain [?e..<s])) \<le> soft_response_limit R"
      using size unfolding split
      by (simp add: headers_size_def comp_def rev_map [symmetric] sum_list_rev add.commute)
    then have "collect_headers R (map Some (rev (map chain [?e..<s]))) (header_length R (?hdr s)) [?hdr s] =
        [?hdr s] @ map (into_consensus R) (rev (map chain [?e..<s]))"
      using collect_headers_all [of "header_length R (?hdr s)" R "map Some (rev (map chain [?e..<s]))" "[?hdr s]"]
      by (simp add: present_Some)
    moreover have st: "rpc_block R (ByHash (start)) Hashes = Some (chain s)"
      using start by (simp add: rpc_block_def)
    have "on_headers_request R (start) (n) =
        collect_headers R (map Some (rev (map chain [?e..<s]))) (header_length R (?hdr s)) [?hdr s]"
      by (simp only: on_headers_request_def Let_def st option.case False if_False e num futs)
    ultimately show ?thesis unfolding split by (simp add: rev_map comp_def)
  qed
qed

lemma range_response_accepted:
  assumes "map (seal_slow L) hs = h # rest" and "length hs = unat (hr_limit f)" and "hash h = hr_start_hash f"
    and "validate_header_range L (rev (h # rest)) = None"
  shows "on_headers_response L f (Inr hs) = Ready (h # rest)"
  using assms by (simp add: on_headers_response_def)

lemma bodies_served_bound:
  assumes "0 < max_bodies_serve R"
  shows "length (on_block_bodies_request R hs) \<le> min (length hs) (max_bodies_serve R)"
proof -
  let ?bs = "map (\<lambda>h. rpc_block R (ByHash h) Full) hs"
  obtain k where "on_block_bodies_request R hs = map (block_body_of R) (take k (present ?bs))"
    "length (take k (present ?bs)) \<le> max_bodies_serve R"
    using collect_bodies_prefix [of "[]" R ?bs 0] assms by (auto simp: on_block_bodies_request_def)
  then show ?thesis using present_length [of ?bs] by simp
qed

text \<open>More than one header is asked for: those that are there, as far as the size allows.\<close>

lemma headers_served_bounds:
  assumes st: "rpc_block R (ByHash h) Hashes = Some b" and "\<not> n \<le> 1"
  shows "length (on_headers_request R h n) \<le> Suc (min (unat n - 1) (unat (max_headers_serve R))) \<and>
    (3 \<le> length (on_headers_request R h n) \<longrightarrow>
       sum_list (map (header_length R) (butlast (on_headers_request R h n))) \<le> soft_response_limit R)"
proof -
  let ?hd = "into_consensus R b"
  define e where "e = saturating_sub (number ?hd) (min (n - 1) (max_headers_serve R))"
  let ?futs = "map (\<lambda>k. rpc_block R (ByNumber (of_nat k)) Hashes) (rev [unat e..<unat (number ?hd)])"
  have "1 \<le> n" using assms(2) by (meson linear)
  then have e: "unat (number ?hd) - unat e \<le> min (unat n - 1) (unat (max_headers_serve R))"
    unfolding e_def by (simp add: headers_range_end del: One_nat_def) linarith
  obtain k where k: "on_headers_request R h n = ?hd # map (into_consensus R) (take k (present ?futs))"
    "k = 0 \<or> header_length R ?hd + headers_size R (take (k - 1) (present ?futs)) \<le> soft_response_limit R \<or> k = 1"
    using collect_headers_prefix [of ?futs R "header_length R ?hd" "[?hd]"] assms
    by (auto simp: on_headers_request_def e_def Let_def)
  have "length (take k (present ?futs)) \<le> length ?futs" using present_length [of ?futs] by simp
  also have "\<dots> = unat (number ?hd) - unat e" by simp
  finally have len: "length (take k (present ?futs)) \<le> min (unat n - 1) (unat (max_headers_serve R))"
    using e by (rule le_trans)
  have "sum_list (map (header_length R) (butlast (on_headers_request R h n))) \<le> soft_response_limit R"
    if "3 \<le> length (on_headers_request R h n)"
  proof -
    have bl: "butlast (take k (present ?futs)) = take (min k (length (present ?futs)) - 1) (present ?futs)"
      by (simp add: butlast_take min_def butlast_conv_take)
    have "headers_size R (take (min k (length (present ?futs)) - 1) (present ?futs)) \<le>
        headers_size R (take (k - 1) (present ?futs))"
      by (intro headers_size_take diff_le_mono) simp
    then show ?thesis
      using k that by (auto simp: bl headers_size_def comp_def simp flip: map_butlast)
  qed
  moreover have "length (on_headers_request R h n) = Suc (length (take k (present ?futs)))"
    using k(1) by (simp del: length_take)
  ultimately show ?thesis using len by simp
qed

section \<open>Properties\<close>


text \<open>
  C38: what a node that has the chain serves, the client accepts: the response to a request for a range
  of headers that fits the limits is the range, which the future of the client returns, provided it
  passes the check of the consensus.
\<close>

theorem served_headers_accepted:
  assumes "get_block R (ByHash (hr_start_hash f)) Hashes = Inr (Some (chain s))"
    and "\<And>k. k < s \<Longrightarrow> get_block R (ByNumber (of_nat k)) Hashes = Inr (Some (chain k))"
    and "unat (number (into_consensus R (chain s))) = s"
    and "0 < hr_limit f" and "unat (hr_limit f) \<le> Suc s" and "hr_limit f - 1 \<le> max_headers_serve R"
    and "sum_list (map (\<lambda>k. header_length R (into_consensus R (chain k))) [Suc s - unat (hr_limit f)..<Suc s])
      \<le> soft_response_limit R"
    and "hash_slow L (into_consensus R (chain s)) = hr_start_hash f"
    and "validate_header_range L (map (\<lambda>k. seal_slow L (into_consensus R (chain k)))
      [Suc s - unat (hr_limit f)..<Suc s]) = None"
  shows "on_headers_response L f (Inr (on_headers_request R (hr_start_hash f) (hr_limit f))) =
    Ready (rev (map (\<lambda>k. seal_slow L (into_consensus R (chain k))) [Suc s - unat (hr_limit f)..<Suc s]))"
proof -
  let ?hdr = "\<lambda>k. into_consensus R (chain k)" and ?e = "Suc s - unat (hr_limit f)"
  let ?rest = "rev (map (\<lambda>k. seal_slow L (?hdr k)) [?e..<s])"
  have "?e \<le> s" using assms(4) by (simp add: word_less_nat_alt)
  then have hd: "rev (map (\<lambda>k. seal_slow L (?hdr k)) [?e..<Suc s]) = seal_slow L (?hdr s) # ?rest" by simp
  have m: "map (seal_slow L) (rev (map ?hdr [?e..<Suc s])) = rev (map (\<lambda>k. seal_slow L (?hdr k)) [?e..<Suc s])"
    by (simp add: rev_map comp_def)
  have "on_headers_response L f (Inr (rev (map ?hdr [?e..<Suc s]))) = Ready (seal_slow L (?hdr s) # ?rest)"
  proof (rule range_response_accepted)
    show "map (seal_slow L) (rev (map ?hdr [?e..<Suc s])) = seal_slow L (?hdr s) # ?rest" unfolding m by (rule hd)
    show "length (rev (map ?hdr [?e..<Suc s])) = unat (hr_limit f)" using assms(5) by (simp del: upt_Suc)
    show "validate_header_range L (rev (seal_slow L (?hdr s) # ?rest)) = None"
      using assms(9) unfolding hd [symmetric] rev_rev_ident .
  qed (use assms(8) in simp)
  moreover have "on_headers_request R (hr_start_hash f) (hr_limit f) = rev (map ?hdr [?e..<Suc s])"
    by (rule headers_served) (fact assms)+
  ultimately show ?thesis unfolding hd by simp
qed

text \<open>
  A proof is asked of the node by the number of the block: two blocks of one number, on different
  forks, are served the same proof.
\<close>

lemma proof_by_number:
  assumes "rpc_block R (ByHash h) Hashes = Some b" and "rpc_block R (ByHash h') Hashes = Some b'"
    and "number (into_consensus R b) = number (into_consensus R b')"
  shows "on_proof_request R h = on_proof_request R h'"
  using assms by (simp add: on_proof_request_def)

section \<open>Concrete instances\<close>

text \<open>A node with the blocks 0 to 5; its headers are those of the fetching futures.\<close>

definition ex_node :: "(u64, nat) rpc_node" where
  "ex_node = \<lparr>get_block = (\<lambda>i _. Inr (case i of
         ByHash h \<Rightarrow> if h < 6 then Some (ucast h) else None
       | ByNumber n \<Rightarrow> if n < 6 then Some n else None)),
     debug_execution_witness = (\<lambda>n. Inr (unat n)), into_consensus = ex_header,
     block_body_of = (\<lambda>n. [ucast n]), header_length = (\<lambda>_. 500), body_length = length,
     encode_witness = (\<lambda>n. [of_nat n]), max_headers_serve = 1024, max_bodies_serve = 2,
     soft_response_limit = 2000\<rparr>"


theorem served_accepted_witness:
  "on_headers_response fits_number (headers_range_new 50 4 3) (Inr (on_headers_request ex_node 4 3)) =
     Ready (rev (map (\<lambda>k. seal_slow fits_number (ex_header (of_nat k))) [2, 3, 4]))"
proof -
  have r: "[Suc 4 - unat (3 :: u64)..<Suc 4] = [2, 3, 4]" by (simp add: upt_rec)
  have "on_headers_response fits_number (headers_range_new 50 4 3)
      (Inr (on_headers_request ex_node (hr_start_hash (headers_range_new 50 4 3)) (hr_limit (headers_range_new 50 4 3)))) =
    Ready (rev (map (\<lambda>k. seal_slow fits_number (into_consensus ex_node (of_nat k)))
      [Suc 4 - unat (hr_limit (headers_range_new 50 4 3))..<Suc 4]))"
    by (rule served_headers_accepted)
       (simp_all add: headers_range_new_def ex_node_def ex_header_def fits_number_def r word_less_nat_alt
         unat_of_nat take_bit_nat_eq_self)
  then show ?thesis by (simp add: headers_range_new_def ex_node_def r)
qed

end
