(* ===== verification/Adapter.thy ===== *)
theory Adapter
  imports Prelude "HOL-Library.AList" "HOL-Library.Countable"
begin

text \<open>
  The proxy between a beacon client and the two execution clients, \<open>bin/adapter/src/main.rs\<close>: every
  request goes to reth, engine requests also to ress, whose response is returned with the payload
  id of reth.
\<close>

section \<open>JSON and HTTP\<close>

text \<open>A JSON object is a map of its keys, here the list of its entries; the header map is one of HTTP headers.\<close>

datatype json =
    JNull
  | JBool bool
  | JNumber string
  | JString string
  | JArray "json list"
  | JObject "(string \<times> json) list"

record http_request =
  req_method :: string
  req_headers :: "(string \<times> string) list"
  req_body :: bytes

text \<open>Collecting the body of a response can fail; the parts are its status and headers.\<close>

record http_response =
  res_status :: nat
  res_headers :: "(string \<times> string) list"
  res_body :: "string + bytes"

text \<open>
  The libraries: parsing and printing JSON, the payload id of a response of reth if it has the
  expected fields, and printing a number.
\<close>

record json_lib =
  from_slice :: "bytes \<Rightarrow> json option"
  to_vec :: "json \<Rightarrow> bytes"
  reth_payload_response :: "json \<Rightarrow> string option option"
  number_to_string :: "nat \<Rightarrow> string"

definition json_get :: "json \<Rightarrow> string \<Rightarrow> json option" where
  "json_get v key = (case v of JObject m \<Rightarrow> map_of m key | _ \<Rightarrow> None)"

text \<open>Indexing a value that has no such key gives null.\<close>

definition json_index :: "json \<Rightarrow> string \<Rightarrow> json" where
  "json_index v key = (case json_get v key of Some x \<Rightarrow> x | None \<Rightarrow> JNull)"

definition as_str :: "json \<Rightarrow> string option" where
  "as_str v = (case v of JString s \<Rightarrow> Some s | _ \<Rightarrow> None)"

definition starts_with :: "string \<Rightarrow> string \<Rightarrow> bool" where
  "starts_with s pre = (take (length pre) s = pre)"

section \<open>Forwarding a request\<close>

definition reth_auth :: string where "reth_auth = ''http://127.0.0.1:8651''"
definition reth_http :: string where "reth_http = ''http://127.0.0.1:8544''"
definition ress_auth :: string where "ress_auth = ''http://127.0.0.1:8552''"

definition is_engine_method :: "json \<Rightarrow> bool" where
  "is_engine_method request_body =
     (case as_str (json_index request_body ''method'') of
        Some method \<Rightarrow> starts_with method ''engine'' \<and> \<not> starts_with method ''engine_get''
      | None \<Rightarrow> False)"

text \<open>The payload id of reth goes into the result of ress, when that is an object.\<close>

definition set_payload_id :: "string \<Rightarrow> json \<Rightarrow> json" where
  "set_payload_id pid doc =
     (case doc of
        JObject m \<Rightarrow>
          (case map_of m ''result'' of
             Some (JObject result_map) \<Rightarrow>
               JObject (AList.update ''result''
                 (JObject (AList.update ''payloadId'' (JString pid) result_map)) m)
           | _ \<Rightarrow> doc)
      | _ \<Rightarrow> doc)"

definition set_content_length :: "json_lib \<Rightarrow> nat \<Rightarrow> (string \<times> string) list \<Rightarrow> (string \<times> string) list" where
  "set_content_length J n hs =
     filter (\<lambda>h. fst h \<noteq> ''content-length'') hs @ [(''content-length'', number_to_string J n)]"

text \<open>
  A request is answered, or fails with an error of the transport, or its task panics.
\<close>

datatype forwarded =
    Answered http_response
  | TransportError string
  | TaskPanicked

text \<open>The response for an engine request, from the responses of both clients.\<close>

definition merge_responses :: "json_lib \<Rightarrow> bytes \<Rightarrow> http_response \<Rightarrow> bytes \<Rightarrow> forwarded" where
  "merge_responses J reth_body ress_res ress_body =
     (case from_slice J reth_body of
        None \<Rightarrow> TaskPanicked
      | Some top_level \<Rightarrow>
          (let unchanged = Answered (ress_res\<lparr>res_body := Inr ress_body\<rparr>)
           in case json_get top_level ''result'' of
                None \<Rightarrow> unchanged
              | Some result_value \<Rightarrow>
                  (case reth_payload_response J result_value of
                     Some (Some reth_payload_id) \<Rightarrow>
                       (case from_slice J ress_body of
                          None \<Rightarrow> TaskPanicked
                        | Some ress_top_level \<Rightarrow>
                            (let new_body = to_vec J (set_payload_id reth_payload_id ress_top_level)
                             in Answered (ress_res\<lparr>
                                  res_headers := set_content_length J (length new_body) (res_headers ress_res),
                                  res_body := Inr new_body\<rparr>)))
                   | _ \<Rightarrow> unchanged)))"

text \<open>
  \<open>send\<close> is the HTTP client: what the server at an address answers, or nothing if the request fails,
  which panics. The second result lists the requests sent.
\<close>

definition forward_request ::
  "json_lib \<Rightarrow> (string \<Rightarrow> http_request \<Rightarrow> http_response option) \<Rightarrow> string + http_request \<Rightarrow> bool \<Rightarrow>
     forwarded \<times> (string \<times> http_request) list" where
  "forward_request J send req is_auth_server =
     (case req of
        Inl e \<Rightarrow> (TransportError e, [])
      | Inr req \<Rightarrow>
          (case from_slice J (req_body req) of
             None \<Rightarrow> (TaskPanicked, [])
           | Some request_body \<Rightarrow>
               (let reth_uri = (if is_auth_server then reth_auth else reth_http)
                in case send reth_uri req of
                     None \<Rightarrow> (TaskPanicked, [(reth_uri, req)])
                   | Some reth_res \<Rightarrow>
                       if \<not> is_engine_method request_body then (Answered reth_res, [(reth_uri, req)])
                       else
                         (case res_body reth_res of
                            Inl e \<Rightarrow> (TransportError e, [(reth_uri, req)])
                          | Inr reth_body \<Rightarrow>
                              (case send ress_auth req of
                                 None \<Rightarrow> (TaskPanicked, [(reth_uri, req), (ress_auth, req)])
                               | Some ress_res \<Rightarrow>
                                   (case res_body ress_res of
                                      Inl e \<Rightarrow> (TransportError e, [(reth_uri, req), (ress_auth, req)])
                                    | Inr ress_body \<Rightarrow>
                                        (merge_responses J reth_body ress_res ress_body,
                                         [(reth_uri, req), (ress_auth, req)])))))))"

section \<open>The listeners\<close>

text \<open>\<open>main\<close> binds the two addresses in order; the flag tells the requests to the first apart.\<close>

definition listen_auth_addr :: "string \<times> nat" where "listen_auth_addr = (''0.0.0.0'', 8551)"
definition listen_http_addr :: "string \<times> nat" where "listen_http_addr = (''0.0.0.0'', 8545)"

definition bind_listeners ::
  "(string \<times> nat \<Rightarrow> string option) \<Rightarrow> string + ((string \<times> nat) \<times> bool) list" where
  "bind_listeners bind =
     (case bind listen_auth_addr of
        Some e \<Rightarrow> Inl e
      | None \<Rightarrow>
          (case bind listen_http_addr of
             Some e \<Rightarrow> Inl e
           | None \<Rightarrow> Inr [(listen_auth_addr, True), (listen_http_addr, False)]))"

text \<open>A connection, a task of its own, serves its requests until one is not answered.\<close>

fun serve_connection ::
  "json_lib \<Rightarrow> (string \<Rightarrow> http_request \<Rightarrow> http_response option) \<Rightarrow> bool \<Rightarrow>
     (string + http_request) list \<Rightarrow> (forwarded \<times> (string \<times> http_request) list) list" where
  "serve_connection J send is_auth_server [] = []"
| "serve_connection J send is_auth_server (req # reqs) =
     (let r = forward_request J send req is_auth_server
      in r # (case fst r of
                Answered _ \<Rightarrow> serve_connection J send is_auth_server reqs
              | _ \<Rightarrow> []))"

text \<open>
  The task of a listener: a failing \<open>accept\<close> panics, which ends it; the flag says so. The two tasks
  run together, and the program ends with an error when either panics.
\<close>

fun serve_listener ::
  "json_lib \<Rightarrow> (string \<Rightarrow> http_request \<Rightarrow> http_response option) \<Rightarrow> bool \<Rightarrow>
     (string + (string + http_request) list) list \<Rightarrow>
     (forwarded \<times> (string \<times> http_request) list) list list \<times> bool" where
  "serve_listener J send is_auth_server [] = ([], False)"
| "serve_listener J send is_auth_server (Inl e # accepted) = ([], True)"
| "serve_listener J send is_auth_server (Inr reqs # accepted) =
     (case serve_listener J send is_auth_server accepted of
        (served, panicked) \<Rightarrow> (serve_connection J send is_auth_server reqs # served, panicked))"

text \<open>
  What a request causes: it is sent unchanged to the reth server of its listener, and only an engine
  request also to ress. So what arrives without authentication never reaches the other port of reth.
\<close>

lemma forward_request_targets:
  assumes "(uri, r) \<in> set (snd (forward_request J send req is_auth_server))"
  shows "req = Inr r \<and> (uri = (if is_auth_server then reth_auth else reth_http) \<or>
    uri = ress_auth \<and> (\<exists>v. from_slice J (req_body r) = Some v \<and> is_engine_method v))"
  using assms
  by (auto simp: forward_request_def Let_def split: sum.splits option.splits if_splits)

lemma http_listener_targets:
  assumes "c \<in> set (fst (serve_listener J send False accepted))" and "x \<in> set c"
  shows "reth_auth \<notin> fst ` set (snd x)"
proof -
  have "reth_auth \<noteq> reth_http" "reth_auth \<noteq> ress_auth"
    by (simp_all add: reth_auth_def reth_http_def ress_auth_def)
  then have one: "reth_auth \<notin> fst ` set (snd (forward_request J send req False))" for req
    using forward_request_targets by fastforce
  have conn: "x \<in> set (serve_connection J send False reqs) \<Longrightarrow> reth_auth \<notin> fst ` set (snd x)" for reqs x
    using one by (induction reqs) (auto simp: Let_def split: forwarded.splits)
  show ?thesis
    using assms
  proof (induction accepted)
    case (Cons a accepted)
    then have "c \<in> set (fst (serve_listener J send False accepted)) \<or> (\<exists>b. c = serve_connection J send False b)"
      by (cases a; cases "serve_listener J send False accepted") auto
    then show ?case using conn Cons.IH Cons.prems(2) by blast
  qed simp
qed

section \<open>The payload id in the response\<close>

lemma set_payload_id_result:
  assumes "json_get doc ''result'' = Some (JObject r)"
  shows "\<exists>r'. json_get (set_payload_id pid doc) ''result'' = Some (JObject r') \<and>
    map_of r' = (map_of r)(''payloadId'' \<mapsto> JString pid) \<and>
    (\<forall>k. k \<noteq> ''result'' \<longrightarrow> json_get (set_payload_id pid doc) k = json_get doc k)"
proof (cases doc)
  case (JObject m)
  then show ?thesis
    using assms by (auto simp: json_get_def set_payload_id_def update_conv')
qed (use assms in \<open>auto simp: json_get_def\<close>)

lemma content_length_headers:
  "map_of (set_content_length J n hs) k =
     (if k = ''content-length'' then Some (number_to_string J n) else map_of hs k)"
  unfolding set_content_length_def by (induction hs) auto

section \<open>Properties\<close>


section \<open>A concrete instance\<close>

text \<open>A value is printed as that many zeros as its number in an enumeration of all values.\<close>

instance json :: countable
  by countable_datatype

definition ex_json :: json_lib where
  "ex_json = \<lparr>from_slice = (\<lambda>bs. Some (from_nat (length bs))), to_vec = (\<lambda>v. replicate (to_nat v) 0),
     reth_payload_response = (\<lambda>v. map_option as_str (json_get v ''payloadId'')),
     number_to_string = (\<lambda>n. replicate n CHR ''1'')\<rparr>"

lemma ex_json_roundtrip: "from_slice ex_json (to_vec ex_json v) = Some v"
  by (simp add: ex_json_def)

definition ex_forkchoice_request :: json where
  "ex_forkchoice_request = JObject [(''method'', JString ''engine_forkchoiceUpdatedV3'')]"

definition ex_response :: "(string \<times> json) list \<Rightarrow> http_response" where
  "ex_response m = \<lparr>res_status = 200, res_headers = [(''content-length'', ''9'')],
     res_body = Inr (to_vec ex_json (JObject [(''id'', JNumber ''1''), (''result'', JObject m)]))\<rparr>"

definition ex_send :: "string \<Rightarrow> http_request \<Rightarrow> http_response option" where
  "ex_send uri req = (if uri = reth_auth then Some (ex_response [(''payloadId'', JString ''0x7'')])
     else if uri = ress_auth then Some (ex_response [(''payloadId'', JNull), (''payloadStatus'', JNull)])
     else None)"


end
