(* ===== verification/State_Root.thy ===== *)
theory State_Root
  imports Provider "HOL-Library.Multiset"
begin

text \<open>
  The state root after a block, \<open>crates/verifier/src/root.rs\<close>: the storage tries of the accounts
  with changed storage are taken out, updated and put back, then the accounts are updated, and the
  root of the trie is computed. The tries are library objects, arguments of the definitions; an
  abstraction of their documented behaviour gives the specification the routine is checked against.
\<close>

section \<open>The libraries\<close>

text \<open>
  \<open>'s\<close> is the sparse state trie, \<open>'t\<close> a storage trie, \<open>'a\<close> an account of the hashed post state, \<open>'n\<close>
  a path of nibbles. An operation that fails returns its message.
\<close>

record ('s, 't, 'a, 'n) trie_lib =
  unpack_nibbles :: "b256 \<Rightarrow> 'n"
  take_storage_trie :: "b256 \<Rightarrow> 's \<Rightarrow> 't option \<times> 's"
  insert_storage_trie :: "b256 \<Rightarrow> 't \<Rightarrow> 's \<Rightarrow> 's"
  storage_trie_mut_root :: "b256 \<Rightarrow> 's \<Rightarrow> (b256 \<times> 's) option"
  get_account_value :: "b256 \<Rightarrow> 's \<Rightarrow> bytes option"
  get_storage_slot_value :: "b256 \<Rightarrow> b256 \<Rightarrow> 's \<Rightarrow> bytes option"
  update_account_leaf :: "'n \<Rightarrow> bytes \<Rightarrow> 's \<Rightarrow> string + 's"
  remove_account_leaf :: "'n \<Rightarrow> 's \<Rightarrow> string + 's"
  trie_root :: "'s \<Rightarrow> string + b256 \<times> 's"
  revealed_empty :: 't
  wipe :: "'t \<Rightarrow> string + 't"
  update_leaf :: "'n \<Rightarrow> bytes \<Rightarrow> 't \<Rightarrow> string + 't"
  remove_leaf :: "'n \<Rightarrow> 't \<Rightarrow> string + 't"
  storage_root_mut :: "'t \<Rightarrow> b256 option \<times> 't"
  encode_u256 :: "u256 \<Rightarrow> bytes"
  decode_storage_root :: "bytes \<Rightarrow> string + b256"
  account_default :: 'a
  account_is_empty :: "'a \<Rightarrow> bool"
  encode_trie_account :: "'a \<Rightarrow> b256 \<Rightarrow> bytes"
  empty_root_hash :: b256

text \<open>
  The hashed post state: hash maps as lists of their entries, in the order the maps iterate.
\<close>

record hashed_storage =
  wiped :: bool
  slots :: "(b256 \<times> u256) list"

record 'a hashed_post_state =
  post_accounts :: "(b256 \<times> 'a option) list"
  post_storages :: "(b256 \<times> hashed_storage) list"

section \<open>The routine\<close>

text \<open>The sorted loop over the slots of one account.\<close>

fun update_slots ::
  "('s, 't, 'a, 'n) trie_lib \<Rightarrow> (b256 \<times> u256) list \<Rightarrow> 't \<Rightarrow> string + 't" where
  "update_slots L [] storage_trie = Inr storage_trie"
| "update_slots L ((hashed_slot, v) # rest) storage_trie =
     (case (if v = 0 then remove_leaf L (unpack_nibbles L hashed_slot) storage_trie
            else update_leaf L (unpack_nibbles L hashed_slot) (encode_u256 L v) storage_trie) of
        Inl e \<Rightarrow> Inl e
      | Inr storage_trie \<Rightarrow> update_slots L rest storage_trie)"

definition update_storage_trie ::
  "('s, 't, 'a, 'n) trie_lib \<Rightarrow> hashed_storage \<Rightarrow> 't option \<Rightarrow> string + 't" where
  "update_storage_trie L st maybe_trie =
     (let storage_trie = (case maybe_trie of Some t \<Rightarrow> t | None \<Rightarrow> revealed_empty L)
      in case (if wiped st then wipe L storage_trie else Inr storage_trie) of
           Inl e \<Rightarrow> Inl e
         | Inr storage_trie \<Rightarrow>
             (case update_slots L (sort_key fst (slots st)) storage_trie of
                Inl e \<Rightarrow> Inl e
              | Inr storage_trie \<Rightarrow> Inr (snd (storage_root_mut L storage_trie))))"

text \<open>The tries are taken out of the state trie before any is put back.\<close>

fun take_storage_tries ::
  "('s, 't, 'a, 'n) trie_lib \<Rightarrow> (b256 \<times> hashed_storage) list \<Rightarrow> 's \<Rightarrow>
     (b256 \<times> hashed_storage \<times> 't option) list \<times> 's" where
  "take_storage_tries L [] trie = ([], trie)"
| "take_storage_tries L ((addr, st) # rest) trie =
     (let (maybe_trie, trie) = take_storage_trie L addr trie;
          (taken, trie) = take_storage_tries L rest trie
      in ((addr, st, maybe_trie) # taken, trie))"

fun insert_storage_tries ::
  "('s, 't, 'a, 'n) trie_lib \<Rightarrow> (b256 \<times> (string + 't)) list \<Rightarrow> 's \<Rightarrow> string + 's" where
  "insert_storage_tries L [] trie = Inr trie"
| "insert_storage_tries L ((addr, result) # rest) trie =
     (case result of
        Inl e \<Rightarrow> Inl e
      | Inr storage_trie \<Rightarrow> insert_storage_tries L rest (insert_storage_trie L addr storage_trie trie))"

definition account_storage_root ::
  "('s, 't, 'a, 'n) trie_lib \<Rightarrow> b256 \<Rightarrow> 's \<Rightarrow> string + b256 \<times> 's" where
  "account_storage_root L hashed_address trie =
     (case storage_trie_mut_root L hashed_address trie of
        Some (root, trie) \<Rightarrow> Inr (root, trie)
      | None \<Rightarrow>
          (case get_account_value L hashed_address trie of
             Some v \<Rightarrow> map_sum id (\<lambda>root. (root, trie)) (decode_storage_root L v)
           | None \<Rightarrow> Inr (empty_root_hash L, trie)))"

definition update_account ::
  "('s, 't, 'a, 'n) trie_lib \<Rightarrow> b256 \<Rightarrow> 'a option \<Rightarrow> 's \<Rightarrow> string + 's" where
  "update_account L hashed_address maybe_account trie =
     (let account = (case maybe_account of Some a \<Rightarrow> a | None \<Rightarrow> account_default L)
      in case account_storage_root L hashed_address trie of
           Inl e \<Rightarrow> Inl e
         | Inr (storage_root, trie) \<Rightarrow>
             if account_is_empty L account \<and> storage_root = empty_root_hash L
             then remove_account_leaf L (unpack_nibbles L hashed_address) trie
             else update_account_leaf L (unpack_nibbles L hashed_address)
                    (encode_trie_account L account storage_root) trie)"

fun update_accounts ::
  "('s, 't, 'a, 'n) trie_lib \<Rightarrow> (b256 \<times> 'a option) list \<Rightarrow> 's \<Rightarrow> string + 's" where
  "update_accounts L [] trie = Inr trie"
| "update_accounts L ((hashed_address, account) # rest) trie =
     (case update_account L hashed_address account trie of
        Inl e \<Rightarrow> Inl e
      | Inr trie \<Rightarrow> update_accounts L rest trie)"

text \<open>
  The storage tries are updated in parallel and received in the order they are done: \<open>arrival\<close>
  rearranges the results.
\<close>

definition calculate_state_root ::
  "('s, 't, 'a, 'n) trie_lib \<Rightarrow>
     ((b256 \<times> (string + 't)) list \<Rightarrow> (b256 \<times> (string + 't)) list) \<Rightarrow>
     's \<Rightarrow> 'a hashed_post_state \<Rightarrow> string + b256 \<times> 's" where
  "calculate_state_root L arrival trie st =
     (let (taken, trie) = take_storage_tries L (post_storages st) trie;
          results = map (\<lambda>(addr, storage, maybe_trie).
                           (addr, update_storage_trie L storage maybe_trie)) taken
      in case insert_storage_tries L (arrival results) trie of
           Inl e \<Rightarrow> Inl e
         | Inr trie \<Rightarrow>
             (case update_accounts L (sort_key fst (post_accounts st)) trie of
                Inl e \<Rightarrow> Inl e
              | Inr trie \<Rightarrow> trie_root L trie))"

section \<open>The documented behaviour of the tries\<close>

text \<open>
  A storage trie is a map from hashed slots to values, or blinded; a state trie has a map of
  accounts and revealed storage tries. A root is a function of the map. The laws say what a
  successful operation does.
\<close>

record ('s, 't) trie_abs =
  leaves :: "'t \<Rightarrow> (b256 \<rightharpoonup> bytes) option"
  acct_leaves :: "'s \<Rightarrow> b256 \<rightharpoonup> bytes"
  tries :: "'s \<Rightarrow> b256 \<rightharpoonup> (b256 \<rightharpoonup> bytes)"
  storage_root_of :: "(b256 \<rightharpoonup> bytes) \<Rightarrow> b256"
  state_root_of :: "(b256 \<rightharpoonup> bytes) \<Rightarrow> b256"

definition storage_trie_laws :: "('s, 't, 'a, 'n) trie_lib \<Rightarrow> ('s, 't) trie_abs \<Rightarrow> bool" where
  "storage_trie_laws L A \<longleftrightarrow>
     leaves A (revealed_empty L) = Some Map.empty \<and>
     (\<forall>t t'. wipe L t = Inr t' \<longrightarrow> leaves A t' = Some Map.empty) \<and>
     (\<forall>k v t t'. update_leaf L (unpack_nibbles L k) v t = Inr t' \<longrightarrow>
        (\<exists>m. leaves A t = Some m \<and> leaves A t' = Some (m(k \<mapsto> v)))) \<and>
     (\<forall>k t t'. remove_leaf L (unpack_nibbles L k) t = Inr t' \<longrightarrow>
        (\<exists>m. leaves A t = Some m \<and> leaves A t' = Some (m(k := None)))) \<and>
     (\<forall>t. leaves A (snd (storage_root_mut L t)) = leaves A t)"

definition state_trie_laws :: "('s, 't, 'a, 'n) trie_lib \<Rightarrow> ('s, 't) trie_abs \<Rightarrow> bool" where
  "state_trie_laws L A \<longleftrightarrow>
     (\<forall>a s t s'. take_storage_trie L a s = (t, s') \<longrightarrow>
        acct_leaves A s' = acct_leaves A s \<and> tries A s' = (tries A s)(a := None) \<and>
        (\<forall>b. b \<noteq> a \<longrightarrow> fst (take_storage_trie L b s') = fst (take_storage_trie L b s))) \<and>
     (\<forall>a t s. acct_leaves A (insert_storage_trie L a t s) = acct_leaves A s \<and>
        tries A (insert_storage_trie L a t s) = (tries A s)(a := leaves A t)) \<and>
     (\<forall>a s. storage_trie_mut_root L a s = None \<longrightarrow> tries A s a = None) \<and>
     (\<forall>a s r s'. storage_trie_mut_root L a s = Some (r, s') \<longrightarrow>
        (\<exists>m. tries A s a = Some m \<and> r = storage_root_of A m) \<and>
        tries A s' = tries A s \<and> acct_leaves A s' = acct_leaves A s) \<and>
     (\<forall>a s. get_account_value L a s = acct_leaves A s a) \<and>
     (\<forall>k v s s'. update_account_leaf L (unpack_nibbles L k) v s = Inr s' \<longrightarrow>
        acct_leaves A s' = (acct_leaves A s)(k \<mapsto> v) \<and> tries A s' = tries A s) \<and>
     (\<forall>k s s'. remove_account_leaf L (unpack_nibbles L k) s = Inr s' \<longrightarrow>
        acct_leaves A s' = (acct_leaves A s)(k := None) \<and> tries A s' = tries A s) \<and>
     (\<forall>s r s'. trie_root L s = Inr (r, s') \<longrightarrow> r = state_root_of A (acct_leaves A s))"

section \<open>The specification\<close>

text \<open>The storage of an account after the changes, and the account.\<close>

definition slots_after ::
  "('s, 't, 'a, 'n) trie_lib \<Rightarrow> hashed_storage \<Rightarrow> (b256 \<rightharpoonup> bytes) \<Rightarrow> b256 \<rightharpoonup> bytes" where
  "slots_after L st m = (\<lambda>k. case map_of (slots st) k of
     None \<Rightarrow> if wiped st then None else m k
   | Some v \<Rightarrow> if v = 0 then None else Some (encode_u256 L v))"

definition storage_after ::
  "('s, 't, 'a, 'n) trie_lib \<Rightarrow> ('s, 't) trie_abs \<Rightarrow> 's \<Rightarrow> 'a hashed_post_state \<Rightarrow>
     b256 \<rightharpoonup> (b256 \<rightharpoonup> bytes)" where
  "storage_after L A trie st = (\<lambda>a. case map_of (post_storages st) a of
     None \<Rightarrow> tries A trie a
   | Some storage \<Rightarrow>
       map_option (slots_after L storage)
         (if wiped storage then Some Map.empty
          else case fst (take_storage_trie L a trie) of None \<Rightarrow> Some Map.empty | Some t \<Rightarrow> leaves A t))"

definition storage_root_after ::
  "('s, 't, 'a, 'n) trie_lib \<Rightarrow> ('s, 't) trie_abs \<Rightarrow> 's \<Rightarrow> 'a hashed_post_state \<Rightarrow> b256 \<Rightarrow> b256" where
  "storage_root_after L A trie st a =
     (case storage_after L A trie st a of
        Some m \<Rightarrow> storage_root_of A m
      | None \<Rightarrow>
          (case acct_leaves A trie a of
             Some v \<Rightarrow> projr (decode_storage_root L v)
           | None \<Rightarrow> empty_root_hash L))"

definition accounts_after ::
  "('s, 't, 'a, 'n) trie_lib \<Rightarrow> ('s, 't) trie_abs \<Rightarrow> 's \<Rightarrow> 'a hashed_post_state \<Rightarrow> b256 \<rightharpoonup> bytes" where
  "accounts_after L A trie st = (\<lambda>a. case map_of (post_accounts st) a of
     None \<Rightarrow> acct_leaves A trie a
   | Some maybe_account \<Rightarrow>
       (let account = (case maybe_account of Some x \<Rightarrow> x | None \<Rightarrow> account_default L);
            root = storage_root_after L A trie st a
        in if account_is_empty L account \<and> root = empty_root_hash L then None
           else Some (encode_trie_account L account root)))"

section \<open>The routine meets the specification\<close>

lemma storage_laws:
  assumes "storage_trie_laws L A"
  shows "leaves A (revealed_empty L) = Some Map.empty"
    and "wipe L t = Inr t' \<Longrightarrow> leaves A t' = Some Map.empty"
    and "update_leaf L (unpack_nibbles L k) v t = Inr t' \<Longrightarrow>
        \<exists>m. leaves A t = Some m \<and> leaves A t' = Some (m(k \<mapsto> v))"
    and "remove_leaf L (unpack_nibbles L k) t = Inr t' \<Longrightarrow>
        \<exists>m. leaves A t = Some m \<and> leaves A t' = Some (m(k := None))"
    and "leaves A (snd (storage_root_mut L t)) = leaves A t"
  using assms unfolding storage_trie_laws_def by blast+

lemma state_laws:
  assumes "state_trie_laws L A"
  shows "take_storage_trie L a s = (t, s') \<Longrightarrow>
      acct_leaves A s' = acct_leaves A s \<and> tries A s' = (tries A s)(a := None) \<and>
      (\<forall>b. b \<noteq> a \<longrightarrow> fst (take_storage_trie L b s') = fst (take_storage_trie L b s))"
    and "acct_leaves A (insert_storage_trie L a x s) = acct_leaves A s"
    and "tries A (insert_storage_trie L a x s) = (tries A s)(a := leaves A x)"
    and "storage_trie_mut_root L a s = None \<Longrightarrow> tries A s a = None"
    and "storage_trie_mut_root L a s = Some (r, s') \<Longrightarrow>
      (\<exists>m. tries A s a = Some m \<and> r = storage_root_of A m) \<and>
      tries A s' = tries A s \<and> acct_leaves A s' = acct_leaves A s"
    and "get_account_value L a s = acct_leaves A s a"
    and "update_account_leaf L (unpack_nibbles L a) v s = Inr s' \<Longrightarrow>
        acct_leaves A s' = (acct_leaves A s)(a \<mapsto> v) \<and> tries A s' = tries A s"
    and "remove_account_leaf L (unpack_nibbles L a) s = Inr s' \<Longrightarrow>
        acct_leaves A s' = (acct_leaves A s)(a := None) \<and> tries A s' = tries A s"
    and "trie_root L s = Inr (r, s') \<Longrightarrow> r = state_root_of A (acct_leaves A s)"
  using assms unfolding state_trie_laws_def by (elim conjE; metis)+

lemma map_of_sorted: "distinct (map fst xs) \<Longrightarrow> map_of (sort_key fst xs) = map_of xs"
  by (rule map_of_inject_set [THEN iffD2]) (simp_all add: distinct_map)

lemma update_slots_correct:
  assumes laws: "storage_trie_laws L A"
  shows "update_slots L xs t = Inr t' \<Longrightarrow> distinct (map fst xs) \<Longrightarrow>
    leaves A t' = (if xs = [] then leaves A t else map_option (\<lambda>m k. case map_of xs k of
      None \<Rightarrow> m k | Some v \<Rightarrow> if v = 0 then None else Some (encode_u256 L v)) (leaves A t))"
proof (induction xs arbitrary: t)
  case (Cons x xs)
  obtain k v where x: "x = (k, v)" by (cases x)
  let ?op = "if v = 0 then remove_leaf L (unpack_nibbles L k) t
    else update_leaf L (unpack_nibbles L k) (encode_u256 L v) t"
  obtain t1 where t1: "?op = Inr t1" "update_slots L xs t1 = Inr t'"
    using Cons.prems(1) x by (auto split: sum.splits)
  obtain m where m: "leaves A t = Some m"
    "leaves A t1 = Some (m(k := if v = 0 then None else Some (encode_u256 L v)))"
    using t1(1) storage_laws(3,4) [OF laws] by (cases "v = 0") force+
  have k: "map_of xs k = None" using Cons.prems(2) x by (auto simp: map_of_eq_None_iff)
  show ?case
    using Cons.IH [OF t1(2)] Cons.prems(2) x m k by (auto simp: fun_eq_iff split: option.splits)
qed simp

lemma update_storage_trie_correct:
  assumes laws: "storage_trie_laws L A" and d: "distinct (map fst (slots st))"
    and u: "update_storage_trie L st mt = Inr t'"
  shows "leaves A t' = map_option (slots_after L st)
    (if wiped st then Some Map.empty
     else case mt of None \<Rightarrow> Some Map.empty | Some t \<Rightarrow> leaves A t)"
proof -
  let ?t = "case mt of Some t \<Rightarrow> t | None \<Rightarrow> revealed_empty L"
  obtain t1 t2 where t1: "(if wiped st then wipe L ?t else Inr ?t) = Inr t1"
    and t2: "update_slots L (sort_key fst (slots st)) t1 = Inr t2"
    and t': "t' = snd (storage_root_mut L t2)"
    using u by (auto simp: update_storage_trie_def Let_def split: sum.splits)
  define base where "base = (if wiped st then Some Map.empty
     else case mt of None \<Rightarrow> Some Map.empty | Some t \<Rightarrow> leaves A t)"
  have l1: "leaves A t1 = base"
    using t1 storage_laws(1,2) [OF laws] by (cases "wiped st") (auto simp: base_def split: option.splits)
  have ds: "distinct (map fst (sort_key fst (slots st)))" using d by (simp add: distinct_map)
  have "leaves A t2 = (if slots st = [] then base else map_option (\<lambda>m k. case map_of (slots st) k of
      None \<Rightarrow> m k | Some v \<Rightarrow> if v = 0 then None else Some (encode_u256 L v)) base)"
    using update_slots_correct [OF laws t2 ds] map_of_sorted [OF d] length_sort [of fst "slots st"] l1
    by (cases "slots st = []") auto
  moreover have "slots_after L st m = (\<lambda>k. case map_of (slots st) k of
      None \<Rightarrow> m k | Some v \<Rightarrow> if v = 0 then None else Some (encode_u256 L v))" if "base = Some m" for m
    using that by (cases "wiped st") (auto simp: base_def slots_after_def fun_eq_iff split: option.splits)
  ultimately have "leaves A t2 = map_option (slots_after L st) base"
    by (cases base) (simp_all add: fun_eq_iff)
  then show ?thesis
    unfolding base_def [symmetric] using t' storage_laws(5) [OF laws] by simp
qed

lemma take_storage_tries_correct:
  assumes laws: "state_trie_laws L A"
  shows "distinct (map fst xs) \<Longrightarrow> take_storage_tries L xs s = (taken, s') \<Longrightarrow>
    taken = map (\<lambda>(a, st). (a, st, fst (take_storage_trie L a s))) xs \<and>
    acct_leaves A s' = acct_leaves A s \<and>
    tries A s' = (\<lambda>a. if a \<in> fst ` set xs then None else tries A s a)"
proof (induction xs arbitrary: s taken s')
  case (Cons x xs)
  obtain a st where x: "x = (a, st)" by (cases x)
  obtain mt s1 where s1: "take_storage_trie L a s = (mt, s1)" by (cases "take_storage_trie L a s")
  obtain tk s2 where s2: "take_storage_tries L xs s1 = (tk, s2)" by (cases "take_storage_tries L xs s1")
  note one = state_laws(1) [OF laws s1]
  have "(case y of (b, st) \<Rightarrow> (b, st, fst (take_storage_trie L b s1))) =
      (case y of (b, st) \<Rightarrow> (b, st, fst (take_storage_trie L b s)))" if "y \<in> set xs" for y
    using one that Cons.prems(1) x by (cases y) (force simp: image_iff)
  then show ?case
    using Cons.IH [OF _ s2] Cons.prems x s1 s2 one by (auto simp: fun_eq_iff)
qed simp

lemma insert_storage_tries_correct:
  assumes laws: "state_trie_laws L A"
  shows "insert_storage_tries L rs s = Inr s' \<Longrightarrow> distinct (map fst rs) \<Longrightarrow>
    acct_leaves A s' = acct_leaves A s \<and> (\<forall>(a, r) \<in> set rs. \<exists>t. r = Inr t) \<and>
    tries A s' = (\<lambda>a. case map_of rs a of None \<Rightarrow> tries A s a | Some r \<Rightarrow> leaves A (projr r))"
proof (induction rs arbitrary: s)
  case (Cons x rs)
  obtain a r where x: "x = (a, r)" by (cases x)
  obtain t where t: "r = Inr t" "insert_storage_tries L rs (insert_storage_trie L a t s) = Inr s'"
    using Cons.prems(1) x by (cases r) auto
  have "map_of rs a = None" using Cons.prems(2) x by (auto simp: map_of_eq_None_iff)
  then show ?case
    using Cons.IH [OF t(2)] Cons.prems(2) x t(1) state_laws(2,3) [OF laws]
    by (auto simp: fun_eq_iff split: option.splits)
qed simp

definition leaf_after ::
  "('s, 't, 'a, 'n) trie_lib \<Rightarrow> ('s, 't) trie_abs \<Rightarrow> (b256 \<rightharpoonup> (b256 \<rightharpoonup> bytes)) \<Rightarrow> b256 \<Rightarrow>
     'a option \<Rightarrow> bytes option \<Rightarrow> bytes option" where
  "leaf_after L A T a maybe_account old =
     (let account = (case maybe_account of Some x \<Rightarrow> x | None \<Rightarrow> account_default L);
          root = (case T a of
             Some m \<Rightarrow> storage_root_of A m
           | None \<Rightarrow> (case old of
               Some v \<Rightarrow> projr (decode_storage_root L v) | None \<Rightarrow> empty_root_hash L))
      in if account_is_empty L account \<and> root = empty_root_hash L then None
         else Some (encode_trie_account L account root))"

lemma update_account_correct:
  assumes laws: "state_trie_laws L A" and u: "update_account L a ma s = Inr s'"
  shows "acct_leaves A s' = (acct_leaves A s)(a := leaf_after L A (tries A s) a ma (acct_leaves A s a)) \<and>
    tries A s' = tries A s"
proof -
  let ?acc = "case ma of Some x \<Rightarrow> x | None \<Rightarrow> account_default L"
  let ?root = "case tries A s a of
      Some m \<Rightarrow> storage_root_of A m
    | None \<Rightarrow> (case acct_leaves A s a of
        Some v \<Rightarrow> projr (decode_storage_root L v) | None \<Rightarrow> empty_root_hash L)"
  obtain r s1 where r: "account_storage_root L a s = Inr (r, s1)"
    "(if account_is_empty L ?acc \<and> r = empty_root_hash L
      then remove_account_leaf L (unpack_nibbles L a) s1
      else update_account_leaf L (unpack_nibbles L a) (encode_trie_account L ?acc r) s1) = Inr s'"
    using u by (auto simp: update_account_def Let_def split: sum.splits)
  have root: "r = ?root \<and> acct_leaves A s1 = acct_leaves A s \<and> tries A s1 = tries A s"
  proof (cases "storage_trie_mut_root L a s")
    case None
    then show ?thesis
      using r(1) state_laws(4) [OF laws None] state_laws(6) [OF laws]
      by (auto simp: account_storage_root_def split: option.splits)
         (metis (no_types, lifting) isl_map_sum map_sum_sel(2) obj_sumE prod.inject sum.disc(2) sum.sel(2) sum.simps(4) map_sum.simps)+
  next
    case (Some x)
    obtain y z where "x = (y, z)" by (cases x)
    then show ?thesis
      using r(1) Some state_laws(5) [OF laws, of a s y z] by (auto simp: account_storage_root_def)
  qed
  show ?thesis
    using r(2) root state_laws(7,8) [OF laws]
    by (cases "account_is_empty L ?acc \<and> r = empty_root_hash L") (auto simp: leaf_after_def Let_def)
qed

lemma update_accounts_correct:
  assumes laws: "state_trie_laws L A"
  shows "update_accounts L xs s = Inr s' \<Longrightarrow> distinct (map fst xs) \<Longrightarrow>
    acct_leaves A s' = (\<lambda>a. case map_of xs a of
      None \<Rightarrow> acct_leaves A s a | Some ma \<Rightarrow> leaf_after L A (tries A s) a ma (acct_leaves A s a))"
proof (induction xs arbitrary: s)
  case (Cons x xs)
  obtain a ma where x: "x = (a, ma)" by (cases x)
  obtain s1 where s1: "update_account L a ma s = Inr s1" "update_accounts L xs s1 = Inr s'"
    using Cons.prems(1) x by (auto split: sum.splits)
  have "map_of xs a = None" using Cons.prems(2) x by (auto simp: map_of_eq_None_iff)
  moreover have "tries A s1 = tries A s"
    "acct_leaves A s1 = (acct_leaves A s)(a := leaf_after L A (tries A s) a ma (acct_leaves A s a))"
    using update_account_correct [OF laws s1(1)] by blast+
  moreover have "distinct (map fst xs)" using Cons.prems(2) by simp
  ultimately show ?case
    using Cons.IH [OF s1(2)] x by (intro ext) (simp split: option.splits)
qed simp

lemma calculate_state_root_correct:
  assumes laws: "storage_trie_laws L A" "state_trie_laws L A"
    and d: "distinct (map fst (post_accounts st))" "distinct (map fst (post_storages st))"
      "\<forall>(a, x) \<in> set (post_storages st). distinct (map fst (slots x))"
    and arr: "\<And>rs. mset (arrival rs) = mset rs"
    and c: "calculate_state_root L arrival trie st = Inr (root, trie')"
  shows "root = state_root_of A (accounts_after L A trie st)"
proof -
  obtain taken s1 where s1: "take_storage_tries L (post_storages st) trie = (taken, s1)"
    by (cases "take_storage_tries L (post_storages st) trie")
  define rs where "rs = map (\<lambda>(addr, storage, mt). (addr, update_storage_trie L storage mt)) taken"
  obtain s2 s3 where s2: "insert_storage_tries L (arrival rs) s1 = Inr s2"
    and s3: "update_accounts L (sort_key fst (post_accounts st)) s2 = Inr s3"
    and r: "trie_root L s3 = Inr (root, trie')"
    using c s1 by (auto simp: calculate_state_root_def rs_def Let_def split: sum.splits)
  note tk = take_storage_tries_correct [OF laws(2) d(2) s1]
  have rs: "rs = map (\<lambda>(a, x). (a, update_storage_trie L x (fst (take_storage_trie L a trie)))) (post_storages st)"
    using tk by (auto simp: rs_def comp_def case_prod_beta')
  have keys: "map fst rs = map fst (post_storages st)" by (simp add: rs) (auto simp: comp_def case_prod_beta')
  have da: "distinct (map fst (arrival rs))"
  proof -
    have "mset (map fst (arrival rs)) = mset (map fst rs)" by (simp only: mset_map arr)
    from mset_eq_imp_distinct_iff [OF this] show ?thesis unfolding keys using d(2) by blast
  qed
  have dr: "distinct (map fst rs)" unfolding keys by (rule d(2))
  have "set (arrival rs) = set rs" using arr by (rule mset_eq_setD)
  then have map_arr: "map_of (arrival rs) = map_of rs"
    by (simp only: map_of_inject_set [OF da dr])
  note ins = insert_storage_tries_correct [OF laws(2) s2 da]
  have tries: "tries A s2 a = storage_after L A trie st a" for a
  proof (cases "map_of (post_storages st) a")
    case None
    then have "map_of rs a = None" "a \<notin> fst ` set (post_storages st)"
      using keys by (auto simp: map_of_eq_None_iff simp flip: set_map)
    then show ?thesis using ins tk None by (simp add: map_arr storage_after_def)
  next
    case (Some x)
    let ?u = "update_storage_trie L x (fst (take_storage_trie L a trie))"
    have mem: "(a, x) \<in> set (post_storages st)" using Some by (rule map_of_SomeD)
    then have "(a, ?u) \<in> set rs" unfolding rs by force
    then have m: "map_of rs a = Some ?u" using d(2) keys by (metis map_of_is_SomeI)
    then have "(a, ?u) \<in> set (arrival rs)" using map_arr by (metis map_of_SomeD)
    then obtain t where t: "?u = Inr t" using ins by blast
    have "distinct (map fst (slots x))" using d(3) mem by blast
    from update_storage_trie_correct [OF laws(1) this t] show ?thesis
      using ins m t Some by (simp add: map_arr storage_after_def)
  qed
  have accs: "acct_leaves A s2 = acct_leaves A trie" using ins tk by simp
  have "distinct (map fst (sort_key fst (post_accounts st)))" using d(1) by (simp add: distinct_map)
  from update_accounts_correct [OF laws(2) s3 this] have "acct_leaves A s3 = accounts_after L A trie st"
    by (auto simp: fun_eq_iff accounts_after_def leaf_after_def storage_root_after_def map_of_sorted [OF d(1)]
        accs tries Let_def split: option.splits)
  then show ?thesis using state_laws(9) [OF laws(2) r] by simp
qed

end
