(* ===== verification/Witness_Evm.thy ===== *)
theory Witness_Evm
  imports State_Root Tree_Types
begin

text \<open>
  Executing a block on a witness, \<open>crates/evm\<close>: the database that answers the reads of the EVM from
  a revealed trie, the bytecodes of the witness and the chain state, and the block executor.
\<close>

section \<open>The database\<close>

text \<open>
  Documented types of the libraries: accounts as the EVM and as the trie have them. \<open>'c\<close> is a
  bytecode.
\<close>

record 'c account_info =
  ai_balance :: u256
  ai_nonce :: u64
  ai_code_hash :: b256
  ai_code :: "'c option"

record trie_account =
  ta_nonce :: u64
  ta_balance :: u256
  ta_storage_root :: b256
  ta_code_hash :: b256

record 'c evm_lib =
  keccak_bytes :: "bytes \<Rightarrow> b256"
  keccak_address :: "address \<Rightarrow> b256"
  keccak_word :: "b256 \<Rightarrow> b256"
  decode_trie_account :: "bytes \<Rightarrow> string + trie_account"
  decode_u256 :: "bytes \<Rightarrow> string + u256"
  bytecode_new_raw :: "bytes \<Rightarrow> 'c"
  bytecode_hash_slow :: "'c \<Rightarrow> b256"
  bytecode_not_found :: "b256 \<Rightarrow> string"

text \<open>A decoding error becomes a provider error by the conversion of the library.\<close>

record execution_state_witness =
  witness_state :: "bytes list"
  witness_bytecodes :: "bytes list"

record ('s, 'c) witness_database =
  db_provider :: "execution_state_witness provider"
  db_parent :: num_hash
  db_trie :: 's
  db_bytecodes :: "(b256, 'c) fmap"

definition witness_database_new ::
  "execution_state_witness provider \<Rightarrow> num_hash \<Rightarrow> 's \<Rightarrow> (b256, 'c) fmap \<Rightarrow>
     ('s, 'c) witness_database" where
  "witness_database_new pr parent trie bytecodes =
     \<lparr>db_provider = pr, db_parent = parent, db_trie = trie, db_bytecodes = bytecodes\<rparr>"

definition db_basic ::
  "('s, 't, 'a, 'n) trie_lib \<Rightarrow> 'c evm_lib \<Rightarrow> ('s, 'c) witness_database \<Rightarrow> address \<Rightarrow>
     provider_error + 'c account_info option" where
  "db_basic T V db addr =
     (let hashed_address = keccak_address V addr
      in case get_account_value T hashed_address (db_trie db) of
           None \<Rightarrow> Inr None
         | Some v \<Rightarrow>
             (case decode_trie_account V v of
                Inl e \<Rightarrow> Inl (OtherProviderError e)
              | Inr account \<Rightarrow>
                  Inr (Some \<lparr>ai_balance = ta_balance account, ai_nonce = ta_nonce account,
                             ai_code_hash = ta_code_hash account, ai_code = None\<rparr>)))"

definition db_storage ::
  "('s, 't, 'a, 'n) trie_lib \<Rightarrow> 'c evm_lib \<Rightarrow> ('s, 'c) witness_database \<Rightarrow> address \<Rightarrow> u256 \<Rightarrow>
     provider_error + u256" where
  "db_storage T V db addr slot =
     (let hashed_address = keccak_address V addr;
          hashed_slot = keccak_word V slot
      in case get_storage_slot_value T hashed_address hashed_slot (db_trie db) of
           Some v \<Rightarrow> (case decode_u256 V v of Inl e \<Rightarrow> Inl (OtherProviderError e) | Inr x \<Rightarrow> Inr x)
         | None \<Rightarrow> Inr 0)"

definition db_code_by_hash ::
  "'c evm_lib \<Rightarrow> ('s, 'c) witness_database \<Rightarrow> b256 \<Rightarrow> provider_error + 'c" where
  "db_code_by_hash V db h =
     (case fmlookup (db_bytecodes db) h of
        None \<Rightarrow> Inl (TrieWitnessError (bytecode_not_found V h))
      | Some bytecode \<Rightarrow> Inr bytecode)"

text \<open>The walk of the provider for the hash may not return; then neither does the read.\<close>

definition db_block_hash ::
  "parent_num_hash_fn \<Rightarrow> ('s, 'c) witness_database \<Rightarrow> u64 \<Rightarrow> (provider_error + b256) option" where
  "db_block_hash pnh db n =
     (case provider_block_hash pnh (db_provider db) (db_parent db) n of
        None \<Rightarrow> None
      | Some None \<Rightarrow> Some (Inl (StateForNumberNotFound n))
      | Some (Some h) \<Rightarrow> Some (Inr h))"

section \<open>The executor\<close>

text \<open>
  What the EVM reads: the four operations of the database. The EVM of the library is an argument:
  its configuration \<open>'cfg\<close>, its state \<open>'v\<close> over a database, the strategy \<open>'g\<close> that executes a block on
  the state, a transaction \<open>'x\<close>, the result \<open>'r\<close> and the changed state \<open>'b\<close>.
\<close>

record 'c database =
  read_basic :: "address \<Rightarrow> provider_error + 'c account_info option"
  read_storage :: "address \<Rightarrow> u256 \<Rightarrow> provider_error + u256"
  read_code :: "b256 \<Rightarrow> provider_error + 'c"
  read_block_hash :: "u64 \<Rightarrow> (provider_error + b256) option"

definition database_of ::
  "('s, 't, 'a, 'n) trie_lib \<Rightarrow> 'c evm_lib \<Rightarrow> parent_num_hash_fn \<Rightarrow> ('s, 'c) witness_database \<Rightarrow>
     'c database" where
  "database_of T V pnh db =
     \<lparr>read_basic = db_basic T V db, read_storage = db_storage T V db,
      read_code = db_code_by_hash V db, read_block_hash = db_block_hash pnh db\<rparr>"

record ('c, 'cfg, 'v, 'g, 'x, 'r, 'b) executor_lib =
  evm_config_new :: "chain_spec \<Rightarrow> 'cfg"
  state_build :: "'c database \<Rightarrow> 'v"
  executor_for_block :: "'cfg \<Rightarrow> 'v \<Rightarrow> recovered_block \<Rightarrow> 'g"
  apply_pre_execution_changes :: "'g \<Rightarrow> execution_error + 'g"
  transactions_recovered :: "recovered_block \<Rightarrow> 'x list"
  execute_transaction :: "'x \<Rightarrow> 'g \<Rightarrow> execution_error + 'g"
  apply_post_execution_changes :: "'g \<Rightarrow> execution_error + 'r \<times> 'v"
  merge_transitions :: "'v \<Rightarrow> 'v"
  take_bundle :: "'v \<Rightarrow> 'b \<times> 'v"

record ('cfg, 'v) block_executor =
  evm_config :: 'cfg
  evm_state :: 'v

definition block_executor_new ::
  "('s, 't, 'a, 'n) trie_lib \<Rightarrow> 'c evm_lib \<Rightarrow> parent_num_hash_fn \<Rightarrow>
     ('c, 'cfg, 'v, 'g, 'x, 'r, 'b) executor_lib \<Rightarrow> execution_state_witness provider \<Rightarrow> num_hash \<Rightarrow>
     's \<Rightarrow> (b256, 'c) fmap \<Rightarrow> ('cfg, 'v) block_executor" where
  "block_executor_new T V pnh X pr parent trie bytecodes =
     (let config = evm_config_new X (provider_chain_spec pr);
          db = witness_database_new pr parent trie bytecodes
      in \<lparr>evm_config = config, evm_state = state_build X (database_of T V pnh db)\<rparr>)"

fun execute_transactions ::
  "('c, 'cfg, 'v, 'g, 'x, 'r, 'b) executor_lib \<Rightarrow> 'x list \<Rightarrow> 'g \<Rightarrow> execution_error + 'g" where
  "execute_transactions X [] strategy = Inr strategy"
| "execute_transactions X (tx # txs) strategy =
     (case execute_transaction X tx strategy of
        Inl e \<Rightarrow> Inl e
      | Inr strategy \<Rightarrow> execute_transactions X txs strategy)"

definition execute_block ::
  "('c, 'cfg, 'v, 'g, 'x, 'r, 'b) executor_lib \<Rightarrow> ('cfg, 'v) block_executor \<Rightarrow> recovered_block \<Rightarrow>
     execution_error + 'b \<times> 'r" where
  "execute_block X ex block =
     (case apply_pre_execution_changes X (executor_for_block X (evm_config ex) (evm_state ex) block) of
        Inl e \<Rightarrow> Inl e
      | Inr strategy \<Rightarrow>
          (case execute_transactions X (transactions_recovered X block) strategy of
             Inl e \<Rightarrow> Inl e
           | Inr strategy \<Rightarrow>
               (case apply_post_execution_changes X strategy of
                  Inl e \<Rightarrow> Inl e
                | Inr (result, st) \<Rightarrow> Inr (fst (take_bundle X (merge_transitions X st)), result))))"

section \<open>Reads of the database\<close>

text \<open>Transactions are executed in order up to the first that fails.\<close>

lemma execute_transactions_append:
  "execute_transactions X (txs @ txs') g =
     (case execute_transactions X txs g of Inl e \<Rightarrow> Inl e | Inr g' \<Rightarrow> execute_transactions X txs' g')"
  by (induction X txs g rule: execute_transactions.induct) (auto split: sum.splits)

lemma execute_block_empty:
  "transactions_recovered X block = [] \<Longrightarrow>
     apply_pre_execution_changes X (executor_for_block X (evm_config ex) (evm_state ex) block) = Inr g \<Longrightarrow>
     apply_post_execution_changes X g = Inr (r, st) \<Longrightarrow>
     execute_block X ex block = Inr (fst (take_bundle X (merge_transitions X st)), r)"
  by (simp add: execute_block_def)

end
