(* ===== verification/Verifier.thy ===== *)
theory Verifier
  imports Witness_Evm Tree_Invariant
begin

text \<open>
  The block verifier, \<open>crates/verifier/src/lib.rs\<close>: the checks of the consensus before execution,
  execution on the witness, the check of the result, and the comparison of the state root.
\<close>

section \<open>The verifier\<close>

text \<open>
  \<open>validate_header\<close> and its siblings are the checks of the consensus library; \<open>post_state\<close> hashes the
  keys of the state changes.
\<close>

record ('s, 't, 'a, 'n, 'c, 'cfg, 'v, 'g, 'x, 'r, 'b) verifier_lib =
  trie_ops :: "('s, 't, 'a, 'n) trie_lib"
  evm_ops :: "'c evm_lib"
  executor_ops :: "('c, 'cfg, 'v, 'g, 'x, 'r, 'b) executor_lib"
  parent_of :: parent_num_hash_fn
  consensus_header :: "sealed_header \<Rightarrow> consensus_error option"
  consensus_block :: "sealed_block \<Rightarrow> consensus_error option"
  consensus_against_parent :: "sealed_header \<Rightarrow> sealed_header \<Rightarrow> consensus_error option"
  consensus_post_execution :: "recovered_block \<Rightarrow> 'r \<Rightarrow> consensus_error option"
  sparse_trie_new :: 's
  reveal_witness :: "b256 \<Rightarrow> (b256, bytes) fmap \<Rightarrow> 's \<Rightarrow> string + 's"
  post_state :: "'b \<Rightarrow> 'a hashed_post_state"

definition witness_nodes :: "'c evm_lib \<Rightarrow> bytes list \<Rightarrow> (b256, bytes) fmap" where
  "witness_nodes V encoded =
     foldl (\<lambda>state_witness e. fmupd (keccak_bytes V e) e state_witness) fmempty encoded"

definition witness_codes :: "'c evm_lib \<Rightarrow> bytes list \<Rightarrow> (b256, 'c) fmap" where
  "witness_codes V raw =
     foldl (\<lambda>bytecodes b. let bytecode = bytecode_new_raw V b
                           in fmupd (bytecode_hash_slow V bytecode) bytecode bytecodes) fmempty raw"

definition pre_execution ::
  "('s, 't, 'a, 'n, 'c, 'cfg, 'v, 'g, 'x, 'r, 'b) verifier_lib \<Rightarrow> recovered_block \<Rightarrow> sealed_header \<Rightarrow>
     consensus_error option" where
  "pre_execution V block parent =
     (case consensus_header V (clone_sealed_header block) of
        Some e \<Rightarrow> Some e
      | None \<Rightarrow>
          (case consensus_block V (clone_sealed_block block) of
             Some e \<Rightarrow> Some e
           | None \<Rightarrow> consensus_against_parent V (clone_sealed_header block) parent))"

text \<open>The storage tries arrive in some order, see \<open>calculate_state_root\<close>.\<close>

definition check_state_root ::
  "('s, 't, 'a, 'n, 'c, 'cfg, 'v, 'g, 'x, 'r, 'b) verifier_lib \<Rightarrow>
     ((b256 \<times> (string + 't)) list \<Rightarrow> (b256 \<times> (string + 't)) list) \<Rightarrow>
     's \<Rightarrow> 'b \<Rightarrow> recovered_block \<Rightarrow> verifier_error option" where
  "check_state_root V arrival trie output_state block =
     (let hashed_state = post_state V output_state
      in case calculate_state_root (trie_ops V) arrival trie hashed_state of
           Inl e \<Rightarrow> Some (VerifierProvider (TrieWitnessError e))
         | Inr (root, _) \<Rightarrow>
             if root \<noteq> state_root block
             then Some (VerifierConsensus (BodyStateRootDiff root (state_root block)))
             else None)"

definition verify_block ::
  "('s, 't, 'a, 'n, 'c, 'cfg, 'v, 'g, 'x, 'r, 'b) verifier_lib \<Rightarrow>
     ((b256 \<times> (string + 't)) list \<Rightarrow> (b256 \<times> (string + 't)) list) \<Rightarrow>
     execution_state_witness provider \<Rightarrow> recovered_block \<Rightarrow> sealed_header \<Rightarrow>
     execution_state_witness \<Rightarrow> verifier_error option" where
  "verify_block V arrival pr block parent witness =
     (case pre_execution V block parent of
        Some e \<Rightarrow> Some (VerifierConsensus e)
      | None \<Rightarrow>
          (case reveal_witness V (state_root parent)
                  (witness_nodes (evm_ops V) (witness_state witness)) (sparse_trie_new V) of
             Inl e \<Rightarrow> Some (VerifierProvider (TrieWitnessError e))
           | Inr trie \<Rightarrow>
               (let bytecodes = witness_codes (evm_ops V) (witness_bytecodes witness);
                    block_executor = block_executor_new (trie_ops V) (evm_ops V) (parent_of V)
                      (executor_ops V) pr (parent_of V (clone_sealed_header block)) trie bytecodes
                in case execute_block (executor_ops V) block_executor block of
                     Inl e \<Rightarrow> Some (VerifierExecution e)
                   | Inr (output_state, result) \<Rightarrow>
                       (case consensus_post_execution V block result of
                          Some e \<Rightarrow> Some (VerifierConsensus e)
                        | None \<Rightarrow> check_state_root V arrival trie output_state block))))"

section \<open>What a verified block has passed\<close>

text \<open>
  The specification: the block passed every check of the consensus, the witness proves the state of
  the parent, execution on it succeeded, and the block names the resulting state root.
\<close>

definition fully_checked ::
  "('s, 't, 'a, 'n, 'c, 'cfg, 'v, 'g, 'x, 'r, 'b) verifier_lib \<Rightarrow> ('s, 't) trie_abs \<Rightarrow>
     execution_state_witness provider \<Rightarrow> recovered_block \<Rightarrow> sealed_header \<Rightarrow>
     execution_state_witness \<Rightarrow> bool" where
  "fully_checked V A pr block parent w \<longleftrightarrow>
     consensus_header V (clone_sealed_header block) = None \<and>
     consensus_block V (clone_sealed_block block) = None \<and>
     consensus_against_parent V (clone_sealed_header block) parent = None \<and>
     (\<exists>trie st result.
        reveal_witness V (state_root parent) (witness_nodes (evm_ops V) (witness_state w))
          (sparse_trie_new V) = Inr trie \<and>
        execute_block (executor_ops V)
          (block_executor_new (trie_ops V) (evm_ops V) (parent_of V) (executor_ops V) pr
             (parent_of V (clone_sealed_header block)) trie
             (witness_codes (evm_ops V) (witness_bytecodes w))) block = Inr (st, result) \<and>
        consensus_post_execution V block result = None \<and>
        state_root block = state_root_of A (accounts_after (trie_ops V) A trie (post_state V st)))"

text \<open>Documented behaviour: the keys of a hashed post state are those of hash maps.\<close>

definition post_state_laws :: "('b \<Rightarrow> 'a hashed_post_state) \<Rightarrow> bool" where
  "post_state_laws f \<longleftrightarrow> (\<forall>b. distinct (map fst (post_accounts (f b))) \<and>
     distinct (map fst (post_storages (f b))) \<and>
     (\<forall>(a, x) \<in> set (post_storages (f b)). distinct (map fst (slots x))))"

lemma verify_block_checked:
  assumes laws: "storage_trie_laws (trie_ops V) A" "state_trie_laws (trie_ops V) A" "post_state_laws (post_state V)"
    and arr: "\<And>rs. mset (arrival rs) = mset rs"
    and v: "verify_block V arrival pr block parent w = None"
  shows "fully_checked V A pr block parent w"
proof -
  have pre: "pre_execution V block parent = None"
    using v by (auto simp: verify_block_def split: option.splits)
  then obtain trie where trie: "reveal_witness V (state_root parent)
      (witness_nodes (evm_ops V) (witness_state w)) (sparse_trie_new V) = Inr trie"
    using v by (auto simp: verify_block_def split: sum.splits)
  obtain st result where ex: "execute_block (executor_ops V)
      (block_executor_new (trie_ops V) (evm_ops V) (parent_of V) (executor_ops V) pr
         (parent_of V (clone_sealed_header block)) trie
         (witness_codes (evm_ops V) (witness_bytecodes w))) block = Inr (st, result)"
    and post: "consensus_post_execution V block result = None"
    and root: "check_state_root V arrival trie st block = None"
    using v pre trie by (auto simp: verify_block_def Let_def split: sum.splits option.splits)
  obtain trie' where "calculate_state_root (trie_ops V) arrival trie (post_state V st) =
      Inr (state_root block, trie')"
    using root by (auto simp: check_state_root_def split: sum.splits if_splits)
  from calculate_state_root_correct [OF laws(1,2) _ _ _ arr this]
  have "state_root block = state_root_of A (accounts_after (trie_ops V) A trie (post_state V st))"
    using laws(3) unfolding post_state_laws_def by blast
  then show ?thesis
    unfolding fully_checked_def using pre trie ex post
    by (auto simp: pre_execution_def split: option.splits)
qed

section \<open>The contract of a block verifier\<close>

text \<open>
  The tree and its verifier share the chain state through clones of the provider.
\<close>

definition tree_with ::
  "('p, 'x, 'e, 'a, 'i, 'f, 'l) tree_lib \<Rightarrow> chain_spec \<Rightarrow>
     ('p provider \<Rightarrow> recovered_block \<Rightarrow> sealed_header \<Rightarrow> 'p \<Rightarrow> verifier_error option) \<Rightarrow>
     ('p, 'x, 'e, 'a, 'i, 'f, 'l) tree_lib" where
  "tree_with L spec verifier =
     L\<lparr>verify := (\<lambda>cs. verifier \<lparr>chain_spec_of = spec, chain_state_of = cs\<rparr>)\<rparr>"

text \<open>
  The trait \<open>BlockVerifier\<close>: a verifier that is lawful accepts a block only on top of the parent it
  names, one number below.
\<close>

locale block_verifier =
  fixes lawful :: "'v \<Rightarrow> bool"
    and verify_with :: "'v \<Rightarrow> 'p provider \<Rightarrow> recovered_block \<Rightarrow> sealed_header \<Rightarrow> 'p \<Rightarrow> verifier_error option"
  assumes verify_number: "lawful V \<Longrightarrow> verify_with V pr b p w = None \<Longrightarrow>
      unat (number b) = Suc (unat (number p))"
    and verify_parent: "lawful V \<Longrightarrow> verify_with V pr b p w = None \<Longrightarrow> hash p = parent_hash b"
begin

lemma numbers_checked_with:
  "lawful V \<Longrightarrow> (\<And>b. b \<in> U \<Longrightarrow> nm (hash b) = Suc (unat (number b))) \<Longrightarrow>
     numbers_checked (tree_with L spec (verify_with V)) nm U"
  by (auto simp: numbers_checked_def tree_with_def verify_number)

end

text \<open>
  Documented behaviour of the check against the parent: the number is the parent's plus one and the
  parent hash is the hash of the parent.
\<close>

definition consensus_laws :: "('s, 't, 'a, 'n, 'c, 'cfg, 'v, 'g, 'x, 'r, 'b) verifier_lib \<Rightarrow> bool" where
  "consensus_laws V \<longleftrightarrow> (\<forall>h p. consensus_against_parent V h p = None \<longrightarrow>
     unat (number h) = Suc (unat (number p)) \<and> parent_hash h = hash p)"

lemma verify_block_against_parent:
  "verify_block V arrival pr b p w = None \<Longrightarrow>
     consensus_against_parent V (clone_sealed_header b) p = None"
  by (auto simp: verify_block_def pre_execution_def split: option.splits)

interpretation witness_verifier: block_verifier consensus_laws "\<lambda>V. verify_block V arrival" for arrival
  by unfold_locales
     (metis clone_sealed_header_sel(1,2) consensus_laws_def verify_block_against_parent)+

end
