(* ===== verification/Downloader.thy ===== *)
theory Downloader
  imports Fetch_Futures "HOL-Library.Multiset" "HOL-Library.Monad_Syntax"
begin

text \<open>
  The downloader of the engine, \<open>crates/engine/src/download/mod.rs\<close>: the requests in flight, their
  deduplication, and the poll that advances every one of them and queues the outcomes.
\<close>

section \<open>State\<close>

text \<open>The time a download took is left out; the gauges are kept.\<close>

datatype 'p download_data =
    FullBlockData sealed_block
  | ProofData b256 'p
  | FinalizedBlockData sealed_block "sealed_header list"

datatype request_metric_ty = FullBlockTy | ProofTy | FinalizedTy

record engine_downloader_metrics =
  metric_total :: "request_metric_ty \<Rightarrow> nat"
  metric_inflight :: "request_metric_ty \<Rightarrow> nat"

definition inc_total ::
  "request_metric_ty \<Rightarrow> engine_downloader_metrics \<Rightarrow> engine_downloader_metrics" where
  "inc_total ty ms = ms\<lparr>metric_total := (metric_total ms)(ty := metric_total ms ty + 1)\<rparr>"

definition set_inflight ::
  "request_metric_ty \<Rightarrow> nat \<Rightarrow> engine_downloader_metrics \<Rightarrow> engine_downloader_metrics" where
  "set_inflight ty n ms = ms\<lparr>metric_inflight := (metric_inflight ms)(ty := n)\<rparr>"

record 'p downloader =
  retry_delay :: nat
  inflight_full_block_requests :: "full_block_future list"
  inflight_proof_requests :: "proof_future list"
  inflight_finalized_block_requests :: "with_ancestors_future list"
  outcomes :: "'p download_data list"
  metrics :: engine_downloader_metrics

definition downloader_new :: "'p downloader" where
  "downloader_new = \<lparr>retry_delay = 50, inflight_full_block_requests = [],
     inflight_proof_requests = [], inflight_finalized_block_requests = [], outcomes = [],
     metrics = \<lparr>metric_total = (\<lambda>_. 0), metric_inflight = (\<lambda>_. 0)\<rparr>\<rparr>"

section \<open>Requests\<close>

definition download_full_block :: "b256 \<Rightarrow> 'p downloader \<Rightarrow> 'p downloader" where
  "download_full_block h d =
     (if \<exists>req \<in> set (inflight_full_block_requests d). fb_block_hash req = h then d
      else
        (let fut = full_block_new (retry_delay d) h;
             d = d\<lparr>inflight_full_block_requests := inflight_full_block_requests d @ [fut]\<rparr>;
             d = d\<lparr>metrics := inc_total FullBlockTy (metrics d)\<rparr>
         in d\<lparr>metrics := set_inflight FullBlockTy (length (inflight_proof_requests d)) (metrics d)\<rparr>))"

definition download_proof :: "b256 \<Rightarrow> 'p downloader \<Rightarrow> 'p downloader" where
  "download_proof h d =
     (if \<exists>req \<in> set (inflight_proof_requests d). pf_block_hash req = h then d
      else
        (let fut = proof_future_new (retry_delay d) h;
             d = d\<lparr>inflight_proof_requests := inflight_proof_requests d @ [fut]\<rparr>;
             d = d\<lparr>metrics := inc_total ProofTy (metrics d)\<rparr>
         in d\<lparr>metrics := set_inflight ProofTy (length (inflight_proof_requests d)) (metrics d)\<rparr>))"

definition download_finalized_with_ancestors :: "b256 \<Rightarrow> 'p downloader \<Rightarrow> 'p downloader" where
  "download_finalized_with_ancestors h d =
     (if \<exists>req \<in> set (inflight_finalized_block_requests d). wa_block_hash req = h then d
      else
        (let fut = with_ancestors_new (retry_delay d) h 256;
             d = d\<lparr>inflight_finalized_block_requests :=
                     inflight_finalized_block_requests d @ [fut]\<rparr>;
             d = d\<lparr>metrics := inc_total FinalizedTy (metrics d)\<rparr>
         in d\<lparr>metrics := set_inflight FinalizedTy
                (length (inflight_finalized_block_requests d)) (metrics d)\<rparr>))"

section \<open>Polling\<close>

text \<open>\<open>Vec::swap_remove\<close>: the last element takes the place of the one removed.\<close>

definition swap_remove :: "nat \<Rightarrow> 'a list \<Rightarrow> ('a \<times> 'a list) option" where
  "swap_remove idx v =
     (if idx < length v
      then Some (v ! idx, if Suc idx = length v then butlast v else (butlast v)[idx := last v])
      else None)"

text \<open>
  The loop \<open>for idx in (0..len).rev()\<close>: the request at the index is taken out and polled; a pending
  one is pushed back. The finished requests are collected with their results. \<open>None\<close> is a panic.
\<close>

fun advance ::
  "('f \<Rightarrow> 'r poll \<times> 'f) \<Rightarrow> nat \<Rightarrow> 'f list \<Rightarrow> ('f \<times> 'r) list \<Rightarrow> ('f list \<times> ('f \<times> 'r) list) option" where
  "advance poll_request 0 v ready = Some (v, ready)"
| "advance poll_request (Suc idx) v ready = do {
     (request, v) \<leftarrow> swap_remove idx v;
     (case poll_request request of
        (Ready r, request) \<Rightarrow> advance poll_request idx v (ready @ [(request, r)])
      | (Pending, request) \<Rightarrow> advance poll_request idx (v @ [request]) ready
      | (Panicked, request) \<Rightarrow> None)
   }"

text \<open>
  What the network answers to the requests of each kind at one poll, by the hash they are for.
\<close>

record poll_answers =
  full_answers :: "b256 \<Rightarrow> network_polls"
  proof_answers :: "b256 \<Rightarrow> network_polls"
  finalized_answers :: "b256 \<Rightarrow> network_polls"

definition no_answers :: poll_answers where
  "no_answers = \<lparr>full_answers = (\<lambda>_. no_polls), proof_answers = (\<lambda>_. no_polls),
     finalized_answers = (\<lambda>_. no_polls)\<rparr>"

definition drop_env :: "'r poll \<times> 'f \<times> 'env \<Rightarrow> 'r poll \<times> 'f" where
  "drop_env x = (fst x, fst (snd x))"

definition advance_finalized ::
  "('p, 'z) fetch_lib_scheme \<Rightarrow> poll_answers \<Rightarrow> 'p downloader \<Rightarrow> 'p downloader option" where
  "advance_finalized L a d = do {
     (v, ready) \<leftarrow> advance
       (\<lambda>f. drop_env (poll_with_ancestors L f (finalized_answers a (wa_block_hash f))))
       (length (inflight_finalized_block_requests d)) (inflight_finalized_block_requests d) [];
     let d = d\<lparr>inflight_finalized_block_requests := v,
               outcomes := outcomes d @
                 map (\<lambda>(request, block, ancestors). FinalizedBlockData block ancestors) ready\<rparr>;
     Some (d\<lparr>metrics := set_inflight FinalizedTy
               (length (inflight_finalized_block_requests d)) (metrics d)\<rparr>)
   }"

definition advance_full_blocks ::
  "('p, 'z) fetch_lib_scheme \<Rightarrow> poll_answers \<Rightarrow> 'p downloader \<Rightarrow> 'p downloader option" where
  "advance_full_blocks L a d = do {
     (v, ready) \<leftarrow> advance
       (\<lambda>f. drop_env (poll_full_block_env L f (full_answers a (fb_block_hash f))))
       (length (inflight_full_block_requests d)) (inflight_full_block_requests d) [];
     let d = d\<lparr>inflight_full_block_requests := v,
               outcomes := outcomes d @ map (\<lambda>(request, block). FullBlockData block) ready\<rparr>;
     Some (d\<lparr>metrics := set_inflight FullBlockTy
               (length (inflight_full_block_requests d)) (metrics d)\<rparr>)
   }"

definition advance_proofs ::
  "('p, 'z) fetch_lib_scheme \<Rightarrow> poll_answers \<Rightarrow> 'p downloader \<Rightarrow> 'p downloader option" where
  "advance_proofs L a d = do {
     (v, ready) \<leftarrow> advance
       (\<lambda>f. drop_env (poll_proof_env L f (proof_answers a (pf_block_hash f))))
       (length (inflight_proof_requests d)) (inflight_proof_requests d) [];
     let d = d\<lparr>inflight_proof_requests := v,
               outcomes := outcomes d @
                 map (\<lambda>(request, prf). ProofData (pf_block_hash request) prf) ready\<rparr>;
     Some (d\<lparr>metrics := set_inflight ProofTy (length (inflight_proof_requests d)) (metrics d)\<rparr>)
   }"

definition pop_outcome :: "'p downloader \<Rightarrow> 'p download_data poll \<times> 'p downloader" where
  "pop_outcome d =
     (case outcomes d of
        [] \<Rightarrow> (Pending, d)
      | outcome # rest \<Rightarrow> (Ready outcome, d\<lparr>outcomes := rest\<rparr>))"

definition poll_downloader ::
  "('p, 'z) fetch_lib_scheme \<Rightarrow> poll_answers \<Rightarrow> 'p downloader \<Rightarrow>
     ('p download_data poll \<times> 'p downloader) option" where
  "poll_downloader L a d =
     (case pop_outcome d of
        (Ready outcome, d) \<Rightarrow> Some (Ready outcome, d)
      | (_, d) \<Rightarrow> do {
          d \<leftarrow> advance_finalized L a d;
          d \<leftarrow> advance_full_blocks L a d;
          d \<leftarrow> advance_proofs L a d;
          Some (pop_outcome d)
        })"

section \<open>Advancing every request once\<close>

lemma swap_remove_append:
  "swap_remove (length xs) (xs @ x # ys) =
     Some (x, xs @ (if ys = [] then [] else last ys # butlast ys))"
  by (cases ys rule: rev_cases) (auto simp: swap_remove_def butlast_append list_update_append)

text \<open>
  The reference: every request is polled once, last first; the pending ones remain and the ready
  ones are collected.
\<close>

definition pending_of :: "('f \<Rightarrow> 'r poll \<times> 'f) \<Rightarrow> 'f list \<Rightarrow> 'f list" where
  "pending_of poll_request v = map (snd \<circ> poll_request) (filter (\<lambda>f. fst (poll_request f) = Pending) v)"

definition ready_of :: "('f \<Rightarrow> 'r poll \<times> 'f) \<Rightarrow> 'f list \<Rightarrow> ('f \<times> 'r) list" where
  "ready_of poll_request v = List.map_filter
     (\<lambda>f. case poll_request f of (Ready r, f') \<Rightarrow> Some (f', r) | _ \<Rightarrow> None) v"

lemma advance_partition_aux:
  assumes "\<And>f. f \<in> set v \<Longrightarrow> fst (poll_request f) \<noteq> Panicked"
  shows "\<exists>rest'. advance poll_request (length v) (v @ rest) ready =
      Some (rest', ready @ ready_of poll_request (rev v)) \<and>
    mset rest' = mset rest + mset (pending_of poll_request v)"
  using assms
proof (induction v arbitrary: rest ready rule: rev_induct)
  case Nil
  then show ?case by (simp add: ready_of_def pending_of_def map_filter_simps)
next
  case (snoc f v)
  let ?rest = "if rest = [] then [] else last rest # butlast rest"
  have m: "mset ?rest = mset rest" by (cases rest rule: rev_cases) auto
  obtain p f' where p: "poll_request f = (p, f')" by (cases "poll_request f")
  show ?case
  proof (cases p)
    case Pending
    obtain rest' where r: "advance poll_request (length v) (v @ ?rest @ [f']) ready =
        Some (rest', ready @ ready_of poll_request (rev v))"
      "mset rest' = mset (?rest @ [f']) + mset (pending_of poll_request v)"
      using snoc.IH [of "?rest @ [f']" ready] snoc.prems by auto
    then show ?thesis
      using p Pending m
      by (auto simp: swap_remove_append ready_of_def pending_of_def map_filter_simps)
  next
    case (Ready r)
    then show ?thesis
      using snoc.IH [of ?rest "ready @ [(f', r)]"] snoc.prems p m
      by (auto simp: swap_remove_append ready_of_def pending_of_def map_filter_simps)
  next
    case Panicked
    then show ?thesis using snoc.prems [of f] p by simp
  qed
qed

lemma advance_partition:
  assumes "\<And>f. f \<in> set v \<Longrightarrow> fst (poll_request f) \<noteq> Panicked"
  shows "\<exists>v'. advance poll_request (length v) v [] = Some (v', ready_of poll_request (rev v)) \<and>
    mset v' = mset (pending_of poll_request v)"
  using advance_partition_aux [OF assms, of v "\<lambda>f. f" "[]" "[]"] by auto


lemma rev_map_filter_mset: "mset (List.map_filter g (rev v)) = mset (List.map_filter g v)"
  by (induction v) (auto simp: List.map_filter_def)

context fetch_future
begin

lemma advance_good:
  fixes env :: "'f \<Rightarrow> 'env"
  assumes ok: "\<And>f. f \<in> set v \<Longrightarrow> invar f"
  defines "q \<equiv> \<lambda>f. drop_env (poll_fut f (env f))"
  shows "\<exists>v' ready. advance q (length v) v [] = Some (v', ready) \<and> ready = ready_of q (rev v) \<and>
    (\<forall>f \<in> set v'. invar f) \<and> (\<forall>x \<in> set ready. good (target (fst x)) (snd x)) \<and>
    mset (map target v) = mset (map target v') + mset (map (target \<circ> fst) ready)"
proof -
  have q: "q f = (fst (poll_fut f (env f)), fst (snd (poll_fut f (env f))))" for f
    by (simp add: q_def drop_env_def)
  have no_panic: "fst (q f) \<noteq> Panicked" if "f \<in> set v" for f
    using poll_no_panic [OF ok [OF that]] by (simp add: q)
  have keep: "target (snd (q f)) = target f" if "f \<in> set v" for f
    using poll_target [OF ok [OF that], of "env f"] by (cases "poll_fut f (env f)") (simp add: q)
  have rdy: "good (target f) r" if "f \<in> set v" "fst (q f) = Ready r" for f r
    using poll_ready [OF ok [OF that(1)], of "env f"] that(2) by (cases "poll_fut f (env f)") (simp add: q)
  have pend: "invar (snd (q f))" if "f \<in> set v" "fst (q f) = Pending" for f
    using poll_pending [OF ok [OF that(1)], of "env f"] that(2) by (cases "poll_fut f (env f)") (simp add: q)
  obtain v' where v': "advance q (length v) v [] = Some (v', ready_of q (rev v))"
    "mset v' = mset (pending_of q v)"
    using advance_partition [of v q] no_panic by blast
  have set_v': "set v' = set (pending_of q v)" using v'(2) by (metis set_mset_mset)
  have "\<forall>f \<in> set v'. invar f" using pend by (auto simp: set_v' pending_of_def)
  moreover have "\<forall>x \<in> set (ready_of q (rev v)). good (target (fst x)) (snd x)"
  proof
    fix x assume "x \<in> set (ready_of q (rev v))"
    then obtain f where "f \<in> set v" "q f = (Ready (snd x), fst x)"
      by (auto simp: ready_of_def List.map_filter_def split: prod.splits poll.splits)
    then show "good (target (fst x)) (snd x)" using keep rdy by (metis fst_conv snd_conv)
  qed
  moreover have "mset (map target w) =
      mset (map target (pending_of q w)) + mset (map (target \<circ> fst) (ready_of q w))"
    if "set w \<subseteq> set v" for w
    using that
  proof (induction w)
    case Nil
    then show ?case by (simp add: pending_of_def ready_of_def map_filter_simps)
  next
    case (Cons f w)
    obtain p f' where p: "q f = (p, f')" by (cases "q f")
    then show ?case
      using Cons keep [of f] no_panic [of f]
      by (cases p) (auto simp: pending_of_def ready_of_def map_filter_simps)
  qed
  then have "mset (map target v) =
      mset (map target (pending_of q v)) + mset (map (target \<circ> fst) (ready_of q v))" by blast
  then have "mset (map target v) = mset (map target v') + mset (map (target \<circ> fst) (ready_of q (rev v)))"
    using v'(2) by (simp add: ready_of_def rev_map_filter_mset mset_map)
  ultimately show ?thesis using v'(1) by blast
qed

end


section \<open>The invariant of the downloader\<close>

definition good_data :: "('p, 'z) fetch_lib_scheme \<Rightarrow> 'p download_data \<Rightarrow> bool" where
  "good_data L x = (case x of
     FullBlockData b \<Rightarrow> good_block L (hash b) b
   | ProofData h p \<Rightarrow> good_proof L p
   | FinalizedBlockData b hs \<Rightarrow> good_with_ancestors L 256 (hash b) (b, hs))"

definition downloader_ok :: "('p, 'z) fetch_lib_scheme \<Rightarrow> 'p downloader \<Rightarrow> bool" where
  "downloader_ok L d \<longleftrightarrow>
     (\<forall>f \<in> set (inflight_full_block_requests d). full_block_idle L f) \<and>
     (\<forall>f \<in> set (inflight_finalized_block_requests d). with_ancestors_ok L 256 f) \<and>
     distinct (map fb_block_hash (inflight_full_block_requests d)) \<and>
     distinct (map pf_block_hash (inflight_proof_requests d)) \<and>
     distinct (map wa_block_hash (inflight_finalized_block_requests d)) \<and>
     (\<forall>x \<in> set (outcomes d). good_data L x)"

text \<open>What is asked for: the downloads in flight, and those whose outcome waits.\<close>

type_synonym download = "request_metric_ty \<times> b256"

definition download_of :: "'p download_data \<Rightarrow> download" where
  "download_of x = (case x of
     FullBlockData b \<Rightarrow> (FullBlockTy, hash b)
   | ProofData h p \<Rightarrow> (ProofTy, h)
   | FinalizedBlockData b hs \<Rightarrow> (FinalizedTy, hash b))"

definition inflight :: "'p downloader \<Rightarrow> download multiset" where
  "inflight d =
     mset (map (Pair FullBlockTy \<circ> fb_block_hash) (inflight_full_block_requests d)) +
     mset (map (Pair ProofTy \<circ> pf_block_hash) (inflight_proof_requests d)) +
     mset (map (Pair FinalizedTy \<circ> wa_block_hash) (inflight_finalized_block_requests d))"

definition downloads :: "'p downloader \<Rightarrow> download multiset" where
  "downloads d = inflight d + mset (map download_of (outcomes d))"

lemma downloader_new_ok: "downloader_ok L downloader_new" "downloads downloader_new = {#}"
  by (simp_all add: downloader_new_def downloader_ok_def downloads_def inflight_def)

lemma pf_block_hash_new: "pf_block_hash (proof_future_new d h) = h"
  by (simp add: proof_future_new_def)

lemma download_ok:
  assumes "downloader_ok L d"
  shows "downloader_ok L (download_full_block h d)" and "downloader_ok L (download_proof h d)"
    and "downloader_ok L (download_finalized_with_ancestors h d)"
  using assms
  by (auto simp: downloader_ok_def download_full_block_def download_proof_def
      download_finalized_with_ancestors_def Let_def full_block_new_ok full_block_new_idle pf_block_hash_new
      with_ancestors_new_ok)

text \<open>A download is added unless one of its kind for the same hash is in flight.\<close>

lemma download_adds:
  "inflight (download_full_block h d) =
     (if (FullBlockTy, h) \<in># inflight d then inflight d else add_mset (FullBlockTy, h) (inflight d))"
  "inflight (download_proof h d) =
     (if (ProofTy, h) \<in># inflight d then inflight d else add_mset (ProofTy, h) (inflight d))"
  "inflight (download_finalized_with_ancestors h d) =
     (if (FinalizedTy, h) \<in># inflight d then inflight d else add_mset (FinalizedTy, h) (inflight d))"
  "outcomes (download_full_block h d) = outcomes d" "outcomes (download_proof h d) = outcomes d"
  "outcomes (download_finalized_with_ancestors h d) = outcomes d"
  by (auto simp: inflight_def download_full_block_def download_proof_def
      download_finalized_with_ancestors_def Let_def full_block_new_ok pf_block_hash_new
      with_ancestors_new_ok)

lemma distinct_mset_le: "mset xs = mset ys + M \<Longrightarrow> distinct xs \<Longrightarrow> distinct ys"
  using ex_mset [of M] by (metis distinct_append mset_append mset_eq_imp_distinct_iff)

context fetch_future
begin

lemma advance_downloads:
  fixes env :: "'f \<Rightarrow> 'env"
  assumes ok: "\<forall>f \<in> set v. invar f" and dist: "distinct (map target v)"
    and data: "\<And>f r. good (target f) r \<Longrightarrow> download_of (data f r) = (ty, target f)"
  defines "q \<equiv> \<lambda>f. drop_env (poll_fut f (env f))"
  shows "\<exists>v' ready. advance q (length v) v [] = Some (v', ready) \<and>
    (\<forall>f \<in> set v'. invar f) \<and> distinct (map target v') \<and>
    (\<forall>x \<in> set ready. good (target (fst x)) (snd x)) \<and>
    mset (map (Pair ty \<circ> target) v) = mset (map (Pair ty \<circ> target) v') +
      mset (map (\<lambda>x. download_of (data (fst x) (snd x))) ready)"
proof -
  obtain v' ready where v: "advance q (length v) v [] = Some (v', ready)" "\<forall>f \<in> set v'. invar f"
    "\<forall>x \<in> set ready. good (target (fst x)) (snd x)"
    and m: "mset (map target v) = mset (map target v') + mset (map (target \<circ> fst) ready)"
    using advance_good [of v env] ok unfolding q_def by blast
  have outs: "map (\<lambda>x. download_of (data (fst x) (snd x))) ready = map (Pair ty \<circ> (target \<circ> fst)) ready"
    using v(3) data by simp
  have "image_mset (Pair ty) (mset (map target v)) =
      image_mset (Pair ty) (mset (map target v') + mset (map (target \<circ> fst) ready))"
    by (simp only: m)
  then have "mset (map (Pair ty \<circ> target) v) = mset (map (Pair ty \<circ> target) v') +
      mset (map (\<lambda>x. download_of (data (fst x) (snd x))) ready)"
    unfolding outs by (simp add: multiset.map_comp comp_assoc)
  then show ?thesis using v distinct_mset_le [OF m dist] by blast
qed

end

lemma advance_finalized_ok:
  assumes ok: "downloader_ok L d"
  shows "\<exists>d'. advance_finalized L a d = Some d' \<and> downloader_ok L d' \<and> downloads d' = downloads d"
proof -
  obtain v ready where "advance (\<lambda>f. drop_env (poll_with_ancestors L f (finalized_answers a (wa_block_hash f))))
      (length (inflight_finalized_block_requests d)) (inflight_finalized_block_requests d) [] = Some (v, ready)"
    "\<forall>f \<in> set v. with_ancestors_ok L 256 f" "distinct (map wa_block_hash v)"
    "\<forall>x \<in> set ready. good_with_ancestors L 256 (wa_block_hash (fst x)) (snd x)"
    "mset (map (Pair FinalizedTy \<circ> wa_block_hash) (inflight_finalized_block_requests d)) =
       mset (map (Pair FinalizedTy \<circ> wa_block_hash) v) +
       mset (map (\<lambda>x. download_of (FinalizedBlockData (fst (snd x)) (snd (snd x)) :: 'a download_data)) ready)"
    using with_ancestors.advance_downloads [where L = L and n = 256 and
        v = "inflight_finalized_block_requests d" and ty = FinalizedTy and
        data = "\<lambda>f r. FinalizedBlockData (fst r) (snd r) :: 'a download_data" and
        env = "\<lambda>f. finalized_answers a (wa_block_hash f)"] ok
    unfolding downloader_ok_def by (fastforce simp: download_of_def good_with_ancestors_def good_block_def)
  then show ?thesis
    using ok
    by (auto simp: advance_finalized_def downloader_ok_def downloads_def inflight_def good_data_def
        good_with_ancestors_def good_block_def case_prod_beta' multiset.map_comp comp_def)
qed

lemma advance_full_blocks_ok:
  assumes ok: "downloader_ok L d"
  shows "\<exists>d'. advance_full_blocks L a d = Some d' \<and> downloader_ok L d' \<and> downloads d' = downloads d"
proof -
  obtain v ready where "advance (\<lambda>f. drop_env (poll_full_block_env L f (full_answers a (fb_block_hash f))))
      (length (inflight_full_block_requests d)) (inflight_full_block_requests d) [] = Some (v, ready)"
    "\<forall>f \<in> set v. full_block_idle L f" "distinct (map fb_block_hash v)"
    "\<forall>x \<in> set ready. good_block L (fb_block_hash (fst x)) (snd x)"
    "mset (map (Pair FullBlockTy \<circ> fb_block_hash) (inflight_full_block_requests d)) =
       mset (map (Pair FullBlockTy \<circ> fb_block_hash) v) +
       mset (map (\<lambda>x. download_of (FullBlockData (snd x) :: 'a download_data)) ready)"
    using full_block.advance_downloads [where L = L and
        v = "inflight_full_block_requests d" and ty = FullBlockTy and
        data = "\<lambda>f r. FullBlockData r :: 'a download_data" and
        env = "\<lambda>f. full_answers a (fb_block_hash f)"] ok
    unfolding downloader_ok_def by (fastforce simp: download_of_def good_block_def)
  then show ?thesis
    using ok
    by (auto simp: advance_full_blocks_def downloader_ok_def downloads_def inflight_def good_data_def
        good_block_def case_prod_beta' multiset.map_comp comp_def)
qed

lemma advance_proofs_ok:
  assumes ok: "downloader_ok L d"
  shows "\<exists>d'. advance_proofs L a d = Some d' \<and> downloader_ok L d' \<and> downloads d' = downloads d"
proof -
  obtain v ready where "advance (\<lambda>f. drop_env (poll_proof_env L f (proof_answers a (pf_block_hash f))))
      (length (inflight_proof_requests d)) (inflight_proof_requests d) [] = Some (v, ready)"
    "distinct (map pf_block_hash v)" "\<forall>x \<in> set ready. good_proof L (snd x)"
    "mset (map (Pair ProofTy \<circ> pf_block_hash) (inflight_proof_requests d)) =
       mset (map (Pair ProofTy \<circ> pf_block_hash) v) +
       mset (map (\<lambda>x. download_of (ProofData (pf_block_hash (fst x)) (snd x))) ready)"
    using execution_proof.advance_downloads [where L = L and
        v = "inflight_proof_requests d" and ty = ProofTy and
        data = "\<lambda>f r. ProofData (pf_block_hash f) r" and
        env = "\<lambda>f. proof_answers a (pf_block_hash f)"] ok
    unfolding downloader_ok_def by (fastforce simp: download_of_def)
  then show ?thesis
    using ok
    by (auto simp: advance_proofs_def downloader_ok_def downloads_def inflight_def good_data_def
        case_prod_beta' multiset.map_comp comp_def)
qed

text \<open>Polling returns, keeps the invariant, and turns each download it finishes into its outcome.\<close>

lemma pop_outcome_ok:
  "downloader_ok L d \<Longrightarrow> case pop_outcome d of
     (Ready x, d') \<Rightarrow> downloader_ok L d' \<and> good_data L x \<and>
       downloads d = add_mset (download_of x) (downloads d')
   | (Pending, d') \<Rightarrow> d' = d \<and> outcomes d = []
   | (Panicked, d') \<Rightarrow> False"
  by (auto simp: pop_outcome_def downloader_ok_def downloads_def inflight_def split: list.splits)

lemma poll_downloader_ok:
  assumes "downloader_ok L d"
  shows "\<exists>p d'. poll_downloader L a d = Some (p, d') \<and> downloader_ok L d' \<and>
    (case p of
       Ready x \<Rightarrow> good_data L x \<and> downloads d = add_mset (download_of x) (downloads d')
     | Pending \<Rightarrow> outcomes d' = [] \<and> downloads d = downloads d'
     | Panicked \<Rightarrow> False)"
proof (cases "outcomes d")
  case (Cons x rest)
  then show ?thesis
    using pop_outcome_ok [OF assms] by (simp add: poll_downloader_def pop_outcome_def)
next
  case Nil
  obtain d1 where d1: "advance_finalized L a d = Some d1" "downloader_ok L d1" "downloads d1 = downloads d"
    using advance_finalized_ok [OF assms] by blast
  obtain d2 where d2: "advance_full_blocks L a d1 = Some d2" "downloader_ok L d2" "downloads d2 = downloads d1"
    using advance_full_blocks_ok [OF d1(2)] by blast
  obtain d3 where d3: "advance_proofs L a d2 = Some d3" "downloader_ok L d3" "downloads d3 = downloads d2"
    using advance_proofs_ok [OF d2(2)] by blast
  have "poll_downloader L a d = Some (pop_outcome d3)"
    using Nil d1(1) d2(1) d3(1) by (simp add: poll_downloader_def pop_outcome_def)
  then show ?thesis
    using pop_outcome_ok [OF d3(2)] d1(3) d2(3) d3(2,3) by (auto split: prod.splits poll.splits)
qed

text \<open>Without answers and waiting outcomes the downloader is pending.\<close>

context quiet_fetch_future
begin

lemma advance_quiet:
  assumes "\<forall>f \<in> set v. invar f"
  shows "\<exists>v'. advance (\<lambda>f. drop_env (poll_fut f quiet)) (length v) v [] = Some (v', [])"
proof -
  let ?q = "\<lambda>f. drop_env (poll_fut f quiet)"
  have p: "fst (?q f) = Pending" if "f \<in> set v" for f
    using poll_quiet assms that by (simp add: drop_env_def)
  then have "ready_of ?q (rev v) = []"
    by (auto simp: ready_of_def List.map_filter_def filter_empty_conv split: prod.splits poll.splits)
       (metis fst_conv poll.distinct(1))
  then show ?thesis using advance_partition [of v ?q] p by fastforce
qed

end

lemma poll_downloader_quiet:
  assumes "downloader_ok L d" "outcomes d = []"
  shows "\<exists>d'. poll_downloader L no_answers d = Some (Pending, d') \<and> outcomes d' = []"
proof -
  obtain v1 where v1: "advance (\<lambda>f. drop_env (poll_with_ancestors L f no_polls))
      (length (inflight_finalized_block_requests d)) (inflight_finalized_block_requests d) [] = Some (v1, [])"
    using with_ancestors.advance_quiet [of "inflight_finalized_block_requests d" L 256] assms(1)
    by (auto simp: downloader_ok_def)
  obtain v2 where v2: "advance (\<lambda>f. drop_env (poll_full_block_env L f no_polls))
      (length (inflight_full_block_requests d)) (inflight_full_block_requests d) [] = Some (v2, [])"
    using full_block.advance_quiet [of "inflight_full_block_requests d" L] assms(1)
    by (auto simp: downloader_ok_def)
  obtain v3 where v3: "advance (\<lambda>f. drop_env (poll_proof_env L f no_polls))
      (length (inflight_proof_requests d)) (inflight_proof_requests d) [] = Some (v3, [])"
    using execution_proof.advance_quiet [of "inflight_proof_requests d" L] by auto
  show ?thesis
    using assms(2) v1 v2 v3
    by (simp add: poll_downloader_def pop_outcome_def advance_finalized_def advance_full_blocks_def
        advance_proofs_def no_answers_def)
qed

text \<open>The states the operations of the downloader lead to.\<close>

inductive downloader_reachable :: "('p, 'z) fetch_lib_scheme \<Rightarrow> 'p downloader \<Rightarrow> bool"
  for L :: "('p, 'z) fetch_lib_scheme" where
  downloader_start: "downloader_reachable L downloader_new"
| downloader_full: "downloader_reachable L d \<Longrightarrow> downloader_reachable L (download_full_block h d)"
| downloader_proof: "downloader_reachable L d \<Longrightarrow> downloader_reachable L (download_proof h d)"
| downloader_finalized: "downloader_reachable L d \<Longrightarrow>
    downloader_reachable L (download_finalized_with_ancestors h d)"
| downloader_poll: "downloader_reachable L d \<Longrightarrow> poll_downloader L a d = Some (p, d') \<Longrightarrow>
    downloader_reachable L d'"

lemma downloader_reachable_ok: "downloader_reachable L d \<Longrightarrow> downloader_ok L d"
proof (induction rule: downloader_reachable.induct)
  case (downloader_poll d a p d')
  then show ?case using poll_downloader_ok [OF downloader_poll.IH, of a] by auto
qed (auto intro: downloader_new_ok download_ok)

lemma inflight_distinct: "downloader_ok L d \<Longrightarrow> count (inflight d) x \<le> 1"
proof -
  assume ok: "downloader_ok L d"
  have count: "count (mset (map (Pair ty \<circ> g) v)) x \<le> (if fst x = ty then 1 else 0)"
    if "distinct (map g v)" for ty and g :: "'f \<Rightarrow> b256" and v
    using that
  proof (induction v)
    case (Cons f v)
    then have "count (mset (map (Pair ty \<circ> g) v)) (ty, g f) = 0"
      by (auto simp: count_eq_zero_iff)
    then show ?case using Cons by (cases x) (auto simp: comp_def)
  qed simp
  show ?thesis
    using count [of fb_block_hash "inflight_full_block_requests d" FullBlockTy]
      count [of pf_block_hash "inflight_proof_requests d" ProofTy]
      count [of wa_block_hash "inflight_finalized_block_requests d" FinalizedTy] ok
    by (auto simp: inflight_def downloader_ok_def split: if_splits)
qed

section \<open>Properties\<close>

text \<open>
  C35: the loop that advances the requests, with its swaps, polls each exactly once, last first: the
  ready results are those of the reference in its order, and what stays in flight is a permutation
  of the reference's pending requests.
\<close>

theorem advance_equals_partition:
  assumes "\<forall>f \<in> set v. fst (poll_request f) \<noteq> Panicked"
  shows "\<exists>v'. advance poll_request (length v) v [] = Some (v', ready_of poll_request (rev v)) \<and>
    mset v' = mset (pending_of poll_request v)"
  using advance_partition [of v poll_request] assms by blast

text \<open>
  C14: polling the downloader never panics and loses no download: every download in flight or
  waiting is still so afterwards, but for the one whose outcome is returned; that outcome is what
  was asked for. It is pending only when no outcome waits.
\<close>

theorem poll_downloader_conserves:
  assumes "downloader_reachable L d"
  shows "\<exists>p d'. poll_downloader L a d = Some (p, d') \<and>
    (case p of
       Ready x \<Rightarrow> good_data L x \<and> downloads d = add_mset (download_of x) (downloads d')
     | Pending \<Rightarrow> outcomes d' = [] \<and> downloads d = downloads d'
     | Panicked \<Rightarrow> False)"
  using poll_downloader_ok [OF downloader_reachable_ok [OF assms], of a] by blast

text \<open>
  No download is in flight twice, and every waiting outcome is good: a block of the hash asked
  for that fits its header, a proof that decodes, a finalized block with its checked ancestors.
\<close>

theorem downloads_deduplicated:
  assumes "downloader_reachable L d"
  shows "count (inflight d) x \<le> 1 \<and> (\<forall>y \<in> set (outcomes d). good_data L y)"
proof -
  note ok = downloader_reachable_ok [OF assms]
  have "\<forall>y \<in> set (outcomes d). good_data L y" using ok by (simp add: downloader_ok_def)
  then show ?thesis using inflight_distinct [OF ok, of x] by blast
qed

text \<open>
  The gauge of full blocks in flight is set to the number of proofs in flight when a full block is
  requested.
\<close>

lemma full_block_gauge:
  assumes "(FullBlockTy, h) \<notin># inflight d"
  shows "metric_inflight (metrics (download_full_block h d)) FullBlockTy =
      length (inflight_proof_requests d)"
    and "length (inflight_full_block_requests (download_full_block h d)) =
      Suc (length (inflight_full_block_requests d))"
  using assms by (auto simp: inflight_def download_full_block_def set_inflight_def Let_def)

section \<open>Concrete instances\<close>

definition ex_downloads :: "nat downloader" where
  "ex_downloads = download_full_block 4 (download_full_block 3 (download_proof 3
     (download_full_block 2 (download_full_block 3 downloader_new))))"

text \<open>The block 3 arrives; the others are pending.\<close>

definition ex_answers :: poll_answers where
  "ex_answers = no_answers\<lparr>full_answers := (\<lambda>h. if h = 3 then
     \<lparr>header_polls = [Ready (Inr [ex_header 3])], body_polls = [Ready (Inr [[3]])], proof_polls = []\<rparr>
     else no_polls)\<rparr>"

lemma ex_downloads_reachable: "downloader_reachable fits_number ex_downloads"
  unfolding ex_downloads_def by (intro downloader_reachable.intros)

text \<open>A poll that is ready for the request 2 only.\<close>

definition ex_poll :: "nat \<Rightarrow> nat poll \<times> nat" where
  "ex_poll f = (if f = 2 then Ready 20 else Pending, f + 100)"

theorem advance_witness:
  "\<exists>v'. advance ex_poll (length [1, 2, 3, 4 :: nat]) [1, 2, 3, 4] [] = Some (v', [(102, 20)]) \<and>
     mset v' = mset [101, 103, 104]"
proof -
  have "ready_of ex_poll (rev [1, 2, 3, 4]) = [(102, 20)]" "pending_of ex_poll [1, 2, 3, 4] = [101, 103, 104]"
    by (simp_all add: ready_of_def pending_of_def map_filter_simps ex_poll_def)
  moreover have "\<forall>f \<in> set [1, 2, 3, 4]. fst (ex_poll f) \<noteq> Panicked" by (simp add: ex_poll_def)
  ultimately show ?thesis using advance_equals_partition [of "[1, 2, 3, 4]" ex_poll] by metis
qed

theorem poll_downloader_witness:
  "\<exists>b d'. poll_downloader fits_number ex_answers ex_downloads = Some (Ready (FullBlockData b), d') \<and>
     hash b = 3 \<and> body b = [3] \<and>
     downloads ex_downloads = add_mset (FullBlockTy, 3) (downloads d')"
proof -
  have "case poll_downloader fits_number ex_answers ex_downloads of
      Some (Ready (FullBlockData b), d') \<Rightarrow> hash b = 3 \<and> body b = [3] | _ \<Rightarrow> False"
    by code_simp
  then show ?thesis
    using poll_downloader_conserves [OF ex_downloads_reachable, of ex_answers]
    by (auto simp: download_of_def split: option.splits poll.splits download_data.splits)
qed

theorem downloads_deduplicated_witness:
  "count (inflight ex_downloads) (FullBlockTy, 3) \<le> 1 \<and>
   map fb_block_hash (inflight_full_block_requests ex_downloads) = [3, 2, 4]"
proof -
  have "map fb_block_hash (inflight_full_block_requests ex_downloads) = [3, 2, 4]" by code_simp
  then show ?thesis using downloads_deduplicated [OF ex_downloads_reachable] by blast
qed

end
