(* ===== verification/Engine.thy ===== *)
theory Engine
  imports Tree_Handlers Downloader
begin

text \<open>
  The consensus engine, \<open>crates/engine/src/engine.rs\<close>: it owns the tree and the downloader, acts on
  the events of the tree, feeds it what was downloaded, and answers the messages of the beacon
  client; a payload that only lacks its proof is parked until the proof arrives or a timer runs out.
\<close>

section \<open>State\<close>

text \<open>
  A message carries the channel its response goes to, a number here. The responses are recorded in
  the order they are sent; the result of a send to a client that is gone is only logged.
\<close>

datatype ('x, 'a) engine_message =
    NewPayload (message_tx: nat) 'x
  | ForkchoiceUpdate (message_tx: nat) forkchoice_state "'a option" u8

datatype response =
    PayloadResponse "insert_block_fatal_error + payload_status"
  | ForkchoiceResponse "provider_error + on_fork_choice_updated"

text \<open>
  Time is a number of milliseconds. A \<open>Sleep\<close> is ready from its deadline on.
\<close>

type_synonym instant = nat

record parked_payload =
  parked_block_hash :: b256
  parked_tx :: nat
  parked_at :: instant
  parked_timeout :: instant

definition parked_payload_new :: "b256 \<Rightarrow> nat \<Rightarrow> nat \<Rightarrow> instant \<Rightarrow> parked_payload" where
  "parked_payload_new h tx timeout now =
     \<lparr>parked_block_hash = h, parked_tx = tx, parked_at = now, parked_timeout = now + timeout\<rparr>"

lemma parked_payload_new_sel [simp]:
  "parked_block_hash (parked_payload_new h tx timeout now) = h"
  "parked_tx (parked_payload_new h tx timeout now) = tx"
  "parked_at (parked_payload_new h tx timeout now) = now"
  "parked_timeout (parked_payload_new h tx timeout now) = now + timeout"
  by (simp_all add: parked_payload_new_def)

definition timeout_ready :: "instant \<Rightarrow> parked_payload \<Rightarrow> bool" where
  "timeout_ready now p \<longleftrightarrow> parked_timeout p \<le> now"

record ('p, 'i, 'f, 'l) engine =
  tree :: "('p, 'i, 'f, 'l) engine_tree"
  downloader :: "'p downloader"
  parked_payload_timeout :: nat
  parked :: "parked_payload option"
  responses :: "(nat \<times> response) list"

definition engine_new ::
  "('p, 'x, 'e, 'a, 'i, 'f, 'l) tree_lib \<Rightarrow> 'p provider \<Rightarrow> ('p, 'i, 'f, 'l) engine" where
  "engine_new L pr = \<lparr>tree = engine_tree_new L pr, downloader = downloader_new,
     parked_payload_timeout = 3000, parked = None, responses = []\<rparr>"

definition send_response ::
  "nat \<Rightarrow> response \<Rightarrow> ('p, 'i, 'f, 'l) engine \<Rightarrow> ('p, 'i, 'f, 'l) engine" where
  "send_response tx r e = e\<lparr>responses := responses e @ [(tx, r)]\<rparr>"

section \<open>Events of the tree\<close>

definition on_tree_event ::
  "('p, 'x, 'e, 'a, 'i, 'f, 'l) tree_lib \<Rightarrow> tree_event \<Rightarrow> ('p, 'i, 'f, 'l) engine \<Rightarrow>
     ('p, 'i, 'f, 'l) engine option" where
  "on_tree_event L ev e =
     (case ev of
        Download (DownloadBlock h) \<Rightarrow>
          (let e = e\<lparr>downloader := download_full_block h (downloader e)\<rparr>
           in Some (if fmlookup (buffered_proofs (block_buffer (tree e))) h = None
                    then e\<lparr>downloader := download_proof h (downloader e)\<rparr> else e))
      | Download (DownloadProof h) \<Rightarrow> Some (e\<lparr>downloader := download_proof h (downloader e)\<rparr>)
      | Download (DownloadFinalized h) \<Rightarrow>
          Some (e\<lparr>downloader := download_finalized_with_ancestors h (downloader e)\<rparr>)
      | TreeAction (MakeCanonical sync_target_head) \<Rightarrow> do {
          t \<leftarrow> make_canonical L sync_target_head (tree e);
          Some (e\<lparr>tree := t\<rparr>)
        })"

definition on_maybe_tree_event ::
  "('p, 'x, 'e, 'a, 'i, 'f, 'l) tree_lib \<Rightarrow> tree_event option \<Rightarrow> ('p, 'i, 'f, 'l) engine \<Rightarrow>
     ('p, 'i, 'f, 'l) engine option" where
  "on_maybe_tree_event L maybe_event e =
     (case maybe_event of Some ev \<Rightarrow> on_tree_event L ev e | None \<Rightarrow> Some e)"

section \<open>Downloads\<close>

text \<open>
  What a download unlocks: if the block and its proof are both in the buffer they are taken out and
  given to the tree, and the payload parked for that block is answered.
\<close>

definition answer_parked ::
  "b256 \<Rightarrow> insert_block_fatal_error + payload_status \<Rightarrow> ('p, 'i, 'f, 'l) engine \<Rightarrow>
     ('p, 'i, 'f, 'l) engine" where
  "answer_parked h result e =
     (case parked e of
        Some p \<Rightarrow>
          if parked_block_hash p = h
          then send_response (parked_tx p) (PayloadResponse result) (e\<lparr>parked := None\<rparr>)
          else e
      | None \<Rightarrow> e)"

definition insert_unlocked ::
  "('p, 'x, 'e, 'a, 'i, 'f, 'l) tree_lib \<Rightarrow> b256 \<Rightarrow> ('p, 'i, 'f, 'l) engine \<Rightarrow>
     ('p, 'i, 'f, 'l) engine option" where
  "insert_unlocked L unlocked_hash e =
     (let (removed, buf) = remove_block (buffer_ops L) unlocked_hash (block_buffer (tree e));
          e = e\<lparr>tree := (tree e)\<lparr>block_buffer := buf\<rparr>\<rparr>
      in case removed of
           None \<Rightarrow> Some e
         | Some (block, witness) \<Rightarrow> do {
             (result, t) \<leftarrow> on_downloaded_block L block witness (tree e);
             let e = e\<lparr>tree := t\<rparr>;
             e \<leftarrow> (case result of Inr o' \<Rightarrow> on_maybe_tree_event L (event o') e | Inl err \<Rightarrow> Some e);
             Some (answer_parked (hash block) (map_sum id tree_outcome.outcome result) e)
           })"

text \<open>
  Recovering the senders of a block is a library function, an argument. A finalized block becomes
  the head together with the canonical hashes of its ancestors.
\<close>

definition insert_finalized ::
  "recovered_block \<Rightarrow> sealed_header list \<Rightarrow> ('p, 'i, 'f, 'l) engine_tree \<Rightarrow>
     ('p, 'i, 'f, 'l) engine_tree" where
  "insert_finalized recovered ancestors t =
     (let t = set_canonical_head (num_hash recovered) t;
          t = t\<lparr>provider := provider_insert_canonical_hash (number recovered) (hash recovered)
                              (provider t)\<rparr>;
          t = t\<lparr>provider := provider_insert_block recovered None (provider t)\<rparr>
      in t\<lparr>provider := foldl (\<lambda>pr h. provider_insert_canonical_hash (number h) (hash h) pr)
                         (provider t) ancestors\<rparr>)"

definition on_download_outcome ::
  "('p, 'x, 'e, 'a, 'i, 'f, 'l) tree_lib \<Rightarrow> (sealed_block \<Rightarrow> recovered_block option) \<Rightarrow>
     'p download_data \<Rightarrow> ('p, 'i, 'f, 'l) engine \<Rightarrow>
     (insert_block_fatal_error option \<times> ('p, 'i, 'f, 'l) engine) option" where
  "on_download_outcome L try_recover data e =
     (case data of
        FinalizedBlockData block ancestors \<Rightarrow>
          (case try_recover block of
             None \<Rightarrow> Some (Some (FatalProvider SenderRecoveryError), e)
           | Some recovered \<Rightarrow> do {
               let e = e\<lparr>tree := insert_finalized recovered ancestors (tree e)\<rparr>;
               e \<leftarrow> insert_unlocked L (hash block) e;
               Some (None, e)
             })
      | FullBlockData block \<Rightarrow>
          (case try_recover block of
             None \<Rightarrow> Some (None, e)
           | Some recovered \<Rightarrow> do {
               let e = e\<lparr>tree := (tree e)\<lparr>block_buffer :=
                 Block_Buffer.insert_block (buffer_ops L) recovered (block_buffer (tree e))\<rparr>\<rparr>;
               e \<leftarrow> insert_unlocked L (hash block) e;
               Some (None, e)
             })
      | ProofData h witness \<Rightarrow> do {
          let e = e\<lparr>tree := (tree e)\<lparr>block_buffer :=
            insert_proof h witness (block_buffer (tree e))\<rparr>\<rparr>;
          e \<leftarrow> insert_unlocked L h e;
          Some (None, e)
        })"

section \<open>Messages\<close>

definition is_syncing :: "payload_status \<Rightarrow> bool" where
  "is_syncing st \<longleftrightarrow> status st = StatusSyncing"

definition on_new_payload_message ::
  "('p, 'x, 'e, 'a, 'i, 'f, 'l) tree_lib \<Rightarrow> instant \<Rightarrow> nat \<Rightarrow> 'x \<Rightarrow> ('p, 'i, 'f, 'l) engine \<Rightarrow>
     ('p, 'i, 'f, 'l) engine option" where
  "on_new_payload_message L now tx payload e = do {
     let bh = payload_block_hash L payload;
     let (maybe_proof, buf) = remove_proof bh (block_buffer (tree e));
     let e = e\<lparr>tree := (tree e)\<lparr>block_buffer := buf\<rparr>\<rparr>;
     let has_proof = maybe_proof \<noteq> None;
     (result, t) \<leftarrow> on_new_payload L payload maybe_proof (tree e);
     let e = e\<lparr>tree := t\<rparr>;
     let respond = send_response tx (PayloadResponse (map_sum id tree_outcome.outcome result));
     (case result of
        Inl err \<Rightarrow> Some (respond e)
      | Inr o' \<Rightarrow>
          (case event o' of
             None \<Rightarrow> Some (respond e)
           | Some ev \<Rightarrow> do {
               e \<leftarrow> on_tree_event L ev e;
               (case as_proof_download ev of
                  Some h \<Rightarrow>
                    if is_syncing (tree_outcome.outcome o')
                    then Some (e\<lparr>parked :=
                           Some (parked_payload_new h tx (parked_payload_timeout e) now)\<rparr>)
                    else do {
                      e \<leftarrow> (if \<not> has_proof then on_tree_event L (download_proof_event bh) e
                           else Some e);
                      Some (respond e)
                    }
                | None \<Rightarrow> do {
                    e \<leftarrow> (if \<not> has_proof then on_tree_event L (download_proof_event bh) e
                         else Some e);
                    Some (respond e)
                  })
             }))
   }"

definition on_forkchoice_message ::
  "('p, 'x, 'e, 'a, 'i, 'f, 'l) tree_lib \<Rightarrow> nat \<Rightarrow> forkchoice_state \<Rightarrow> 'a option \<Rightarrow> u8 \<Rightarrow>
     ('p, 'i, 'f, 'l) engine \<Rightarrow> ('p, 'i, 'f, 'l) engine option" where
  "on_forkchoice_message L tx state payload_attrs version e = do {
     (result, t) \<leftarrow> on_forkchoice_updated L state payload_attrs version (tree e);
     let e = e\<lparr>tree := t\<rparr>;
     e \<leftarrow> (case result of
            Inl err \<Rightarrow> Some e
          | Inr o' \<Rightarrow>
              (let st = forkchoice_status_of L (tree_outcome.outcome o');
                   t = t\<lparr>forkchoice_state_tracker :=
                           tracker_set_latest L state st (forkchoice_state_tracker t)\<rparr>;
                   t = emit_event (ForkchoiceUpdated state st) t
               in on_maybe_tree_event L (event o') (e\<lparr>tree := t\<rparr>)));
     Some (send_response tx (ForkchoiceResponse (map_sum id tree_outcome.outcome result)) e)
   }"

definition on_engine_message ::
  "('p, 'x, 'e, 'a, 'i, 'f, 'l) tree_lib \<Rightarrow> instant \<Rightarrow> ('x, 'a) engine_message \<Rightarrow>
     ('p, 'i, 'f, 'l) engine \<Rightarrow> ('p, 'i, 'f, 'l) engine option" where
  "on_engine_message L now m e =
     (case m of
        NewPayload tx payload \<Rightarrow> on_new_payload_message L now tx payload e
      | ForkchoiceUpdate tx state payload_attrs version \<Rightarrow>
          on_forkchoice_message L tx state payload_attrs version e)"

section \<open>The loop of the engine\<close>

text \<open>
  One iteration polls the downloader and perhaps the timer. What the network answers is an oracle:
  one environment for each iteration, with the time of that iteration; once the list is used up there
  are no more answers and the time stands still. The result is \<open>None\<close> if the poll panics or does not
  return.
\<close>

record poll_env =
  env_answers :: poll_answers
  env_now :: instant

definition quiet_env :: "instant \<Rightarrow> poll_env" where
  "quiet_env now = \<lparr>env_answers = no_answers, env_now = now\<rparr>"

definition env_hd :: "instant \<Rightarrow> poll_env list \<Rightarrow> poll_env" where
  "env_hd now envs = (case envs of [] \<Rightarrow> quiet_env now | v # _ \<Rightarrow> v)"

text \<open>The timer of a parked payload: the flag says whether the loop goes on to the messages.\<close>

definition check_parked :: "instant \<Rightarrow> ('p, 'i, 'f, 'l) engine \<Rightarrow> bool \<times> ('p, 'i, 'f, 'l) engine" where
  "check_parked now e =
     (case parked e of
        None \<Rightarrow> (True, e)
      | Some p \<Rightarrow>
          if timeout_ready now p
          then (True, send_response (parked_tx p)
                 (PayloadResponse (Inr (payload_status_from_status StatusSyncing)))
                 (e\<lparr>parked := None\<rparr>))
          else (False, e))"

text \<open>One iteration of the loop; a poll in the result leaves the loop, \<open>None\<close> starts it over.\<close>

definition engine_iteration ::
  "('p, 'x, 'e, 'a, 'i, 'f, 'l) tree_lib \<Rightarrow> 'p fetch_lib \<Rightarrow>
     (sealed_block \<Rightarrow> recovered_block option) \<Rightarrow> poll_env \<Rightarrow> ('x, 'a) engine_message list \<Rightarrow>
     ('p, 'i, 'f, 'l) engine \<Rightarrow>
     (insert_block_fatal_error poll option \<times> ('x, 'a) engine_message list \<times>
        ('p, 'i, 'f, 'l) engine) option" where
  "engine_iteration L F try_recover env messages e = do {
     (p, d) \<leftarrow> poll_downloader F (env_answers env) (downloader e);
     let e = e\<lparr>downloader := d\<rparr>;
     (case p of
        Ready data \<Rightarrow> do {
          (fatal, e) \<leftarrow> on_download_outcome L try_recover data e;
          Some (map_option Ready fatal, messages, e)
        }
      | _ \<Rightarrow>
          (case check_parked (env_now env) e of
             (False, e) \<Rightarrow> Some (Some Pending, messages, e)
           | (True, e) \<Rightarrow>
               (case messages of
                  [] \<Rightarrow> Some (Some Pending, [], e)
                | message # messages \<Rightarrow> do {
                    e \<leftarrow> on_engine_message L (env_now env) message e;
                    Some (None, messages, e)
                  })))
   }"

partial_function (option) poll_engine ::
  "('p, 'x, 'e, 'a, 'i, 'f, 'l) tree_lib \<Rightarrow> 'p fetch_lib \<Rightarrow>
     (sealed_block \<Rightarrow> recovered_block option) \<Rightarrow> instant \<Rightarrow> poll_env list \<Rightarrow>
     ('x, 'a) engine_message list \<Rightarrow>
     ('p, 'i, 'f, 'l) engine \<Rightarrow>
     (insert_block_fatal_error poll \<times> ('x, 'a) engine_message list \<times> ('p, 'i, 'f, 'l) engine) option" where
  "poll_engine L F try_recover now envs messages e = do {
     (r, messages, e) \<leftarrow> engine_iteration L F try_recover (env_hd now envs) messages e;
     (case r of
        Some p \<Rightarrow> Some (p, messages, e)
      | None \<Rightarrow> poll_engine L F try_recover (env_now (env_hd now envs)) (tl envs) messages e)
   }"

declare poll_engine.simps [code]

end
