(* ===== verification/Engine_Facts.thy ===== *)
theory Engine_Facts
  imports Engine
begin

text \<open>
  The engine keeps the invariants of its tree and its downloader; every step returns, answers each
  message once or parks it, and stores only blocks that were checked.
\<close>

section \<open>The invariant of the engine\<close>

text \<open>Documented behaviour of the recovery of senders: the block itself is not changed.\<close>

definition recover_laws ::
  "(sealed_block \<Rightarrow> recovered_block option) \<Rightarrow> recovered_block set \<Rightarrow> bool" where
  "recover_laws try_recover U \<longleftrightarrow> (\<forall>x b. try_recover x = Some b \<longrightarrow> b \<in> U \<and> hash b = hash x)"

definition engine_env ::
  "('p, 'x, 'e, 'a, 'i, 'f, 'l) tree_lib \<Rightarrow> ('l \<Rightarrow> b256 list) \<Rightarrow> ('i \<Rightarrow> b256 \<rightharpoonup> block_with_parent) \<Rightarrow>
     (b256 \<Rightarrow> nat) \<Rightarrow> recovered_block set \<Rightarrow> (sealed_block \<Rightarrow> recovered_block option) \<Rightarrow> bool" where
  "engine_env L keys ents rk U try_recover \<longleftrightarrow>
     tree_env L keys ents rk U \<and> payload_laws L U \<and> recover_laws try_recover U"

definition engine_ok ::
  "('p, 'x, 'e, 'a, 'i, 'f, 'l) tree_lib \<Rightarrow> 'p fetch_lib \<Rightarrow> ('l \<Rightarrow> b256 list) \<Rightarrow>
     ('i \<Rightarrow> b256 \<rightharpoonup> block_with_parent) \<Rightarrow> (b256 \<Rightarrow> nat) \<Rightarrow> recovered_block set \<Rightarrow>
     ('p, 'i, 'f, 'l) engine \<Rightarrow> bool" where
  "engine_ok L F keys ents rk U e \<longleftrightarrow>
     tree_inv L keys ents rk U (tree e) \<and> downloader_ok F (downloader e)"

text \<open>
  A trusted block was downloaded as the finalized block, with the checked headers of its ancestors;
  the tree stores it without a proof.
\<close>

definition trusted ::
  "'p fetch_lib \<Rightarrow> (sealed_block \<Rightarrow> recovered_block option) \<Rightarrow> recovered_block \<Rightarrow> bool" where
  "trusted F try_recover b \<longleftrightarrow>
     (\<exists>x hs. try_recover x = Some b \<and> good_with_ancestors F 256 (hash x) (x, hs))"

definition stores_checked ::
  "('p, 'x, 'e, 'a, 'i, 'f, 'l) tree_lib \<Rightarrow> 'p fetch_lib \<Rightarrow>
     (sealed_block \<Rightarrow> recovered_block option) \<Rightarrow>
     ('p, 'i, 'f, 'l) engine_tree \<Rightarrow> ('p, 'i, 'f, 'l) engine_tree \<Rightarrow> bool" where
  "stores_checked L F try_recover t t' \<longleftrightarrow>
     (\<forall>h b. stored t' h = Some b \<longrightarrow> stored t h = Some b \<or> accepted L b \<or> trusted F try_recover b)"

lemma stores_checked_refl [simp]: "stores_checked L F rc t t"
  by (simp add: stores_checked_def)

lemma stores_checked_trans:
  "stores_checked L F rc t t' \<Longrightarrow> stores_checked L F rc t' t'' \<Longrightarrow> stores_checked L F rc t t''"
  unfolding stores_checked_def by blast

lemma stores_checked_step: "tree_step L nm U t t' \<Longrightarrow> stores_checked L F rc t t'"
  unfolding tree_step_def stores_checked_def by blast

lemma stores_checked_buffer [simp]:
  "stores_checked L F rc (t\<lparr>block_buffer := buf\<rparr>) t' = stores_checked L F rc t t'"
  "stores_checked L F rc t (t'\<lparr>block_buffer := buf\<rparr>) = stores_checked L F rc t t'"
  by (simp_all add: stores_checked_def)

text \<open>The messages an engine has taken, in their order: those answered, and the one parked.\<close>

definition ledger :: "('p, 'i, 'f, 'l) engine \<Rightarrow> nat list" where
  "ledger e = map fst (responses e) @ (case parked e of None \<Rightarrow> [] | Some p \<Rightarrow> [parked_tx p])"

definition tx_of :: "('x, 'a) engine_message \<Rightarrow> nat" where
  "tx_of m = (case m of NewPayload tx _ \<Rightarrow> tx | ForkchoiceUpdate tx _ _ _ \<Rightarrow> tx)"

text \<open>What every part of a step keeps.\<close>

definition engine_run ::
  "('p, 'x, 'e, 'a, 'i, 'f, 'l) tree_lib \<Rightarrow> 'p fetch_lib \<Rightarrow> ('l \<Rightarrow> b256 list) \<Rightarrow>
     ('i \<Rightarrow> b256 \<rightharpoonup> block_with_parent) \<Rightarrow> (b256 \<Rightarrow> nat) \<Rightarrow> recovered_block set \<Rightarrow>
     (sealed_block \<Rightarrow> recovered_block option) \<Rightarrow>
     ('p, 'i, 'f, 'l) engine \<Rightarrow> ('p, 'i, 'f, 'l) engine \<Rightarrow> bool" where
  "engine_run L F keys ents rk U rc e e' \<longleftrightarrow>
     engine_ok L F keys ents rk U e' \<and> stores_checked L F rc (tree e) (tree e') \<and>
     outcomes (downloader e') = outcomes (downloader e) \<and>
     inflight (downloader e) \<subseteq># inflight (downloader e')"

lemma engine_run_refl: "engine_ok L F keys ents rk U e \<Longrightarrow> engine_run L F keys ents rk U rc e e"
  by (simp add: engine_run_def)

lemma engine_run_trans:
  "engine_run L F keys ents rk U rc e e' \<Longrightarrow> engine_run L F keys ents rk U rc e' e'' \<Longrightarrow>
     engine_run L F keys ents rk U rc e e''"
  unfolding engine_run_def using stores_checked_trans subset_mset.trans by (metis (no_types, lifting))

lemma engine_run_ok: "engine_run L F keys ents rk U rc e e' \<Longrightarrow> engine_ok L F keys ents rk U e'"
  by (simp add: engine_run_def)

lemma engine_run_tree:
  "engine_ok L F keys ents rk U e \<Longrightarrow> tree_inv L keys ents rk U t \<Longrightarrow>
     stores_checked L F rc (tree e) t \<Longrightarrow> engine_run L F keys ents rk U rc e (e\<lparr>tree := t\<rparr>)"
  by (simp add: engine_run_def engine_ok_def)

lemma engine_run_responses [simp]:
  "engine_run L F keys ents rk U rc e (send_response tx r e') = engine_run L F keys ents rk U rc e e'"
  "engine_run L F keys ents rk U rc e (e'\<lparr>parked := p\<rparr>) = engine_run L F keys ents rk U rc e e'"
  "engine_run L F keys ents rk U rc e (answer_parked h res e') = engine_run L F keys ents rk U rc e e'"
  by (simp_all add: engine_run_def engine_ok_def send_response_def answer_parked_def split: option.splits)

lemma send_response_sel [simp]:
  "responses (send_response tx r e) = responses e @ [(tx, r)]" "parked (send_response tx r e) = parked e"
  "tree (send_response tx r e) = tree e" "downloader (send_response tx r e) = downloader e"
  by (simp_all add: send_response_def)

lemma ledger_simps [simp]:
  "parked e = None \<Longrightarrow> ledger (send_response tx r e) = ledger e @ [tx]"
  "ledger (e\<lparr>tree := t\<rparr>) = ledger e" "ledger (e\<lparr>downloader := d\<rparr>) = ledger e"
  "ledger (answer_parked h res e) = ledger e"
  by (auto simp: ledger_def send_response_def answer_parked_def split: option.splits)

section \<open>The buffer\<close>

lemma tree_inv_remove_proof:
  "tree_inv L keys ents rk U t \<Longrightarrow> remove_proof h (block_buffer t) = (mp, buf) \<Longrightarrow>
     tree_inv L keys ents rk U (t\<lparr>block_buffer := buf\<rparr>)"
  by (auto simp: tree_inv_def remove_proof_def buffer_inv_def links_inv_def)

lemma tree_inv_remove_block:
  assumes env: "tree_env L keys ents rk U" and inv: "tree_inv L keys ents rk U t"
    and r: "remove_block (buffer_ops L) h (block_buffer t) = (removed, buf)"
  shows "tree_inv L keys ents rk U (t\<lparr>block_buffer := buf\<rparr>)"
    and "removed = Some (b, w) \<Longrightarrow> b \<in> U \<and> hash b = h"
proof -
  have "buffer_inv (buffer_ops L) keys (\<lambda>_. True) buf"
    using remove_block_inv [OF tree_envD(2) [OF env] tree_invD(4) [OF inv], of h] r by simp
  moreover have "fmlookup (blocks buf) x = Some c \<Longrightarrow> c \<in> U" for x c
    using r tree_invD(6) [OF inv, of x c] by (auto simp: remove_block_alt split: option.splits if_splits)
  moreover have "lru_max_length (buffer_ops L) (lru buf) = lru_max_length (buffer_ops L) (lru (block_buffer t))"
    using r evict_block_limit [OF tree_envD(2) [OF env], of h "block_buffer t"]
    by (auto simp: remove_block_alt split: option.splits)
  ultimately show "tree_inv L keys ents rk U (t\<lparr>block_buffer := buf\<rparr>)"
    using inv by (simp add: tree_inv_def)
  show "b \<in> U \<and> hash b = h" if "removed = Some (b, w)"
    using r that tree_invD(6,7) [OF inv] by (auto simp: remove_block_alt split: option.splits)
qed

section \<open>Events\<close>

lemma downloads_kept:
  "inflight d \<subseteq># inflight (download_full_block h d)" "inflight d \<subseteq># inflight (download_proof h d)"
  "inflight d \<subseteq># inflight (download_finalized_with_ancestors h d)"
  "(FullBlockTy, h) \<in># inflight (download_full_block h d)"
  "(ProofTy, h) \<in># inflight (download_proof h d)"
  "(FinalizedTy, h) \<in># inflight (download_finalized_with_ancestors h d)"
  by (simp_all add: download_adds)

lemma on_tree_event_run:
  assumes env: "tree_env L keys ents rk U" and ok: "engine_ok L F keys ents rk U e"
  shows "\<exists>e'. on_tree_event L ev e = Some e' \<and> engine_run L F keys ents rk U rc e e' \<and>
    responses e' = responses e \<and> parked e' = parked e \<and> stored (tree e') = stored (tree e) \<and>
    (case ev of
       Download (DownloadBlock h) \<Rightarrow> tree e' = tree e \<and> (FullBlockTy, h) \<in># inflight (downloader e')
     | Download (DownloadProof h) \<Rightarrow> tree e' = tree e \<and> (ProofTy, h) \<in># inflight (downloader e')
     | Download (DownloadFinalized h) \<Rightarrow>
         tree e' = tree e \<and> (FinalizedTy, h) \<in># inflight (downloader e')
     | TreeAction _ \<Rightarrow> True)"
proof (cases ev)
  case (Download r)
  then show ?thesis
    using ok
    by (cases r)
       (auto simp: on_tree_event_def engine_run_def engine_ok_def download_ok downloads_kept Let_def
         download_adds)
next
  case (TreeAction a)
  obtain h where a: "a = MakeCanonical h" by (cases a)
  have "tree_inv L keys ents rk U (tree e)" using ok by (simp add: engine_ok_def)
  then obtain t where "make_canonical L h (tree e) = Some t" "tree_inv L keys ents rk U t"
    "tree_step L (\<lambda>_. 0) U (tree e) t" "stored t = stored (tree e)"
    using make_canonical_correct [OF env] by blast
  then show ?thesis
    using TreeAction a engine_run_tree [OF ok, of t rc] stores_checked_step [of L _ U "tree e" t F rc]
    by (auto simp: on_tree_event_def)
qed

lemma on_tree_event_timeout:
  "on_tree_event L ev e = Some e' \<Longrightarrow> parked_payload_timeout e' = parked_payload_timeout e"
  by (auto simp: on_tree_event_def Let_def split: tree_event.splits download_request.splits
      tree_action.splits Option.bind_splits)

lemma on_maybe_tree_event_run:
  assumes "tree_env L keys ents rk U" and "engine_ok L F keys ents rk U e"
  shows "\<exists>e'. on_maybe_tree_event L ev e = Some e' \<and> engine_run L F keys ents rk U rc e e' \<and>
    responses e' = responses e \<and> parked e' = parked e \<and> stored (tree e') = stored (tree e)"
  using on_tree_event_run [OF assms, where rc = rc] engine_run_refl [OF assms(2)]
  by (cases ev) (auto simp: on_maybe_tree_event_def)

lemma ledger_cong: "responses e' = responses e \<Longrightarrow> parked e' = parked e \<Longrightarrow> ledger e' = ledger e"
  by (simp add: ledger_def)

section \<open>Downloads\<close>

text \<open>The block and its proof have arrived: the tree takes it, and a payload parked for it is answered.\<close>

lemma insert_unlocked_run:
  assumes env: "tree_env L keys ents rk U" and ok: "engine_ok L F keys ents rk U e"
  shows "\<exists>e'. insert_unlocked L h e = Some e' \<and> engine_run L F keys ents rk U rc e e' \<and>
    ledger e' = ledger e \<and>
    (buffered (tree e) h \<noteq> None \<and> buffer_proof (block_buffer (tree e)) h \<noteq> None \<longrightarrow>
       (\<forall>p. parked e = Some p \<longrightarrow> parked_block_hash p = h \<longrightarrow> parked e' = None \<and>
          (\<exists>res. responses e' = responses e @ [(parked_tx p, PayloadResponse res)] \<and>
             (\<forall>st. res = Inr st \<longrightarrow> status st = StatusValid \<longrightarrow> stored (tree e') h \<noteq> None))))"
proof -
  have inv: "tree_inv L keys ents rk U (tree e)" using ok by (simp add: engine_ok_def)
  obtain removed buf where r: "remove_block (buffer_ops L) h (block_buffer (tree e)) = (removed, buf)"
    by (cases "remove_block (buffer_ops L) h (block_buffer (tree e))")
  let ?t = "(tree e)\<lparr>block_buffer := buf\<rparr>"
  have inv': "tree_inv L keys ents rk U ?t" by (rule tree_inv_remove_block(1) [OF env inv r])
  show ?thesis
  proof (cases removed)
    case None
    have "\<not> (buffered (tree e) h \<noteq> None \<and> buffer_proof (block_buffer (tree e)) h \<noteq> None)"
      using r None by (auto simp: remove_block_alt buffer_proof_def split: option.splits)
    moreover have "engine_run L F keys ents rk U rc e (e\<lparr>tree := ?t\<rparr>)"
      using engine_run_tree [OF ok inv'] by simp
    ultimately show ?thesis using r None by (auto simp: insert_unlocked_def Let_def)
  next
    case (Some bw)
    obtain b w where bw: "bw = (b, w)" by (cases bw)
    have b: "b \<in> U" "hash b = h"
      using tree_inv_remove_block(2) [OF env inv r] Some bw by blast+
    obtain res t where d: "on_downloaded_block L b w ?t = Some (res, t)"
      "run_ok L keys ents rk U (\<lambda>_. 0) ?t t"
      "\<And>o'. res = Inr o' \<Longrightarrow> answer_ok t h o'"
      using on_downloaded_block_run [OF env inv' b(1)] b(2) by blast
    let ?e = "e\<lparr>tree := t\<rparr>"
    have run1: "engine_run L F keys ents rk U rc e ?e"
    proof (rule engine_run_tree [OF ok])
      show "tree_inv L keys ents rk U t" using d(2) by (simp add: run_ok_def)
      have "stores_checked L F rc ?t t" using d(2) stores_checked_step unfolding run_ok_def by blast
      then show "stores_checked L F rc (tree e) t" by simp
    qed
    note ok1 = engine_run_ok [OF run1]
    obtain e2 where e2: "(case res of Inr o' \<Rightarrow> on_maybe_tree_event L (event o') ?e | Inl err \<Rightarrow> Some ?e) = Some e2"
      "engine_run L F keys ents rk U rc ?e e2" "responses e2 = responses ?e" "parked e2 = parked ?e"
      "stored (tree e2) = stored (tree ?e)"
    proof (cases res)
      case (Inl err)
      then show ?thesis using that engine_run_refl [OF ok1] by simp
    next
      case (Inr o')
      then show ?thesis using that on_maybe_tree_event_run [OF env ok1, where rc = rc and ev = "event o'"] by auto
    qed
    let ?e' = "answer_parked h (map_sum id tree_outcome.outcome res) e2"
    have "insert_unlocked L h e = Some ?e'"
      using r Some bw d(1) e2(1) b(2) by (simp add: insert_unlocked_def Let_def)
    moreover have "engine_run L F keys ents rk U rc e ?e'"
      using engine_run_trans [OF run1 e2(2)] by simp
    moreover have "ledger ?e' = ledger e" using ledger_cong [OF e2(3,4)] by simp
    moreover have "parked ?e' = None \<and>
          (\<exists>rs. responses ?e' = responses e @ [(parked_tx p, PayloadResponse rs)] \<and>
             (\<forall>st. rs = Inr st \<longrightarrow> status st = StatusValid \<longrightarrow> stored (tree ?e') h \<noteq> None))"
      if p: "parked e = Some p" "parked_block_hash p = h" for p
    proof -
      have "stored t h \<noteq> None" if "map_sum id tree_outcome.outcome res = Inr st" "status st = StatusValid" for st
        using that d(3) by (cases res) (auto simp: answer_ok_def)
      then show ?thesis using p e2(3-5) by (simp add: answer_parked_def send_response_def)
    qed
    ultimately show ?thesis by blast
  qed
qed

lemma finalized_hashes:
  "cs_wf (chain_state_of (foldl (\<lambda>pr h. provider_insert_canonical_hash (number h) (hash h) pr) pr hs)) =
     cs_wf (chain_state_of pr) \<and>
   blocks_by_hash (chain_state_of
     (foldl (\<lambda>pr h. provider_insert_canonical_hash (number h) (hash h) pr) pr hs)) =
     blocks_by_hash (chain_state_of pr)"
proof (induction hs arbitrary: pr)
  case (Cons h hs)
  have "cs_wf (insert_canonical_hash n x cs) = cs_wf cs" for n x and cs :: "'a chain_state"
    by (simp add: cs_wf_def)
  then show ?case using Cons by simp
qed simp

lemma insert_finalized_sel [simp]:
  "block_buffer (insert_finalized b hs t) = block_buffer t"
  "invalid_headers (insert_finalized b hs t) = invalid_headers t"
  "canonical_head (insert_finalized b hs t) = num_hash b"
  "stored (insert_finalized b hs t) = (stored t)(hash b \<mapsto> b)"
  by (simp_all add: insert_finalized_def set_canonical_head_def Let_def finalized_hashes fun_eq_iff)

lemma tree_inv_insert_finalized:
  assumes env: "tree_env L keys ents rk U" and inv: "tree_inv L keys ents rk U t" and "b \<in> U"
  shows "tree_inv L keys ents rk U (insert_finalized b hs t)"
proof -
  let ?t = "(set_canonical_head (num_hash b) t)\<lparr>provider :=
    provider_insert_canonical_hash (number b) (hash b) (provider t)\<rparr>"
  have "tree_inv L keys ents rk U ?t"
    using inv by (auto simp: tree_inv_def set_canonical_head_def intro: inv_intros)
  from tree_inv_provider_insert [OF env this assms(3), of None]
  show ?thesis
    by (simp add: tree_inv_def insert_finalized_def set_canonical_head_def Let_def finalized_hashes)
qed

lemma on_download_outcome_run:
  assumes env: "engine_env L keys ents rk U rc" and ok: "engine_ok L F keys ents rk U e"
    and good: "good_data F data"
  shows "\<exists>fatal e'. on_download_outcome L rc data e = Some (fatal, e') \<and>
    engine_run L F keys ents rk U rc e e' \<and> ledger e' = ledger e \<and>
    (fatal \<noteq> None \<longrightarrow> (\<exists>x hs. data = FinalizedBlockData x hs \<and> rc x = None \<and> e' = e))"
proof -
  have tenv: "tree_env L keys ents rk U" and rec: "\<And>x b. rc x = Some b \<Longrightarrow> b \<in> U \<and> hash b = hash x"
    using env by (auto simp: engine_env_def recover_laws_def)
  have inv: "tree_inv L keys ents rk U (tree e)" using ok by (simp add: engine_ok_def)
  have unlocked: "\<exists>e'. insert_unlocked L h (e\<lparr>tree := t\<rparr>) = Some e' \<and>
      engine_run L F keys ents rk U rc e e' \<and> ledger e' = ledger e"
    if "tree_inv L keys ents rk U t" "stores_checked L F rc (tree e) t" for h t
  proof -
    have run: "engine_run L F keys ents rk U rc e (e\<lparr>tree := t\<rparr>)"
      by (rule engine_run_tree [OF ok that])
    obtain e' where "insert_unlocked L h (e\<lparr>tree := t\<rparr>) = Some e'"
      "engine_run L F keys ents rk U rc (e\<lparr>tree := t\<rparr>) e'" "ledger e' = ledger (e\<lparr>tree := t\<rparr>)"
      using insert_unlocked_run [OF tenv engine_run_ok [OF run]] by blast
    then show ?thesis using engine_run_trans [OF run] by auto
  qed
  show ?thesis
  proof (cases data)
    case (FullBlockData x)
    show ?thesis
    proof (cases "rc x")
      case None
      then show ?thesis using FullBlockData engine_run_refl [OF ok] by (simp add: on_download_outcome_def)
    next
      case (Some b)
      let ?t = "(tree e)\<lparr>block_buffer := Block_Buffer.insert_block (buffer_ops L) b (block_buffer (tree e))\<rparr>"
      have "tree_inv L keys ents rk U ?t" using rec [OF Some] tree_inv_buffer_insert [OF tenv inv] by blast
      then show ?thesis
        using FullBlockData Some unlocked [of ?t "hash x"] by (auto simp: on_download_outcome_def)
    qed
  next
    case (ProofData h w)
    let ?t = "(tree e)\<lparr>block_buffer := insert_proof h w (block_buffer (tree e))\<rparr>"
    have "tree_inv L keys ents rk U ?t" by (rule tree_inv_insert_proof [OF inv])
    then show ?thesis
      using ProofData unlocked [of ?t h] by (auto simp: on_download_outcome_def)
  next
    case (FinalizedBlockData x hs)
    show ?thesis
    proof (cases "rc x")
      case None
      then show ?thesis using FinalizedBlockData engine_run_refl [OF ok] by (simp add: on_download_outcome_def)
    next
      case (Some b)
      let ?t = "insert_finalized b hs (tree e)"
      have "tree_inv L keys ents rk U ?t" using rec [OF Some] tree_inv_insert_finalized [OF tenv inv] by blast
      moreover have "trusted F rc b"
        using Some good FinalizedBlockData by (auto simp: trusted_def good_data_def)
      then have "stores_checked L F rc (tree e) ?t" by (simp add: stores_checked_def)
      ultimately show ?thesis
        using FinalizedBlockData Some unlocked [of ?t "hash x"] by (auto simp: on_download_outcome_def)
    qed
  qed
qed

section \<open>Messages\<close>

text \<open>
  A payload is either parked, its block in the buffer and the download of its proof in flight, or
  answered: \<open>VALID\<close> then means that the block is stored, \<open>SYNCING\<close> that its block is in the buffer and
  the download of a missing ancestor is in flight.
\<close>

definition payload_taken ::
  "instant \<Rightarrow> nat \<Rightarrow> b256 \<Rightarrow> ('p, 'i, 'f, 'l) engine \<Rightarrow> ('p, 'i, 'f, 'l) engine \<Rightarrow> bool" where
  "payload_taken now tx h e e' \<longleftrightarrow>
     (parked e' = Some (parked_payload_new h tx (parked_payload_timeout e) now) \<and> responses e' = responses e \<and>
        buffered (tree e') h \<noteq> None \<and> (ProofTy, h) \<in># inflight (downloader e')) \<or>
     (parked e' = parked e \<and>
        (\<exists>res. responses e' = responses e @ [(tx, PayloadResponse res)] \<and>
           (\<forall>st. res = Inr st \<longrightarrow>
              (status st = StatusValid \<longrightarrow> latest_valid_hash st = Some h \<and> stored (tree e') h \<noteq> None) \<and>
              (status st = StatusSyncing \<longrightarrow> buffered (tree e') h \<noteq> None \<and>
                 (\<exists>m. (FullBlockTy, m) \<in># inflight (downloader e'))) \<and>
              status st \<noteq> StatusAccepted)))"

lemma proof_request_run:
  assumes env: "tree_env L keys ents rk U" and ok: "engine_ok L F keys ents rk U e"
  shows "\<exists>e'. (if no_proof then on_tree_event L (download_proof_event h) e else Some e) = Some e' \<and>
    engine_run L F keys ents rk U rc e e' \<and> responses e' = responses e \<and> parked e' = parked e \<and> tree e' = tree e"
  using on_tree_event_run [OF env ok, of "download_proof_event h" rc] engine_run_refl [OF ok]
  by (cases no_proof) (auto simp: download_proof_event_def)

text \<open>The event of an answered payload, with the request for its proof: the payload is parked or answered.\<close>

lemma payload_event_run:
  assumes env: "tree_env L keys ents rk U" and ok: "engine_ok L F keys ents rk U e"
    and ans: "answer_ok (tree e) h o'" and ev: "event o' = Some ev"
  defines "parks \<equiv> status (outcome o') = StatusSyncing \<and> as_proof_download ev \<noteq> None"
  shows "\<exists>e2 e3. on_tree_event L ev e = Some e2 \<and> engine_run L F keys ents rk U rc e e2 \<and>
    (if no_proof then on_tree_event L (download_proof_event h) e2 else Some e2) = Some e3 \<and>
    engine_run L F keys ents rk U rc e e3 \<and>
    (parks \<longrightarrow> ev = download_proof_event h \<and>
       payload_taken now tx h e (e2\<lparr>parked := Some (parked_payload_new h tx (parked_payload_timeout e2) now)\<rparr>)) \<and>
    (\<not> parks \<longrightarrow> payload_taken now tx h e (send_response tx (PayloadResponse (Inr (outcome o'))) e3))"
proof -
  obtain e2 where e2: "on_tree_event L ev e = Some e2" "engine_run L F keys ents rk U rc e e2"
    "responses e2 = responses e" "parked e2 = parked e" "stored (tree e2) = stored (tree e)"
    and d: "case ev of
       Download (DownloadBlock h) \<Rightarrow> tree e2 = tree e \<and> (FullBlockTy, h) \<in># inflight (downloader e2)
     | Download (DownloadProof h) \<Rightarrow> tree e2 = tree e \<and> (ProofTy, h) \<in># inflight (downloader e2)
     | Download (DownloadFinalized h) \<Rightarrow> tree e2 = tree e \<and> (FinalizedTy, h) \<in># inflight (downloader e2)
     | TreeAction _ \<Rightarrow> True"
    using on_tree_event_run [OF env ok, of ev rc] by blast
  have dl: "ev = download_block_event m \<Longrightarrow> tree e2 = tree e \<and> (FullBlockTy, m) \<in># inflight (downloader e2)"
    "ev = download_proof_event m \<Longrightarrow> tree e2 = tree e \<and> (ProofTy, m) \<in># inflight (downloader e2)" for m
    using d by (simp_all add: download_block_event_def download_proof_event_def)
  obtain e3 where e3: "(if no_proof then on_tree_event L (download_proof_event h) e2 else Some e2) = Some e3"
    "engine_run L F keys ents rk U rc e2 e3" "responses e3 = responses e2" "parked e3 = parked e2"
    "tree e3 = tree e2"
    using proof_request_run [OF env engine_run_ok [OF e2(2)], of no_proof h rc] by blast
  have keep: "d \<in># inflight (downloader e2) \<Longrightarrow> d \<in># inflight (downloader e3)" for d
    using e3(2) unfolding engine_run_def by (meson mset_subset_eqD)
  have "ev = download_proof_event h \<and>
      payload_taken now tx h e (e2\<lparr>parked := Some (parked_payload_new h tx (parked_payload_timeout e2) now)\<rparr>)" if parks
  proof -
    have "ev = download_proof_event h" "buffered (tree e) h \<noteq> None"
      using that ans ev by (auto simp: parks_def answer_ok_def as_proof_download_def download_block_event_def)
    then show ?thesis using e2(3) dl(2) on_tree_event_timeout [OF e2(1)] by (simp add: payload_taken_def)
  qed
  moreover have "payload_taken now tx h e (send_response tx (PayloadResponse (Inr (outcome o'))) e3)" if answered: "\<not> parks"
  proof (cases "status (outcome o') = StatusSyncing")
    case True
    then obtain m where m: "ev = download_block_event m" "buffered (tree e) h \<noteq> None"
      using ans ev answered by (auto simp: parks_def answer_ok_def as_proof_download_def download_proof_event_def)
    then have "buffered (tree e3) h \<noteq> None" "\<exists>m. (FullBlockTy, m) \<in># inflight (downloader e3)"
      using dl(1) [OF m(1)] keep e3(5) by auto
    then show ?thesis using True e2(3,4) e3(3,4) by (simp add: payload_taken_def)
  next
    case False
    then show ?thesis
      using ev ans e2(3-5) e3(3-5)
      by (cases "status (outcome o')") (auto simp: payload_taken_def answer_ok_def)
  qed
  ultimately show ?thesis using e2(1,2) e3(1) engine_run_trans [OF e2(2) e3(2)] by blast
qed

lemma on_new_payload_message_run:
  assumes env: "engine_env L keys ents rk U rc" and ok: "engine_ok L F keys ents rk U e"
  shows "\<exists>e'. on_new_payload_message L now tx x e = Some e' \<and> engine_run L F keys ents rk U rc e e' \<and>
    payload_taken now tx (payload_block_hash L x) e e'"
proof -
  have tenv: "tree_env L keys ents rk U" and pl: "payload_laws L U"
    using env by (auto simp: engine_env_def)
  have inv: "tree_inv L keys ents rk U (tree e)" using ok by (simp add: engine_ok_def)
  let ?h = "payload_block_hash L x"
  obtain mp buf where rp: "remove_proof ?h (block_buffer (tree e)) = (mp, buf)"
    by (cases "remove_proof ?h (block_buffer (tree e))")
  let ?t = "(tree e)\<lparr>block_buffer := buf\<rparr>"
  have inv': "tree_inv L keys ents rk U ?t" by (rule tree_inv_remove_proof [OF inv rp])
  obtain res t where np: "on_new_payload L x mp ?t = Some (res, t)"
    and run: "run_ok L keys ents rk U (\<lambda>_. 0) ?t t"
    and ans: "\<And>o'. res = Inr o' \<Longrightarrow> answer_ok t ?h o'"
    using on_new_payload_run [OF tenv inv' pl] by blast
  let ?e = "e\<lparr>tree := t\<rparr>"
  have run1: "engine_run L F keys ents rk U rc e ?e"
  proof (rule engine_run_tree [OF ok])
    show "tree_inv L keys ents rk U t" using run by (simp add: run_ok_def)
    have "stores_checked L F rc ?t t" using run stores_checked_step unfolding run_ok_def by blast
    then show "stores_checked L F rc (tree e) t" by simp
  qed
  note ok1 = engine_run_ok [OF run1]
  let ?send = "\<lambda>e. send_response tx (PayloadResponse (map_sum id tree_outcome.outcome res)) e"
  note eqs = rp np on_new_payload_message_def
  show ?thesis
  proof (cases res)
    case (Inl err)
    then show ?thesis
      using run1 by (simp add: eqs payload_taken_def)
  next
    case (Inr o')
    note ans' = ans [OF Inr]
    show ?thesis
    proof (cases "event o'")
      case None
      then show ?thesis
        using Inr run1 ans'
        by (cases "status (outcome o')") (auto simp: eqs payload_taken_def answer_ok_def)
    next
        case (Some ev)
      let ?parked = "\<lambda>e2. Some (parked_payload_new ?h tx (parked_payload_timeout e2) now)"
      have same: "payload_taken now tx ?h e = payload_taken now tx ?h ?e"
        by (simp add: payload_taken_def fun_eq_iff)
      have "answer_ok (tree ?e) ?h o'" using ans' by simp
      from payload_event_run [OF tenv ok1 this Some, where no_proof = "mp = None" and now = now and tx = tx and rc = rc]
      obtain e2 e3 where e2: "on_tree_event L ev ?e = Some e2" "engine_run L F keys ents rk U rc ?e e2"
        and e3: "(if mp = None then on_tree_event L (download_proof_event ?h) e2 else Some e2) = Some e3"
          "engine_run L F keys ents rk U rc ?e e3"
        and parks: "status (outcome o') = StatusSyncing \<and> as_proof_download ev \<noteq> None \<Longrightarrow>
          ev = download_proof_event ?h \<and> payload_taken now tx ?h e (e2\<lparr>parked := ?parked e2\<rparr>)"
        and answers: "\<not> (status (outcome o') = StatusSyncing \<and> as_proof_download ev \<noteq> None) \<Longrightarrow>
          payload_taken now tx ?h e (send_response tx (PayloadResponse (Inr (outcome o'))) e3)"
        unfolding same by blast
      show ?thesis
      proof (cases "status (outcome o') = StatusSyncing \<and> as_proof_download ev \<noteq> None")
        case True
        then have "on_new_payload_message L now tx x e = Some (e2\<lparr>parked := ?parked e2\<rparr>)"
          using Inr Some e2(1) parks
          by (simp add: eqs as_proof_download_def download_proof_event_def is_syncing_def)
        then show ?thesis using engine_run_trans [OF run1 e2(2)] parks [OF True] by simp
      next
        case False
        have "on_new_payload_message L now tx x e = Some (?send e3)"
          using rp np Inr Some e2(1) e3(1) False
          by (cases "as_proof_download ev"; cases mp;
              simp add: on_new_payload_message_def is_syncing_def Let_def)
        then show ?thesis using engine_run_trans [OF run1 e3(2)] answers [OF False] Inr by simp
      qed
    qed
  qed
qed

text \<open>
  An update of the forkchoice is answered: \<open>VALID\<close> names the head, which is then the canonical head
  or was stored; \<open>SYNCING\<close> means that the head was not stored.
\<close>

definition forkchoice_taken ::
  "nat \<Rightarrow> forkchoice_state \<Rightarrow> ('p, 'i, 'f, 'l) engine \<Rightarrow> ('p, 'i, 'f, 'l) engine \<Rightarrow> bool" where
  "forkchoice_taken tx state e e' \<longleftrightarrow> parked e' = parked e \<and>
     (\<exists>res. responses e' = responses e @ [(tx, ForkchoiceResponse res)] \<and>
        (case res of
           Inl err \<Rightarrow> err = HeaderNotFound (head_block_hash state)
         | Inr (FcuValid st) \<Rightarrow>
             (status st = StatusValid \<and> latest_valid_hash st = Some (head_block_hash state) \<and>
              (nh_hash (canonical_head (tree e')) = head_block_hash state \<or>
               stored (tree e) (head_block_hash state) \<noteq> None)) \<or>
             (status st = StatusSyncing \<and> latest_valid_hash st = None \<and>
              stored (tree e) (head_block_hash state) = None)
         | Inr _ \<Rightarrow> True))"

lemma on_forkchoice_message_run:
  assumes env: "tree_env L keys ents rk U" and ok: "engine_ok L F keys ents rk U e"
  shows "\<exists>e'. on_forkchoice_message L tx state attrs v e = Some e' \<and>
    engine_run L F keys ents rk U rc e e' \<and> forkchoice_taken tx state e e'"
proof -
  have inv: "tree_inv L keys ents rk U (tree e)" using ok by (simp add: engine_ok_def)
  obtain r t where f: "on_forkchoice_updated L state attrs v (tree e) = Some (r, t)"
    and t: "tree_inv L keys ents rk U t" "tree_step L (\<lambda>_. 0) U (tree e) t"
    and ans: "case r of
       Inr o' \<Rightarrow> fcu_answer_ok (tree e) t state o'
     | Inl e \<Rightarrow> e = HeaderNotFound (head_block_hash state)"
    using on_forkchoice_updated_run [OF env inv, where state = state and attrs = attrs and v = v
        and nm = "\<lambda>_. 0"] by (fastforce split: sum.splits)
  let ?send = "\<lambda>e. send_response tx (ForkchoiceResponse (map_sum id tree_outcome.outcome r)) e"
  show ?thesis
  proof (cases r)
    case (Inl err)
    have "engine_run L F keys ents rk U rc e (e\<lparr>tree := t\<rparr>)"
      using engine_run_tree [OF ok t(1) stores_checked_step [OF t(2)]] .
    then show ?thesis
      using f Inl ans by (simp add: on_forkchoice_message_def forkchoice_taken_def)
  next
    case (Inr o')
    let ?st = "forkchoice_status_of L (tree_outcome.outcome o')"
    define t2 where "t2 = emit_event (ForkchoiceUpdated state ?st)
      (t\<lparr>forkchoice_state_tracker := tracker_set_latest L state ?st (forkchoice_state_tracker t)\<rparr>)"
    have t2: "tree_inv L keys ents rk U t2" "stored t2 = stored t" "canonical_head t2 = canonical_head t"
      using t(1) by (auto simp: t2_def tree_inv_def emit_event_def)
    have "stores_checked L F rc (tree e) t2"
      using stores_checked_step [OF t(2), of F rc] t2(2) by (simp add: stores_checked_def)
    note run1 = engine_run_tree [OF ok t2(1) this]
    obtain e2 where e2: "on_maybe_tree_event L (event o') (e\<lparr>tree := t2\<rparr>) = Some e2"
      "engine_run L F keys ents rk U rc (e\<lparr>tree := t2\<rparr>) e2"
      "responses e2 = responses e" "parked e2 = parked e"
      using on_maybe_tree_event_run [OF env engine_run_ok [OF run1], where rc = rc and ev = "event o'"] by auto
    have head: "event o' = None \<Longrightarrow> canonical_head (tree e2) = canonical_head t"
      using e2(1) t2(3) by (auto simp: on_maybe_tree_event_def)
    have "on_forkchoice_message L tx state attrs v e = Some (?send e2)"
      using f Inr e2(1) by (simp add: on_forkchoice_message_def t2_def Let_def)
    moreover have "engine_run L F keys ents rk U rc e (?send e2)"
      using engine_run_trans [OF run1 e2(2)] by simp
    moreover have "forkchoice_taken tx state e (?send e2)"
      using Inr ans head e2(3,4)
      by (cases "tree_outcome.outcome o'") (auto simp: forkchoice_taken_def fcu_answer_ok_def)
    ultimately show ?thesis by blast
  qed
qed

text \<open>With no payload parked, a message is taken after those taken before.\<close>

lemma on_engine_message_run:
  assumes env: "engine_env L keys ents rk U rc" and ok: "engine_ok L F keys ents rk U e"
    and p: "parked e = None"
  shows "\<exists>e'. on_engine_message L now m e = Some e' \<and> engine_run L F keys ents rk U rc e e' \<and>
    ledger e' = ledger e @ [tx_of m]"
proof (cases m)
  case (NewPayload tx x)
  then show ?thesis
    using on_new_payload_message_run [OF env ok, of now tx x] p
    by (auto simp: on_engine_message_def tx_of_def payload_taken_def ledger_def parked_payload_new_def)
next
  case (ForkchoiceUpdate tx state attrs v)
  have "tree_env L keys ents rk U" using env by (simp add: engine_env_def)
  from on_forkchoice_message_run [OF this ok, of tx state attrs v rc] show ?thesis
    using ForkchoiceUpdate p
    by (auto simp: on_engine_message_def tx_of_def forkchoice_taken_def ledger_def)
qed

section \<open>The loop\<close>

text \<open>
  What an iteration, and a poll made of iterations, keeps. Taken messages stay at the front of the
  queue, so that each is answered once, in the order they arrive.
\<close>

definition poll_ok ::
  "('p, 'x, 'e, 'a, 'i, 'f, 'l) tree_lib \<Rightarrow> 'p fetch_lib \<Rightarrow> ('l \<Rightarrow> b256 list) \<Rightarrow>
     ('i \<Rightarrow> b256 \<rightharpoonup> block_with_parent) \<Rightarrow> (b256 \<Rightarrow> nat) \<Rightarrow> recovered_block set \<Rightarrow>
     (sealed_block \<Rightarrow> recovered_block option) \<Rightarrow> ('x, 'a) engine_message list \<Rightarrow>
     ('p, 'i, 'f, 'l) engine \<Rightarrow> ('x, 'a) engine_message list \<Rightarrow> ('p, 'i, 'f, 'l) engine \<Rightarrow> bool" where
  "poll_ok L F keys ents rk U rc ms e ms' e' \<longleftrightarrow>
     engine_ok L F keys ents rk U e' \<and> stores_checked L F rc (tree e) (tree e') \<and>
     ledger e' @ map tx_of ms' = ledger e @ map tx_of ms"

lemma poll_ok_trans:
  "poll_ok L F keys ents rk U rc ms e ms' e' \<Longrightarrow> poll_ok L F keys ents rk U rc ms' e' ms'' e'' \<Longrightarrow>
     poll_ok L F keys ents rk U rc ms e ms'' e''"
  unfolding poll_ok_def using stores_checked_trans by metis

text \<open>How a poll ends.\<close>

definition poll_end ::
  "insert_block_fatal_error poll \<Rightarrow> ('x, 'a) engine_message list \<Rightarrow> ('p, 'i, 'f, 'l) engine \<Rightarrow> bool" where
  "poll_end p ms e \<longleftrightarrow>
     (case p of
        Pending \<Rightarrow> (ms = [] \<or> parked e \<noteq> None) \<and> outcomes (downloader e) = []
      | Ready err \<Rightarrow> err = FatalProvider SenderRecoveryError
      | Panicked \<Rightarrow> False)"

lemma engine_iteration_run:
  assumes env: "engine_env L keys ents rk U rc" and ok: "engine_ok L F keys ents rk U e"
  shows "\<exists>r ms' e'. engine_iteration L F rc pe ms e = Some (r, ms', e') \<and>
    poll_ok L F keys ents rk U rc ms e ms' e' \<and>
    (case r of
       Some p \<Rightarrow> poll_end p ms' e'
     | None \<Rightarrow> env_answers pe = no_answers \<longrightarrow>
         length (outcomes (downloader e')) + length ms' < length (outcomes (downloader e)) + length ms)"
proof -
  have dok: "downloader_ok F (downloader e)" and inv: "tree_inv L keys ents rk U (tree e)"
    using ok by (simp_all add: engine_ok_def)
  obtain q d where q: "poll_downloader F (env_answers pe) (downloader e) = Some (q, d)"
    "downloader_ok F d" and qs: "case q of
       Ready x \<Rightarrow> good_data F x \<and> downloads (downloader e) = add_mset (download_of x) (downloads d)
     | Pending \<Rightarrow> outcomes d = [] \<and> downloads (downloader e) = downloads d
     | Panicked \<Rightarrow> False"
    using poll_downloader_ok [OF dok] by blast
  let ?e = "e\<lparr>downloader := d\<rparr>"
  have ok1: "engine_ok L F keys ents rk U ?e" using inv q(2) by (simp add: engine_ok_def)
  show ?thesis
  proof (cases q)
    case (Ready x)
    then have good: "good_data F x" using qs by simp
    obtain fatal e' where o': "on_download_outcome L rc x ?e = Some (fatal, e')"
      "engine_run L F keys ents rk U rc ?e e'" "ledger e' = ledger ?e"
      "fatal \<noteq> None \<longrightarrow> (\<exists>y hs. x = FinalizedBlockData y hs \<and> rc y = None \<and> e' = ?e)"
      using on_download_outcome_run [OF env ok1 good] by blast
    have err: "fatal = Some err \<Longrightarrow> err = FatalProvider SenderRecoveryError" for err
      using o'(1,4) by (auto simp: on_download_outcome_def)
    have less: "length (outcomes d) < length (outcomes (downloader e))" if "env_answers pe = no_answers"
    proof (cases "outcomes (downloader e)")
      case Nil
      then show ?thesis
        using poll_downloader_quiet [OF dok] q(1) Ready that by auto
    next
      case (Cons y ys)
      then show ?thesis using q(1) by (auto simp: poll_downloader_def pop_outcome_def)
    qed
    have "engine_iteration L F rc pe ms e = Some (map_option Ready fatal, ms, e')"
      using q(1) Ready o'(1) by (simp add: engine_iteration_def)
    moreover have "poll_ok L F keys ents rk U rc ms e ms e'"
      using o'(2,3) by (simp add: poll_ok_def engine_run_def)
    ultimately show ?thesis
      using o'(2) err less by (cases fatal) (auto simp: poll_end_def engine_run_def)
  next
    case Pending
    obtain go e1 where c: "check_parked (env_now pe) ?e = (go, e1)"
      by (cases "check_parked (env_now pe) ?e")
    have e1: "tree e1 = tree e" "downloader e1 = d" "ledger e1 = ledger e" "parked e1 = None \<longleftrightarrow> go"
      using c by (auto simp: check_parked_def ledger_def split: option.splits if_splits)
    have ok2: "engine_ok L F keys ents rk U e1" using ok1 e1 by (simp add: engine_ok_def)
    have out: "outcomes d = []" using qs Pending by simp
    show ?thesis
    proof (cases "\<not> go \<or> ms = []")
      case True
      then have "engine_iteration L F rc pe ms e = Some (Some Pending, ms, e1)"
        using q(1) Pending c by (cases go; auto simp: engine_iteration_def)
      then show ?thesis using True ok2 e1 out by (auto simp: poll_ok_def poll_end_def)
    next
      case False
      then obtain m ms' where ms: "ms = m # ms'" by (cases ms) auto
      obtain e' where e': "on_engine_message L (env_now pe) m e1 = Some e'"
        "engine_run L F keys ents rk U rc e1 e'" "ledger e' = ledger e1 @ [tx_of m]"
        using on_engine_message_run [OF env ok2] e1(4) False by blast
      have "engine_iteration L F rc pe ms e = Some (None, ms', e')"
        using q(1) Pending c False ms e'(1) by (simp add: engine_iteration_def)
      then show ?thesis
        using e' e1 ms out by (auto simp: poll_ok_def engine_run_def)
    qed
  next
    case Panicked
    then show ?thesis using qs by simp
  qed
qed

lemma poll_engine_run:
  assumes env: "engine_env L keys ents rk U rc"
  shows "engine_ok L F keys ents rk U e \<Longrightarrow>
    \<exists>p ms' e'. poll_engine L F rc now envs ms e = Some (p, ms', e') \<and>
      poll_ok L F keys ents rk U rc ms e ms' e' \<and> poll_end p ms' e'"
proof (induction "(length envs, length (outcomes (downloader e)) + length ms)"
    arbitrary: now envs ms e rule: wf_induct_rule [OF wf_lex_prod [OF wf_less_than wf_less_than]])
  case 1
  obtain r ms1 e1 where i: "engine_iteration L F rc (env_hd now envs) ms e = Some (r, ms1, e1)"
    "poll_ok L F keys ents rk U rc ms e ms1 e1"
    and fin: "case r of
       Some p \<Rightarrow> poll_end p ms1 e1
     | None \<Rightarrow> env_answers (env_hd now envs) = no_answers \<longrightarrow>
         length (outcomes (downloader e1)) + length ms1 < length (outcomes (downloader e)) + length ms"
    using engine_iteration_run [OF env "1.prems", of "env_hd now envs" ms] by blast
  show ?case
  proof (cases r)
    case (Some p)
    then show ?thesis using i fin by (simp add: poll_engine.simps)
  next
    case None
    have less: "((length (tl envs), length (outcomes (downloader e1)) + length ms1),
        length envs, length (outcomes (downloader e)) + length ms) \<in>
      less_than <*lex*> less_than"
      using fin None by (cases envs) (auto simp: env_hd_def quiet_env_def)
    have "engine_ok L F keys ents rk U e1" using i(2) by (simp add: poll_ok_def)
    from "1.hyps" [OF less this, of "env_now (env_hd now envs)"] show ?thesis
      using i None poll_ok_trans by (fastforce simp: poll_engine.simps)
  qed
qed

end
