(* ===== verification/Engine_Props.thy ===== *)
theory Engine_Props
  imports Engine_Facts Tree_Props
begin

text \<open>
  The properties of the engine: its polls return, answer every message once and in order, and store
  only checked blocks; with a run of a launched engine that parks a payload and answers it.
\<close>

section \<open>Reachable engines\<close>

text \<open>
  The states of a launched engine, with the messages still in its channel and the response channels
  of all messages the channel has received, in order.
\<close>

inductive engine_reachable ::
  "('p, 'x, 'e, 'a, 'i, 'f, 'l) tree_lib \<Rightarrow> 'p fetch_lib \<Rightarrow>
     (sealed_block \<Rightarrow> recovered_block option) \<Rightarrow> chain_spec \<Rightarrow>
     ('p, 'i, 'f, 'l) engine \<Rightarrow> ('x, 'a) engine_message list \<Rightarrow> nat list \<Rightarrow> bool"
  for L :: "('p, 'x, 'e, 'a, 'i, 'f, 'l) tree_lib" and F rc spec where
  engine_start: "engine_reachable L F rc spec (engine_new L (launch_provider spec)) [] []"
| engine_receive: "engine_reachable L F rc spec e ms received \<Longrightarrow>
    engine_reachable L F rc spec e (ms @ [m]) (received @ [tx_of m])"
| engine_poll: "engine_reachable L F rc spec e ms received \<Longrightarrow>
    poll_engine L F rc now envs ms e = Some (p, ms', e') \<Longrightarrow> engine_reachable L F rc spec e' ms' received"

lemma engine_new_ok:
  assumes "tree_env L keys ents rk U" and "genesis_block spec \<in> U"
  shows "engine_ok L F keys ents rk U (engine_new L (launch_provider spec))"
  using launch_tree_inv [OF assms] downloader_new_ok(1)
  by (simp add: engine_ok_def engine_new_def launch_tree_def)

lemma engine_reachable_ok:
  assumes env: "engine_env L keys ents rk U rc" and g: "genesis_block spec \<in> U"
    and r: "engine_reachable L F rc spec e ms received"
  shows "engine_ok L F keys ents rk U e \<and> received = ledger e @ map tx_of ms \<and>
    (\<forall>h b. stored (tree e) h = Some b \<longrightarrow>
       b = genesis_block spec \<or> accepted L b \<or> trusted F rc b)"
  using r
proof (induction rule: engine_reachable.induct)
  case engine_start
  have "tree_env L keys ents rk U" using env by (simp add: engine_env_def)
  from engine_new_ok [OF this g, of F] show ?case
    by (simp add: engine_new_def ledger_def flip: launch_tree_def) (simp add: launch_tree_sel)
next
  case (engine_receive e ms received m)
  then show ?case by simp
next
  case (engine_poll e ms received now envs p ms' e')
  then have "poll_ok L F keys ents rk U rc ms e ms' e'"
    using poll_engine_run [OF env, of F e now envs ms] by auto
  then show ?case using engine_poll.IH unfolding poll_ok_def stores_checked_def by metis
qed

text \<open>A proof that arrives while its block is in the buffer answers the payload parked for it.\<close>

lemma proof_answers_parked:
  assumes "engine_env L keys ents rk U rc" and "engine_ok L F keys ents rk U e"
    and "parked e = Some p" and "buffered (tree e) (parked_block_hash p) \<noteq> None"
  shows "\<exists>e' res. on_download_outcome L rc (ProofData (parked_block_hash p) w) e = Some (None, e') \<and>
    parked e' = None \<and> responses e' = responses e @ [(parked_tx p, PayloadResponse res)] \<and>
    (\<forall>st. res = Inr st \<longrightarrow> status st = StatusValid \<longrightarrow> stored (tree e') (parked_block_hash p) \<noteq> None)"
proof -
  let ?h = "parked_block_hash p"
  let ?e = "e\<lparr>tree := (tree e)\<lparr>block_buffer := insert_proof ?h w (block_buffer (tree e))\<rparr>\<rparr>"
  have env: "tree_env L keys ents rk U" using assms(1) by (simp add: engine_env_def)
  have ok: "engine_ok L F keys ents rk U ?e"
    using assms(2) unfolding engine_ok_def by (auto intro: tree_inv_insert_proof)
  have "buffered (tree ?e) ?h \<noteq> None" "buffer_proof (block_buffer (tree ?e)) ?h \<noteq> None"
    using assms(4) by (simp_all add: insert_proof_def buffer_proof_def)
  then obtain e' where "insert_unlocked L ?h ?e = Some e'" "parked e' = None"
    "\<exists>res. responses e' = responses ?e @ [(parked_tx p, PayloadResponse res)] \<and>
       (\<forall>st. res = Inr st \<longrightarrow> status st = StatusValid \<longrightarrow> stored (tree e') ?h \<noteq> None)"
    using insert_unlocked_run [OF env ok, of ?h] assms(3) by fastforce
  then show ?thesis by (auto simp: on_download_outcome_def)
qed

section \<open>Properties\<close>

text \<open>
  C2: whatever the network answers and however long it is polled, the engine answers every message it
  has received exactly once and in the order of the messages, but for those still in the channel and
  one payload that may be parked.
\<close>

theorem engine_answers_in_order:
  assumes "engine_env L keys ents rk U rc" and "genesis_block spec \<in> U"
    and "engine_reachable L F rc spec e ms received"
  shows "received = map fst (responses e) @
    (case parked e of None \<Rightarrow> [] | Some p \<Rightarrow> [parked_tx p]) @ map tx_of ms"
  using engine_reachable_ok [OF assms] by (simp add: ledger_def)

text \<open>
  C3: a poll of a reachable engine returns, without a panic. It is pending only when no outcome of
  a download waits and the channel is empty or a payload is parked; its one error is a finalized
  block whose senders cannot be recovered.
\<close>

theorem engine_poll_returns:
  assumes "engine_env L keys ents rk U rc" and "genesis_block spec \<in> U"
    and "engine_reachable L F rc spec e ms received"
  shows "\<exists>p ms' e'. poll_engine L F rc now envs ms e = Some (p, ms', e') \<and>
    (case p of
       Pending \<Rightarrow> (ms' = [] \<or> parked e' \<noteq> None) \<and> outcomes (downloader e') = []
     | Ready err \<Rightarrow> err = FatalProvider SenderRecoveryError
     | Panicked \<Rightarrow> False)"
  using poll_engine_run [OF assms(1), of F e now envs ms] engine_reachable_ok [OF assms]
  unfolding poll_end_def by blast

text \<open>
  Every block the tree of a reachable engine stores is genesis, or passed the consensus and the
  verifier on top of its parent, or was downloaded as the finalized block with the hash asked for, a
  body that fits its header and a checked range of headers down from its parent.
\<close>

theorem engine_stores_checked:
  assumes "engine_env L keys ents rk U rc" and "genesis_block spec \<in> U"
    and "engine_reachable L F rc spec e ms received" and "stored (tree e) h = Some b"
  shows "b = genesis_block spec \<or> accepted L b \<or>
    (\<exists>x hs. rc x = Some b \<and> hash_slow F (clone_header x) = hash x \<and>
       validate_body_against_header F (body x) (clone_sealed_header x) = None \<and>
       256 \<le> length hs \<and> hash (hd hs) = parent_hash x \<and> validate_header_range F (rev hs) = None)"
proof -
  have "b = genesis_block spec \<or> accepted L b \<or> trusted F rc b"
    using engine_reachable_ok [OF assms(1-3)] assms(4) by blast
  then show ?thesis
    by (auto simp: trusted_def good_with_ancestors_def good_block_def good_headers_def)
qed

text \<open>
  C18: a new payload is either parked, with its block in the buffer and the download of its proof in
  flight, or answered at once. \<open>VALID\<close> then means
  that the block is stored, \<open>SYNCING\<close> that it is in the buffer and the download of a missing block is
  in flight.
\<close>

theorem payload_parked_or_answered:
  assumes "engine_env L keys ents rk U rc" and "engine_ok L F keys ents rk U e"
  shows "\<exists>e'. on_new_payload_message L now tx x e = Some e' \<and> engine_ok L F keys ents rk U e' \<and>
    payload_taken now tx (payload_block_hash L x) e e'"
  using on_new_payload_message_run [OF assms, of now tx x] unfolding engine_run_def by blast

text \<open>
  When the proof of a parked payload arrives while its block is in the buffer, the payload is
  answered; \<open>VALID\<close> again means that the block is stored.
\<close>

theorem parked_payload_answered:
  assumes "engine_env L keys ents rk U rc" and "engine_ok L F keys ents rk U e"
    and "parked e = Some p" and "buffered (tree e) (parked_block_hash p) \<noteq> None"
  shows "\<exists>e' res. on_download_outcome L rc (ProofData (parked_block_hash p) w) e = Some (None, e') \<and>
    parked e' = None \<and> responses e' = responses e @ [(parked_tx p, PayloadResponse res)] \<and>
    (\<forall>st. res = Inr st \<longrightarrow> status st = StatusValid \<longrightarrow> stored (tree e') (parked_block_hash p) \<noteq> None)"
  using proof_answers_parked [OF assms] .

text \<open>
  An update of the forkchoice is answered at once, also while the head is unknown: \<open>VALID\<close> names
  the head, which is then the canonical head or was stored; \<open>SYNCING\<close> means it was not stored.
\<close>

theorem forkchoice_message_answered:
  assumes "tree_env L keys ents rk U" and "engine_ok L F keys ents rk U e"
  shows "\<exists>e'. on_forkchoice_message L tx state attrs v e = Some e' \<and>
    engine_ok L F keys ents rk U e' \<and> forkchoice_taken tx state e e'"
  using on_forkchoice_message_run [OF assms, of tx state attrs v] unfolding engine_run_def by blast

text \<open>
  While a payload is parked and nothing arrives, the engine takes no message from the channel;
  when the timer runs out it answers \<open>SYNCING\<close> and takes the next message.
\<close>

theorem parked_engine_waits:
  assumes "downloader_ok F (downloader e)" and "outcomes (downloader e) = []"
    and "parked e = Some p" and "env_answers pe = no_answers"
  shows "\<exists>e'. tree e' = tree e \<and>
    (if timeout_ready (env_now pe) p
     then parked e' = None \<and> responses e' = responses e @
         [(parked_tx p, PayloadResponse (Inr (payload_status_from_status StatusSyncing)))] \<and>
       engine_iteration L F rc pe ms e =
         (case ms of
            [] \<Rightarrow> Some (Some Pending, [], e')
          | m # ms' \<Rightarrow> map_option (\<lambda>e. (None, ms', e)) (on_engine_message L (env_now pe) m e'))
     else parked e' = Some p \<and> responses e' = responses e \<and>
       engine_iteration L F rc pe ms e = Some (Some Pending, ms, e'))"
proof -
  obtain d where d: "poll_downloader F no_answers (downloader e) = Some (Pending, d)"
    using poll_downloader_quiet [OF assms(1,2)] by blast
  let ?e = "e\<lparr>downloader := d\<rparr>"
  let ?t = "send_response (parked_tx p)
    (PayloadResponse (Inr (payload_status_from_status StatusSyncing))) (?e\<lparr>parked := None\<rparr>)"
  show ?thesis
  proof (cases "timeout_ready (env_now pe) p")
    case True
    have "engine_iteration L F rc pe ms e =
        (case ms of
            [] \<Rightarrow> Some (Some Pending, [], ?t)
          | m # ms' \<Rightarrow> map_option (\<lambda>e. (None, ms', e)) (on_engine_message L (env_now pe) m ?t))"
      using d assms(3,4) True
      by (cases ms) (simp_all add: engine_iteration_def check_parked_def map_option_bind bind_map_option comp_def
          split: Option.bind_splits)
    then show ?thesis using True by (intro exI [of _ ?t]) simp
  next
    case False
    then show ?thesis
      using d assms(3,4) by (intro exI [of _ ?e]) (simp add: engine_iteration_def check_parked_def)
  qed
qed

text \<open>
  C36: a downloaded finalized block below the canonical head becomes the head, but the canonical
  hashes above it stay: the chain of the engine is then no canonical chain.
\<close>

theorem finalized_keeps_stale_hashes:
  assumes "rc x = Some b" and "canonical (chain_state_of (provider (tree e))) k = Some h"
    and "number b < k" and "\<forall>a \<in> set hs. number a < k"
    and "buffered (tree e) (hash x) = None"
  shows "\<exists>e'. on_download_outcome L rc (FinalizedBlockData x hs) e = Some (None, e') \<and>
    canonical_head (tree e') = num_hash b \<and> provider_is_hash_canonical (provider (tree e')) h \<and>
    \<not> canonical_chain (chain_state_of (provider (tree e'))) (canonical_head (tree e'))"
proof -
  let ?t = "insert_finalized b hs (tree e)"
  have can: "canonical (chain_state_of (foldl
      (\<lambda>pr a. provider_insert_canonical_hash (number a) (hash a) pr) pr hs)) k =
      canonical (chain_state_of pr) k" for pr :: "'a provider"
    using assms(4) by (induction hs arbitrary: pr) (auto simp: map_specs)
  have k: "canonical (chain_state_of (provider ?t)) k = Some h"
    using assms(2,3) by (auto simp: insert_finalized_def Let_def can set_canonical_head_def map_specs)
  have "remove_block (buffer_ops L) (hash x) (block_buffer ?t) = (None, block_buffer ?t)"
    using assms(5) by (simp add: remove_block_alt)
  then have "on_download_outcome L rc (FinalizedBlockData x hs) e = Some (None, e\<lparr>tree := ?t\<rparr>)"
    using assms(1) by (simp add: on_download_outcome_def insert_unlocked_def Let_def)
  moreover have "\<not> canonical_chain (chain_state_of (provider ?t)) (canonical_head ?t)"
    using k assms(3) unfolding canonical_chain_def by (auto simp: num_hash_def)
  ultimately show ?thesis using k by (auto simp: is_hash_canonical_iff)
qed

section \<open>A concrete engine\<close>

definition ex_fetch :: "nat fetch_lib" where
  "ex_fetch = fits_number\<lparr>hash_slow := (\<lambda>h. ucast (number h) + 10)\<rparr>"

definition ex_recover :: "sealed_block \<Rightarrow> recovered_block option" where
  "ex_recover x = List.find (\<lambda>b. hash b = hash x) ex_universe"

lemma ex_engine_env: "engine_env ex_lib list_lru_keys fmlookup unat (set ex_universe) ex_recover"
  unfolding engine_env_def recover_laws_def ex_recover_def
  using ex_env ex_payload_laws by (auto simp: find_Some_iff)

type_synonym ex_engine_type =
  "(nat, (b256, block_with_parent) fmap, forkchoice_state option, b256 list \<times> u32) engine"

definition ex_engine :: ex_engine_type where
  "ex_engine = engine_new ex_lib (launch_provider ex_spec)"

text \<open>A payload for the block 11, and a forkchoice update that makes it the head.\<close>

definition ex_messages :: "(recovered_block, unit) engine_message list" where
  "ex_messages = [NewPayload 1 (mk_block 1 11 10),
     ForkchoiceUpdate 2 \<lparr>head_block_hash = 11, safe_block_hash = 0, finalized_block_hash = 0\<rparr> None 3]"

text \<open>The proof of the block 11 arrives after an iteration without answers.\<close>

definition ex_proof_env :: poll_env where
  "ex_proof_env = (quiet_env 20)\<lparr>env_answers := no_answers\<lparr>proof_answers :=
     (\<lambda>h. no_polls\<lparr>proof_polls := [Ready (Inr [1])]\<rparr>)\<rparr>\<rparr>"


section \<open>Concrete instances\<close>

lemma ex_genesis_mem: "genesis_block ex_spec \<in> set ex_universe"
  by (simp add: ex_genesis ex_universe_def)

lemma ex_engine_ok: "engine_ok ex_lib ex_fetch list_lru_keys fmlookup unat (set ex_universe) ex_engine"
  unfolding ex_engine_def by (rule engine_new_ok [OF ex_env ex_genesis_mem])

text \<open>The engine after the two messages, and the one that has parked the payload.\<close>

definition ex_answered :: ex_engine_type where
  "ex_answered = snd (snd (the (poll_engine ex_lib ex_fetch ex_recover 0 [quiet_env 0, ex_proof_env]
     ex_messages ex_engine)))"

definition ex_parked :: ex_engine_type where
  "ex_parked = the (on_new_payload_message ex_lib 0 1 (mk_block 1 11 10) ex_engine)"

lemma ex_poll:
  "poll_engine ex_lib ex_fetch ex_recover 0 [quiet_env 0, ex_proof_env] ex_messages ex_engine =
     Some (Pending, [], ex_answered)"
  "responses ex_answered = [(1, PayloadResponse (Inr (payload_status_new StatusValid (Some 11)))),
     (2, ForkchoiceResponse (Inr (FcuValid (payload_status_new StatusValid (Some 11)))))]"
  "parked ex_answered = None" "stored (tree ex_answered) 11 = Some (mk_block 1 11 10)"
proof -
  let ?r = "poll_engine ex_lib ex_fetch ex_recover 0 [quiet_env 0, ex_proof_env] ex_messages ex_engine"
  have "map_option (\<lambda>(p, ms, e). (p, length ms)) ?r = Some (Pending, 0)" by code_simp
  then show "?r = Some (Pending, [], ex_answered)" by (auto simp: ex_answered_def)
qed code_simp+

lemma ex_answered_reachable:
  "engine_reachable ex_lib ex_fetch ex_recover ex_spec ex_answered [] [1, 2]"
proof -
  have "engine_reachable ex_lib ex_fetch ex_recover ex_spec ex_engine (([] @ [ex_messages ! 0]) @ [ex_messages ! 1])
      (([] @ [tx_of (ex_messages ! 0)]) @ [tx_of (ex_messages ! 1)])"
    unfolding ex_engine_def by (intro engine_reachable.intros)
  then have "engine_reachable ex_lib ex_fetch ex_recover ex_spec ex_engine ex_messages [1, 2]"
    by (simp add: ex_messages_def tx_of_def)
  then show ?thesis using ex_poll(1) by (rule engine_poll)
qed

theorem engine_answers_witness:
  "[1, 2] = map fst (responses ex_answered) @ [] @ map tx_of ([] :: (recovered_block, unit) engine_message list)"
  using engine_answers_in_order [OF ex_engine_env ex_genesis_mem ex_answered_reachable] ex_poll(3) by simp

theorem engine_poll_witness:
  "\<exists>ms' e'. poll_engine ex_lib ex_fetch ex_recover 0 [] [] ex_answered = Some (Pending, ms', e') \<and>
     outcomes (downloader e') = []"
proof -
  have "case poll_engine ex_lib ex_fetch ex_recover 0 [] [] ex_answered of
      Some (Pending, _, _) \<Rightarrow> True | _ \<Rightarrow> False" by code_simp
  then show ?thesis
    using engine_poll_returns [OF ex_engine_env ex_genesis_mem ex_answered_reachable, of 0 "[]"]
    by (auto split: option.splits poll.splits)
qed

theorem engine_stores_witness:
  "stored (tree ex_answered) 11 = Some (mk_block 1 11 10) \<and>
   (accepted ex_lib (mk_block 1 11 10) \<or> (\<exists>x. ex_recover x = Some (mk_block 1 11 10)))"
proof -
  have "mk_block 1 11 10 \<noteq> genesis_block ex_spec"
    by (simp add: ex_genesis) (simp add: mk_block_def Let_def)
  then show ?thesis
    using engine_stores_checked [OF ex_engine_env ex_genesis_mem ex_answered_reachable ex_poll(4)] ex_poll(4)
    by blast
qed

lemma ex_parked_payload:
  "on_new_payload_message ex_lib 0 1 (mk_block 1 11 10) ex_engine = Some ex_parked"
  "parked ex_parked = Some (parked_payload_new 11 1 3000 0)" "responses ex_parked = []"
  "buffered (tree ex_parked) 11 = Some (mk_block 1 11 10)" "outcomes (downloader ex_parked) = []"
proof -
  have "on_new_payload_message ex_lib 0 1 (mk_block 1 11 10) ex_engine \<noteq> None" by code_simp
  then show "on_new_payload_message ex_lib 0 1 (mk_block 1 11 10) ex_engine = Some ex_parked"
    by (auto simp: ex_parked_def)
qed code_simp+

theorem payload_parked_witness:
  "on_new_payload_message ex_lib 0 1 (mk_block 1 11 10) ex_engine = Some ex_parked \<and>
   parked ex_parked = Some (parked_payload_new 11 1 3000 0) \<and>
   (ProofTy, 11) \<in># inflight (downloader ex_parked)"
proof -
  have "payload_block_hash ex_lib (mk_block 1 11 10) = 11" by (simp add: ex_lib_def)
  then have "payload_taken 0 1 11 ex_engine ex_parked"
    using payload_parked_or_answered [OF ex_engine_env ex_engine_ok, of 0 1 "mk_block 1 11 10"]
      ex_parked_payload(1) by auto
  moreover have "parked ex_engine = None" by (simp add: ex_engine_def engine_new_def)
  ultimately show ?thesis using ex_parked_payload(1,2) by (auto simp: payload_taken_def)
qed

lemma ex_parked_ok: "engine_ok ex_lib ex_fetch list_lru_keys fmlookup unat (set ex_universe) ex_parked"
  using on_new_payload_message_run [OF ex_engine_env ex_engine_ok, of 0 1 "mk_block 1 11 10"]
    ex_parked_payload(1) by (auto simp: engine_run_def)

theorem parked_payload_witness:
  "\<exists>e'. on_download_outcome ex_lib ex_recover (ProofData 11 7) ex_parked = Some (None, e') \<and>
     parked e' = None \<and>
     responses e' = [(1, PayloadResponse (Inr (payload_status_new StatusValid (Some 11))))] \<and>
     stored (tree e') 11 \<noteq> None"
proof -
  have "case on_download_outcome ex_lib ex_recover (ProofData 11 7) ex_parked of
      Some (_, e') \<Rightarrow> responses e' = [(1, PayloadResponse (Inr (payload_status_new StatusValid (Some 11))))]
    | None \<Rightarrow> False" by code_simp
  then show ?thesis
    using parked_payload_answered [OF ex_engine_env ex_parked_ok ex_parked_payload(2), of 7]
      ex_parked_payload(3,4)
    by (auto simp: payload_status_new_def)
qed

theorem forkchoice_message_witness:
  "\<exists>e'. on_forkchoice_message ex_lib 2 \<lparr>head_block_hash = 99, safe_block_hash = 0, finalized_block_hash = 0\<rparr>
     None 3 ex_parked = Some e' \<and> parked e' = parked ex_parked \<and> length (responses e') = 1"
  using forkchoice_message_answered [OF ex_env ex_parked_ok, of 2
      "\<lparr>head_block_hash = 99, safe_block_hash = 0, finalized_block_hash = 0\<rparr>" None 3] ex_parked_payload(3)
  by (auto simp: forkchoice_taken_def)

theorem parked_engine_witness:
  "\<exists>e'. engine_iteration ex_lib ex_fetch ex_recover (quiet_env 3000) [] ex_parked =
       Some (Some Pending, [], e') \<and> parked e' = None \<and>
     responses e' = [(1, PayloadResponse (Inr (payload_status_from_status StatusSyncing)))]"
proof -
  have "downloader_ok ex_fetch (downloader ex_parked)" using ex_parked_ok by (simp add: engine_ok_def)
  then show ?thesis
    using parked_engine_waits [where e = ex_parked and F = ex_fetch and L = ex_lib and rc = ex_recover
        and pe = "quiet_env 3000" and ms = "[]"] ex_parked_payload(2,3,5)
    by (auto simp: quiet_env_def timeout_ready_def parked_payload_new_def)
qed

definition ex_other_fork :: ex_engine_type where
  "ex_other_fork = ex_engine\<lparr>tree := ex_fcu 13 0 (ex_download (mk_block 3 13 12) ex_tree)\<rparr>"

theorem finalized_stale_witness:
  "\<exists>e'. on_download_outcome ex_lib ex_recover
       (FinalizedBlockData (clone_sealed_block (mk_block 2 22 11)) []) ex_other_fork = Some (None, e') \<and>
     canonical_head (tree e') = num_hash (mk_block 2 22 11) \<and>
     provider_is_hash_canonical (provider (tree e')) 13"
proof -
  have "canonical (chain_state_of (provider (tree ex_other_fork))) 3 = Some 13" by code_simp
  moreover have "ex_recover (clone_sealed_block (mk_block 2 22 11)) = Some (mk_block 2 22 11)" by code_simp
  moreover have "buffered (tree ex_other_fork) (hash (clone_sealed_block (mk_block 2 22 11))) = None"
    by code_simp
  moreover have "number (mk_block 2 22 11) < 3" by code_simp
  ultimately show ?thesis
    using finalized_keeps_stale_hashes [where rc = ex_recover and e = ex_other_fork and k = 3 and h = 13 and
        b = "mk_block 2 22 11" and x = "clone_sealed_block (mk_block 2 22 11)" and hs = "[]" and L = ex_lib]
    by auto
qed

end
