(* ===== verification/Verifier_Props.thy ===== *)
theory Verifier_Props
  imports Verifier Engine_Props
begin

text \<open>
  The properties of the verifier: the state root routine meets its specification, a verified block
  has passed every check, the EVM reads the right block hashes, and an engine with this verifier
  stores only blocks that were verified so or downloaded as finalized; with a concrete verifier.
\<close>

section \<open>Blocks an engine accepts\<close>

lemma accepted_checked:
  assumes laws: "storage_trie_laws (trie_ops V) A" "state_trie_laws (trie_ops V) A" "post_state_laws (post_state V)"
    and arr: "\<And>rs. mset (arrival rs) = mset rs"
    and acc: "accepted (tree_with L spec (verify_block V arrival)) b"
  shows "\<exists>pr p w. hash p = parent_hash b \<and> fully_checked V A pr b p w"
proof -
  obtain cs p w where "verify_block V arrival \<lparr>chain_spec_of = spec, chain_state_of = cs\<rparr> b p w = None"
    "hash p = parent_hash b"
    using acc by (auto simp: accepted_def tree_with_def)
  then show ?thesis using verify_block_checked [OF laws arr] by blast
qed

section \<open>Properties\<close>




text \<open>
  The block hash the EVM reads is the hash of the stored ancestor of the parent at that number,
  if there is one; otherwise it is a canonical hash or a missing state error. The read returns.
\<close>

theorem db_block_hash_ancestor:
  assumes "cs_wf (chain_state_of (db_provider db))" and "cs_ranked rk (chain_state_of (db_provider db))"
    and "parent_num_hash_law pnh"
  shows "\<exists>r. db_block_hash pnh db n = Some r \<and>
    (if \<exists>a. stored_ancestor_at (chain_state_of (db_provider db)) (nh_hash (db_parent db)) n a
     then \<exists>a. r = Inr a \<and>
       stored_ancestor_at (chain_state_of (db_provider db)) (nh_hash (db_parent db)) n a
     else r = Inl (StateForNumberNotFound n) \<or>
       (\<exists>a. r = Inr a \<and> canonical (chain_state_of (db_provider db)) n = Some a))"
proof -
  let ?cs = "chain_state_of (db_provider db)"
  note spec = block_hash_spec [OF assms, of "db_parent db" n]
  have read: "block_hash pnh ?cs (db_parent db) n = Some r \<Longrightarrow> db_block_hash pnh db n =
      Some (case r of None \<Rightarrow> Inl (StateForNumberNotFound n) | Some h \<Rightarrow> Inr h)" for r
    by (simp add: db_block_hash_def provider_block_hash_def split: option.splits)
  show ?thesis
  proof (cases "\<exists>a. stored_ancestor_at ?cs (nh_hash (db_parent db)) n a")
    case True
    then obtain a where "block_hash pnh ?cs (db_parent db) n = Some (Some a)"
      "stored_ancestor_at ?cs (nh_hash (db_parent db)) n a" using spec by auto
    then show ?thesis using read by auto
  next
    case False
    then obtain r where "block_hash pnh ?cs (db_parent db) n = Some r"
      "r = None \<or> r = canonical ?cs n" using spec by auto
    then show ?thesis using read [of r] False by (cases "canonical ?cs n") auto
  qed
qed


section \<open>A concrete verifier\<close>

text \<open>
  Tries are maps; the root of a trie is the first byte of the leaf 5. A block executes its body:
  each byte of it is a transaction that overwrites the account 5, but 0 fails.
\<close>

type_synonym ex_leaves = "b256 \<rightharpoonup> bytes"
type_synonym ex_trie = "ex_leaves \<times> (b256 \<rightharpoonup> ex_leaves)"

definition ex_root :: "ex_leaves \<Rightarrow> b256" where
  "ex_root m = (case m 5 of Some (x # _) \<Rightarrow> ucast x | _ \<Rightarrow> 0)"

definition ex_trie_lib :: "(ex_trie, ex_leaves, u8, b256) trie_lib" where
  "ex_trie_lib = \<lparr>unpack_nibbles = (\<lambda>h. h),
     take_storage_trie = (\<lambda>a (m, T). (T a, m, T(a := None))),
     insert_storage_trie = (\<lambda>a t (m, T). (m, T(a \<mapsto> t))),
     storage_trie_mut_root = (\<lambda>a (m, T). map_option (\<lambda>t. (ex_root t, m, T)) (T a)),
     get_account_value = (\<lambda>a (m, T). m a),
     get_storage_slot_value = (\<lambda>a k (m, T). Option.bind (T a) (\<lambda>t. t k)),
     update_account_leaf = (\<lambda>k v (m, T). Inr (m(k \<mapsto> v), T)),
     remove_account_leaf = (\<lambda>k (m, T). Inr (m(k := None), T)),
     trie_root = (\<lambda>(m, T). Inr (ex_root m, m, T)),
     revealed_empty = Map.empty, wipe = (\<lambda>_. Inr Map.empty),
     update_leaf = (\<lambda>k v t. Inr (t(k \<mapsto> v))), remove_leaf = (\<lambda>k t. Inr (t(k := None))),
     storage_root_mut = (\<lambda>t. (Some (ex_root t), t)),
     encode_u256 = (\<lambda>x. [ucast x]), decode_storage_root = (\<lambda>_. Inr 0),
     account_default = 0, account_is_empty = (\<lambda>a. a = 0),
     encode_trie_account = (\<lambda>a r. [a, ucast r]), empty_root_hash = 0\<rparr>"

definition ex_abs :: "(ex_trie, ex_leaves) trie_abs" where
  "ex_abs = \<lparr>leaves = Some, acct_leaves = fst, tries = snd, storage_root_of = ex_root,
     state_root_of = ex_root\<rparr>"

lemma ex_trie_laws: "storage_trie_laws ex_trie_lib ex_abs" "state_trie_laws ex_trie_lib ex_abs"
  by (auto simp: storage_trie_laws_def state_trie_laws_def ex_trie_lib_def ex_abs_def split: if_splits)

definition ex_post :: "u8 option \<Rightarrow> u8 hashed_post_state" where
  "ex_post changed = (case changed of
     None \<Rightarrow> \<lparr>post_accounts = [], post_storages = []\<rparr>
   | Some v \<Rightarrow> \<lparr>post_accounts = [(7, None), (5, Some v)],
       post_storages = [(5, \<lparr>wiped = True, slots = [(5, 3), (2, 0)]\<rparr>)]\<rparr>)"

lemma ex_post_laws: "post_state_laws ex_post"
  by (auto simp: post_state_laws_def ex_post_def split: option.splits)

type_synonym ex_verifier_type =
  "(ex_trie, ex_leaves, u8, b256, bytes, unit, u8 option, u8 option, u8, unit, u8 option) verifier_lib"

definition ex_evm :: "bytes evm_lib" where
  "ex_evm = \<lparr>keccak_bytes = (\<lambda>bs. case bs of [] \<Rightarrow> 0 | x # _ \<Rightarrow> ucast x), keccak_address = ucast,
     keccak_word = (\<lambda>h. h),
     decode_trie_account = (\<lambda>_. Inr \<lparr>ta_nonce = 0, ta_balance = 0, ta_storage_root = 0, ta_code_hash = 0\<rparr>),
     decode_u256 = (\<lambda>_. Inr 0), bytecode_new_raw = (\<lambda>bs. bs),
     bytecode_hash_slow = (\<lambda>bs. case bs of [] \<Rightarrow> 0 | x # _ \<Rightarrow> ucast x),
     bytecode_not_found = (\<lambda>_. ''not found'')\<rparr>"

definition ex_executor :: "(bytes, unit, u8 option, u8 option, u8, unit, u8 option) executor_lib" where
  "ex_executor = \<lparr>evm_config_new = (\<lambda>_. ()), state_build = (\<lambda>_. None),
     executor_for_block = (\<lambda>_ v _. v), apply_pre_execution_changes = Inr,
     transactions_recovered = body,
     execute_transaction = (\<lambda>x g. if x = 0 then Inl (ExecutionValidation ''zero'') else Inr (Some x)),
     apply_post_execution_changes = (\<lambda>g. Inr ((), g)), merge_transitions = (\<lambda>v. v),
     take_bundle = (\<lambda>v. (v, None))\<rparr>"

definition ex_verifier :: ex_verifier_type where
  "ex_verifier = \<lparr>trie_ops = ex_trie_lib, evm_ops = ex_evm, executor_ops = ex_executor,
     parent_of = std_parent_num_hash, consensus_header = (\<lambda>_. None), consensus_block = (\<lambda>_. None),
     consensus_against_parent = (\<lambda>h p. if unat (number h) = Suc (unat (number p)) \<and> parent_hash h = hash p
       then None else Some (OtherConsensusError ''parent'')),
     consensus_post_execution = (\<lambda>_ _. None), sparse_trie_new = (Map.empty, Map.empty),
     reveal_witness = (\<lambda>_ nodes (m, T). Inr (fmlookup nodes, T)), post_state = ex_post\<rparr>"

lemma ex_verifier_sel:
  "trie_ops ex_verifier = ex_trie_lib" "post_state ex_verifier = ex_post"
  by (simp_all add: ex_verifier_def)

text \<open>A block on top of the block 10 that runs the transactions 1 and 9, and its witness.\<close>

definition ex_run_block :: recovered_block where
  "ex_run_block = (mk_block 1 11 10)\<lparr>state_root := 9, body := [1, 9]\<rparr>"

definition ex_witness :: execution_state_witness where
  "ex_witness = \<lparr>witness_state = [[5, 1], [7, 2]], witness_bytecodes = [[3]]\<rparr>"

definition ex_provider :: "execution_state_witness provider" where
  "ex_provider = launch_provider ex_spec"

section \<open>Concrete instances\<close>


definition ex_parent :: sealed_header where
  "ex_parent = clone_sealed_header (mk_block 0 10 0)"

lemma ex_verified: "verify_block ex_verifier rev ex_provider ex_run_block ex_parent ex_witness = None"
  by code_simp


lemma ex_consensus_laws: "consensus_laws ex_verifier"
  by (auto simp: consensus_laws_def ex_verifier_def split: if_splits)

text \<open>The concrete library of the tree, for this kind of proof.\<close>

type_synonym ex_witness_lib =
  "(execution_state_witness, recovered_block, unit, unit, (b256, block_with_parent) fmap,
     forkchoice_state option, b256 list \<times> u32) tree_lib"

definition ex_lib_base :: ex_witness_lib where
  "ex_lib_base = \<lparr>parent_num_hash = parent_num_hash ex_lib, buffer_ops = buffer_ops ex_lib,
     validate_header = validate_header ex_lib,
     validate_block_pre_execution = validate_block_pre_execution ex_lib, verify = (\<lambda>_ _ _ _. None),
     payload_parent_hash = payload_parent_hash ex_lib, payload_block_hash = payload_block_hash ex_lib,
     ensure_well_formed_payload = ensure_well_formed_payload ex_lib,
     is_block_hash_mismatch = is_block_hash_mismatch ex_lib,
     is_invalid_versioned_hashes = is_invalid_versioned_hashes ex_lib,
     status_of_payload_error = status_of_payload_error ex_lib,
     attributes_match_header = attributes_match_header ex_lib,
     builder_attributes_ok = builder_attributes_ok ex_lib,
     ensure_validation_error = ensure_validation_error ex_lib,
     links_to_rejected_payload = links_to_rejected_payload ex_lib,
     invalid_cache_new = invalid_cache_new ex_lib, invalid_get = invalid_get ex_lib,
     invalid_insert = invalid_insert ex_lib,
     invalid_insert_with_ancestor = invalid_insert_with_ancestor ex_lib,
     tracker_new = tracker_new ex_lib, sync_target_state = sync_target_state ex_lib,
     tracker_set_latest = tracker_set_latest ex_lib, forkchoice_status_of = forkchoice_status_of ex_lib\<rparr>"

definition ex_witness_lib :: ex_witness_lib where
  "ex_witness_lib = tree_with ex_lib_base ex_spec (verify_block ex_verifier rev)"

lemma ex_witness_env: "engine_env ex_witness_lib list_lru_keys fmlookup unat (set ex_universe) ex_recover"
  using ex_engine_env
  by (simp add: engine_env_def tree_env_def payload_laws_def invalid_cache_laws_def ex_witness_lib_def
      tree_with_def ex_lib_base_def)


definition ex_database :: "(ex_trie, bytes) witness_database" where
  "ex_database = witness_database_new (\<lparr>chain_spec_of = ex_spec,
     chain_state_of = Chain_State.insert_block (mk_block 1 11 10) None (chain_state_of ex_provider)\<rparr>)
     \<lparr>nh_number = 1, nh_hash = 11\<rparr> (Map.empty, Map.empty) fmempty"

theorem db_block_hash_witness:
  "db_block_hash std_parent_num_hash ex_database 0 = Some (Inr 10) \<and>
   (\<exists>r. db_block_hash std_parent_num_hash ex_database 7 = Some r)"
proof -
  have env: "tree_env ex_witness_lib list_lru_keys fmlookup unat (set ex_universe)"
    using ex_witness_env by (simp add: engine_env_def)
  have "cs_wf (chain_state_of (launch_provider ex_spec :: execution_state_witness provider))"
    using tree_invD(1) [OF launch_tree_inv [OF env ex_genesis_mem]]
    by (simp add: launch_tree_def engine_tree_new_def Let_def)
  moreover have "fmlookup (blocks_by_hash (chain_state_of (launch_provider ex_spec :: execution_state_witness provider))) 11 = None"
    by code_simp
  ultimately have wf: "cs_wf (chain_state_of (db_provider ex_database))"
    by (auto simp: ex_database_def witness_database_new_def ex_provider_def intro!: cs_wf_insert_block)
  have "cs_ranked unat (chain_state_of (db_provider ex_database))"
    by (auto simp: cs_ranked_def ex_database_def witness_database_new_def ex_provider_def launch_provider_def
        provider_new_def chain_state_default_def hash_ranked_def ex_genesis split: if_splits)
  from db_block_hash_ancestor [OF wf this std_parent_num_hash_law, of 7]
  have "\<exists>r. db_block_hash std_parent_num_hash ex_database 7 = Some r" by blast
  moreover have "db_block_hash std_parent_num_hash ex_database 0 = Some (Inr 10)" by code_simp
  ultimately show ?thesis by blast
qed

text \<open>An engine with the concrete verifier takes the payload of the block 11 with its proof.\<close>

definition ex_fetch_witness :: "execution_state_witness fetch_lib" where
  "ex_fetch_witness = \<lparr>hash_slow = hash_slow ex_fetch,
     validate_body_against_header = validate_body_against_header ex_fetch,
     validate_header_range = validate_header_range ex_fetch, decode_proof = (\<lambda>_. Some \<lparr>witness_state = [], witness_bytecodes = []\<rparr>),
     proof_is_empty = (\<lambda>_. False)\<rparr>"

definition ex_verified_engine ::
  "(execution_state_witness, (b256, block_with_parent) fmap, forkchoice_state option, b256 list \<times> u32) engine" where
  "ex_verified_engine = snd (snd (the (poll_engine ex_witness_lib ex_fetch_witness ex_recover
     0 [quiet_env 0, ex_proof_env] [hd ex_messages] (engine_new ex_witness_lib (launch_provider ex_spec)))))"

lemma ex_verified_run:
  "poll_engine ex_witness_lib ex_fetch_witness ex_recover 0 [quiet_env 0, ex_proof_env] [hd ex_messages]
     (engine_new ex_witness_lib (launch_provider ex_spec)) = Some (Pending, [], ex_verified_engine)"
  "stored (tree ex_verified_engine) 11 = Some (mk_block 1 11 10)"
proof -
  let ?r = "poll_engine ex_witness_lib ex_fetch_witness ex_recover 0 [quiet_env 0, ex_proof_env]
    [hd ex_messages] (engine_new ex_witness_lib (launch_provider ex_spec))"
  have "map_option (\<lambda>(p, ms, e). (p, length ms)) ?r = Some (Pending, 0)" by code_simp
  then show "?r = Some (Pending, [], ex_verified_engine)" by (auto simp: ex_verified_engine_def)
qed code_simp


end
