(* ===== verification/Node_Interface.thy ===== *)
theory Node_Interface
  imports Provider
begin

text \<open>
  The outside of the node: the eth RPC methods it answers, \<open>bin/zk-ress/src/rpc.rs\<close>, and its command
  line arguments with the paths and addresses made of them, \<open>bin/zk-ress/src/cli.rs\<close>.
\<close>

section \<open>The eth RPC\<close>

text \<open>
  The methods the engine API asks of the eth namespace; their parameters are not read, so that only
  the method is kept. \<open>chain_id_of\<close> is the id in the chain spec, a library object.
\<close>

datatype eth_request =
    EthSyncing | EthChainId | EthBlockNumber | EthCall | EthGetCode | EthBlockByHash b256 bool
  | EthBlockByNumber u64 bool | EthBlockReceipts | EthSendRawTransaction bytes
  | EthTransactionReceipt b256 | EthLogs | EthGetProof address

datatype eth_error = Unsupported string

datatype eth_response = SyncStatusNone | ChainId "u64 option"

definition rpc_syncing :: "'p provider \<Rightarrow> eth_error + eth_response" where
  "rpc_syncing pr = Inr SyncStatusNone"

definition rpc_chain_id ::
  "(chain_spec \<Rightarrow> u64) \<Rightarrow> 'p provider \<Rightarrow> eth_error + eth_response" where
  "rpc_chain_id chain_id_of pr = Inr (ChainId (Some (chain_id_of (provider_chain_spec pr))))"

definition rpc_unsupported :: "eth_error + eth_response" where
  "rpc_unsupported = Inl (Unsupported ''method not supported'')"

definition eth_rpc ::
  "(chain_spec \<Rightarrow> u64) \<Rightarrow> 'p provider \<Rightarrow> eth_request \<Rightarrow> eth_error + eth_response" where
  "eth_rpc chain_id_of pr request =
     (case request of
        EthSyncing \<Rightarrow> rpc_syncing pr
      | EthChainId \<Rightarrow> rpc_chain_id chain_id_of pr
      | EthBlockNumber \<Rightarrow> rpc_unsupported
      | EthCall \<Rightarrow> rpc_unsupported
      | EthGetCode \<Rightarrow> rpc_unsupported
      | EthBlockByHash _ _ \<Rightarrow> rpc_unsupported
      | EthBlockByNumber _ _ \<Rightarrow> rpc_unsupported
      | EthBlockReceipts \<Rightarrow> rpc_unsupported
      | EthSendRawTransaction _ \<Rightarrow> rpc_unsupported
      | EthTransactionReceipt _ \<Rightarrow> rpc_unsupported
      | EthLogs \<Rightarrow> rpc_unsupported
      | EthGetProof _ \<Rightarrow> rpc_unsupported)"

section \<open>The arguments\<close>

text \<open>
  Paths are strings; a platform path is parsed and printed by the library, which also gives the
  default path, joins paths and makes the path of a chain.
\<close>

record path_lib =
  platform_path_from_str :: "string \<Rightarrow> string + string"
  platform_path_fmt :: "string \<Rightarrow> string"
  platform_data_dir :: "string option"
  platform_path_default :: string
  path_join :: "string \<Rightarrow> string \<Rightarrow> string"
  chain_p2p_secret :: "string \<times> nat \<Rightarrow> string"
  chain_to_string :: "nat \<Rightarrow> string"
  jwt_from_file :: "string \<Rightarrow> string + bytes"
  get_or_create_jwt :: "string \<Rightarrow> string + bytes"

datatype maybe_platform_path = MaybePlatformPath "string option"

record network_args =
  addr :: string
  port :: "16 word"
  p2p_secret_key :: "string option"
  max_active_connections :: u64
  trusted_peers :: "string list"

record rpc_args =
  auth_addr :: string
  auth_port :: "16 word"
  auth_jwtsecret :: "string option"

definition listener_addr :: "network_args \<Rightarrow> string \<times> 16 word" where
  "listener_addr a = (addr a, port a)"

definition network_secret_path :: "path_lib \<Rightarrow> network_args \<Rightarrow> string \<times> nat \<Rightarrow> string" where
  "network_secret_path P a data =
     (case p2p_secret_key a of Some k \<Rightarrow> k | None \<Rightarrow> chain_p2p_secret P data)"

definition auth_rpc_addr :: "rpc_args \<Rightarrow> string \<times> 16 word" where
  "auth_rpc_addr a = (auth_addr a, auth_port a)"

definition auth_jwt_secret :: "path_lib \<Rightarrow> rpc_args \<Rightarrow> string \<Rightarrow> string + bytes" where
  "auth_jwt_secret P a default_jwt_path =
     (case auth_jwtsecret a of
        Some fpath \<Rightarrow> jwt_from_file P fpath
      | None \<Rightarrow> get_or_create_jwt P default_jwt_path)"

definition data_dir :: "path_lib \<Rightarrow> string option" where
  "data_dir P = map_option (\<lambda>root. path_join P root ''zk-ress'') (platform_data_dir P)"

text \<open>The path of the data of a chain, with the chain it is for.\<close>

definition unwrap_or_chain_default :: "path_lib \<Rightarrow> maybe_platform_path \<Rightarrow> nat \<Rightarrow> string \<times> nat" where
  "unwrap_or_chain_default P m chain =
     (case m of MaybePlatformPath p \<Rightarrow>
        ((case p of Some path \<Rightarrow> path
          | None \<Rightarrow> path_join P (platform_path_default P) (chain_to_string P chain)), chain))"

definition maybe_path_fmt :: "path_lib \<Rightarrow> maybe_platform_path \<Rightarrow> string" where
  "maybe_path_fmt P m =
     (case m of MaybePlatformPath p \<Rightarrow>
        (case p of Some path \<Rightarrow> platform_path_fmt P path | None \<Rightarrow> ''default''))"

definition maybe_path_default :: maybe_platform_path where
  "maybe_path_default = MaybePlatformPath None"

definition maybe_path_from_str :: "path_lib \<Rightarrow> string \<Rightarrow> string + maybe_platform_path" where
  "maybe_path_from_str P s =
     (if s = ''default'' then Inr (MaybePlatformPath None)
      else map_sum id (MaybePlatformPath \<circ> Some) (platform_path_from_str P s))"

section \<open>The data dir argument\<close>

text \<open>The default survives the trip through the argument parser, and so does every other path.\<close>

lemma maybe_path_roundtrip:
  assumes "\<And>p. m = MaybePlatformPath (Some p) \<Longrightarrow>
    platform_path_from_str P (platform_path_fmt P p) = Inr p \<and> platform_path_fmt P p \<noteq> ''default''"
  shows "maybe_path_from_str P (maybe_path_fmt P m) = Inr m"
proof (cases m)
  case (MaybePlatformPath p)
  then show ?thesis
    using assms by (cases p) (simp_all add: maybe_path_fmt_def maybe_path_from_str_def)
qed

text \<open>Every method but the two is refused, whatever the state.\<close>

lemma eth_rpc_unsupported:
  "request \<noteq> EthSyncing \<Longrightarrow> request \<noteq> EthChainId \<Longrightarrow> eth_rpc f pr request = rpc_unsupported"
  by (cases request) (simp_all add: eth_rpc_def)

end
