(* ===== verification/Engine_Clock.thy ===== *)
theory Engine_Clock
  imports Engine_Props "HOL-Library.Sublist"
begin

text \<open>
  The timer of a parked payload, \<open>parked_payload_timeout\<close> in \<open>crates/engine/src/engine.rs\<close>: responses
  are only ever added, and a payload is parked for three seconds at most.
\<close>

section \<open>What a step does to the parked payload\<close>

text \<open>A download leaves the parked payload alone, or answers it.\<close>

definition kept_or_answered :: "('p, 'i, 'f, 'l) engine \<Rightarrow> ('p, 'i, 'f, 'l) engine \<Rightarrow> bool" where
  "kept_or_answered e e' \<longleftrightarrow>
     parked_payload_timeout e' = parked_payload_timeout e \<and>
     (parked e' = parked e \<and> responses e' = responses e \<or>
      (\<exists>p res. parked e = Some p \<and> parked e' = None \<and>
         responses e' = responses e @ [(parked_tx p, PayloadResponse res)]))"

text \<open>A message may park its payload, from now on.\<close>

definition clock_step :: "instant \<Rightarrow> ('p, 'i, 'f, 'l) engine \<Rightarrow> ('p, 'i, 'f, 'l) engine \<Rightarrow> bool" where
  "clock_step now e e' \<longleftrightarrow>
     parked_payload_timeout e' = parked_payload_timeout e \<and> prefix (responses e) (responses e') \<and>
     (parked e' = parked e \<or> parked e' = None \<or>
      (\<exists>h tx. parked e' = Some (parked_payload_new h tx (parked_payload_timeout e) now)))"

lemma kept_or_answered_same:
  "responses e' = responses e \<Longrightarrow> parked e' = parked e \<Longrightarrow>
     parked_payload_timeout e' = parked_payload_timeout e \<Longrightarrow> kept_or_answered e e'"
  "kept_or_answered (e\<lparr>tree := t\<rparr>) e' = kept_or_answered e e'"
  by (simp_all add: kept_or_answered_def)

lemma send_response_timeout [simp]:
  "parked_payload_timeout (send_response tx r e) = parked_payload_timeout e"
  by (simp add: send_response_def)

lemma kept_or_answered_clock: "kept_or_answered e e' \<Longrightarrow> clock_step now e e'"
  by (auto simp: kept_or_answered_def clock_step_def)

lemma on_tree_event_same:
  "on_tree_event L ev e = Some e' \<Longrightarrow> responses e' = responses e \<and> parked e' = parked e \<and>
     parked_payload_timeout e' = parked_payload_timeout e"
  by (auto simp: on_tree_event_def Let_def split: tree_event.splits download_request.splits
      tree_action.splits Option.bind_splits)

lemma on_maybe_tree_event_same:
  "on_maybe_tree_event L ev e = Some e' \<Longrightarrow> responses e' = responses e \<and> parked e' = parked e \<and>
     parked_payload_timeout e' = parked_payload_timeout e"
  by (auto simp: on_maybe_tree_event_def dest: on_tree_event_same split: option.splits)

lemma answer_parked_kept:
  "responses e' = responses e \<Longrightarrow> parked e' = parked e \<Longrightarrow>
     parked_payload_timeout e' = parked_payload_timeout e \<Longrightarrow> kept_or_answered e (answer_parked h res e')"
  by (auto simp: kept_or_answered_def answer_parked_def send_response_def split: option.splits)

lemma insert_unlocked_kept:
  assumes "insert_unlocked L h e = Some e'"
  shows "kept_or_answered e e'"
  using assms
  by (auto simp: insert_unlocked_def Let_def kept_or_answered_same intro!: answer_parked_kept
      dest!: on_maybe_tree_event_same split: prod.splits option.splits Option.bind_splits sum.splits)

lemma on_download_outcome_kept:
  assumes "on_download_outcome L rc x e = Some (fatal, e')"
  shows "kept_or_answered e e'"
  using assms
  by (auto simp: on_download_outcome_def Let_def kept_or_answered_same dest!: insert_unlocked_kept
      split: download_data.splits option.splits Option.bind_splits)

lemma clock_step_intros:
  "responses e' = responses e @ rs \<Longrightarrow> parked e' = parked e \<Longrightarrow>
     parked_payload_timeout e' = parked_payload_timeout e \<Longrightarrow> clock_step now e e'"
  "responses e' = responses e \<Longrightarrow> parked_payload_timeout e' = parked_payload_timeout e \<Longrightarrow>
     clock_step now e (e'\<lparr>parked := Some (parked_payload_new h tx (parked_payload_timeout e) now)\<rparr>)"
  by (auto simp: clock_step_def)

lemma on_engine_message_clock:
  assumes "on_engine_message L now m e = Some e'"
  shows "clock_step now e e'"
proof (cases m)
  case (NewPayload tx x)
  then show ?thesis
    using assms
    by (auto simp: on_engine_message_def on_new_payload_message_def Let_def intro: clock_step_intros
        dest!: on_tree_event_same split: prod.splits option.splits Option.bind_splits sum.splits if_splits)
next
  case (ForkchoiceUpdate tx st attrs v)
  then show ?thesis
    using assms
    by (auto simp: on_engine_message_def on_forkchoice_message_def Let_def emit_event_def intro: clock_step_intros
        dest!: on_maybe_tree_event_same split: prod.splits Option.bind_splits sum.splits)
qed

text \<open>One iteration: what it does to a payload parked before it.\<close>

lemma engine_iteration_clock:
  assumes "engine_iteration L F rc pe ms e = Some (r, ms', e')"
  shows "clock_step (env_now pe) e e' \<and>
    (\<forall>p. parked e = Some p \<longrightarrow>
       (parked e' = Some p \<and> responses e' = responses e \<and>
          (r = Some Pending \<longrightarrow> \<not> timeout_ready (env_now pe) p)) \<or>
       (\<exists>res. prefix (responses e @ [(parked_tx p, PayloadResponse res)]) (responses e')))"
proof -
  obtain q d where q: "poll_downloader F (env_answers pe) (downloader e) = Some (q, d)"
    using assms by (auto simp: engine_iteration_def split: Option.bind_splits)
  let ?e = "e\<lparr>downloader := d\<rparr>"
  have ready: ?thesis if "on_download_outcome L rc x ?e = Some (fatal, e')" "r = map_option Ready fatal" for x fatal
  proof -
    have "kept_or_answered ?e e'" using that(1) by (rule on_download_outcome_kept)
    then show ?thesis
      using that(2) by (auto simp: kept_or_answered_def clock_step_def)
  qed
  show ?thesis
  proof (cases "\<exists>x. q = Ready x")
    case True
    then show ?thesis
      using assms q ready by (auto simp: engine_iteration_def split: Option.bind_splits)
  next
    case False
    obtain go e1 where c: "check_parked (env_now pe) ?e = (go, e1)"
      by (cases "check_parked (env_now pe) ?e")
    have e1: "clock_step (env_now pe) e e1" "\<forall>p. parked e = Some p \<longrightarrow>
        (if timeout_ready (env_now pe) p
         then go \<and> (\<exists>res. responses e1 = responses e @ [(parked_tx p, PayloadResponse res)])
         else \<not> go \<and> parked e1 = Some p \<and> responses e1 = responses e)"
      "parked e1 = None \<or> parked e1 = parked e"
      using c by (auto simp: check_parked_def clock_step_def split: option.splits if_splits)
    have it: "(if \<not> go then Some (Some Pending, ms, e1) else
        case ms of [] \<Rightarrow> Some (Some Pending, [], e1)
        | m # ms \<Rightarrow> map_option (\<lambda>e. (None, ms, e)) (on_engine_message L (env_now pe) m e1)) =
        Some (r, ms', e')"
      using assms q False c
      by (cases q; cases go; cases ms)
         (auto simp: engine_iteration_def map_conv_bind_option comp_def)
    show ?thesis
    proof (cases "e' = e1")
      case True
      then show ?thesis using e1 by (auto split: if_splits)
    next
      case ne: False
      then obtain m where m: "on_engine_message L (env_now pe) m e1 = Some e'" and go: go
        using it by (auto split: if_splits list.splits)
      have "clock_step (env_now pe) e1 e'" using m by (rule on_engine_message_clock)
      then show ?thesis
        using e1 go unfolding clock_step_def by (auto elim: prefix_order.trans split: if_splits)
    qed
  qed
qed

text \<open>A poll only adds responses, and keeps the deadline of a parked payload at the timeout.\<close>

definition deadlines_ok :: "('p, 'i, 'f, 'l) engine \<Rightarrow> bool" where
  "deadlines_ok e \<longleftrightarrow>
     (\<forall>p. parked e = Some p \<longrightarrow> parked_timeout p = parked_at p + parked_payload_timeout e)"

lemma clock_step_deadlines: "clock_step now e e' \<Longrightarrow> deadlines_ok e \<Longrightarrow> deadlines_ok e'"
  by (auto simp: clock_step_def deadlines_ok_def)

definition poll_clocked ::
  "instant \<Rightarrow> poll_env list \<Rightarrow> ('p, 'i, 'f, 'l) engine \<Rightarrow>
     insert_block_fatal_error poll \<Rightarrow> ('p, 'i, 'f, 'l) engine \<Rightarrow> bool" where
  "poll_clocked now envs e r e' \<longleftrightarrow>
     prefix (responses e) (responses e') \<and> parked_payload_timeout e' = parked_payload_timeout e \<and>
     (deadlines_ok e \<longrightarrow> deadlines_ok e') \<and>
     (\<forall>p. parked e = Some p \<longrightarrow> r = Pending \<longrightarrow> parked_timeout p \<le> now \<longrightarrow>
        (\<forall>v \<in> set envs. parked_timeout p \<le> env_now v) \<longrightarrow>
        (\<exists>res. prefix (responses e @ [(parked_tx p, PayloadResponse res)]) (responses e')))"

lemma poll_clocked_end:
  assumes "engine_iteration L F rc (env_hd now envs) ms e = Some (Some r, ms', e')"
  shows "poll_clocked now envs e r e'"
  using engine_iteration_clock [OF assms] clock_step_deadlines
  by (fastforce simp: poll_clocked_def clock_step_def timeout_ready_def env_hd_def quiet_env_def
      split: list.splits)

lemma poll_clocked_step:
  assumes i: "engine_iteration L F rc (env_hd now envs) ms e = Some (None, ms1, e1)"
    and later: "poll_clocked (env_now (env_hd now envs)) (tl envs) e1 r e'"
  shows "poll_clocked now envs e r e'"
proof -
  note c = engine_iteration_clock [OF i] and l = later [unfolded poll_clocked_def]
  have pre: "prefix (responses e1) (responses e')" using l by blast
  have "\<exists>res. prefix (responses e @ [(parked_tx p, PayloadResponse res)]) (responses e')"
    if p: "parked e = Some p" "r = Pending" "parked_timeout p \<le> now"
      "\<forall>v \<in> set envs. parked_timeout p \<le> env_now v" for p
  proof (cases "parked e1 = Some p \<and> responses e1 = responses e")
    case True
    have "parked_timeout p \<le> env_now (env_hd now envs)" "\<forall>v \<in> set (tl envs). parked_timeout p \<le> env_now v"
      using p by (cases envs; simp add: env_hd_def quiet_env_def)+
    then show ?thesis using l p True by metis
  next
    case False
    then obtain res where "prefix (responses e @ [(parked_tx p, PayloadResponse res)]) (responses e1)"
      using c p(1) by blast
    then show ?thesis using pre prefix_order.trans by blast
  qed
  then show ?thesis
    using c l clock_step_deadlines [of _ e e1] pre unfolding poll_clocked_def clock_step_def
    by (metis prefix_order.trans)
qed

lemma poll_engine_clock:
  assumes "poll_engine L F rc now envs ms e = Some (r, ms', e')"
  shows "poll_clocked now envs e r e'"
proof -
  let ?P = "\<lambda>L F rc now envs ms e y. case y of (r, ms', e') \<Rightarrow> poll_clocked now envs e r e'"
  have "?P L F rc now envs ms e (r, ms', e')"
  proof (rule poll_engine.raw_induct [where P = ?P, OF _ assms], goal_cases)
    case (1 poll L F rc now envs ms e y)
    obtain q ms1 e1 where i: "engine_iteration L F rc (env_hd now envs) ms e = Some (q, ms1, e1)"
      and y: "(case q of None \<Rightarrow> poll L F rc (env_now (env_hd now envs)) (tl envs) ms1 e1
        | Some p \<Rightarrow> Some (p, ms1, e1)) = Some y"
      using 1(2) by (auto split: Option.bind_splits)
    show ?case
    proof (cases q)
      case None
      then have "?P L F rc (env_now (env_hd now envs)) (tl envs) ms1 e1 y" using 1(1) y by simp
      then show ?thesis using poll_clocked_step i None by (cases y) fastforce
    next
      case (Some p)
      then show ?thesis using i y by (auto intro: poll_clocked_end)
    qed
  qed
  then show ?thesis by simp
qed

section \<open>Properties\<close>

lemma reachable_deadlines:
  "engine_reachable L F rc spec e ms received \<Longrightarrow> deadlines_ok e \<and> parked_payload_timeout e = 3000"
proof (induction rule: engine_reachable.induct)
  case (engine_poll e ms received now envs r ms' e')
  then show ?case using poll_engine_clock by (metis poll_clocked_def)
qed (simp_all add: engine_new_def deadlines_ok_def)

text \<open>
  C19: a payload is parked for three seconds at most: a poll of the engine at a later time answers it
  before anything else, unless the poll ends in the fatal error.
\<close>

theorem parked_payload_deadline:
  assumes "engine_env L keys ents rk U rc" and "genesis_block spec \<in> U"
    and "engine_reachable L F rc spec e ms received" and "parked e = Some p"
    and "\<forall>t \<in> insert now (env_now ` set envs). parked_at p + 3000 \<le> t"
  shows "\<exists>r ms' e'. poll_engine L F rc now envs ms e = Some (r, ms', e') \<and>
    (r = Ready (FatalProvider SenderRecoveryError) \<or>
     (\<exists>res rest. responses e' = responses e @ (parked_tx p, PayloadResponse res) # rest))"
proof -
  obtain r ms' e' where poll: "poll_engine L F rc now envs ms e = Some (r, ms', e')"
    and r: "poll_end r ms' e'"
    using poll_engine_run [OF assms(1), of F e now envs ms] engine_reachable_ok [OF assms(1-3)] by blast
  have "parked_timeout p = parked_at p + 3000"
    using reachable_deadlines [OF assms(3)] assms(4) by (simp add: deadlines_ok_def)
  then have "r = Pending \<Longrightarrow> \<exists>res. prefix (responses e @ [(parked_tx p, PayloadResponse res)]) (responses e')"
    using poll_engine_clock [OF poll] assms(4,5) unfolding poll_clocked_def by simp
  then show ?thesis using poll r by (cases r) (auto simp: prefix_def poll_end_def)
qed

section \<open>A concrete instance\<close>

text \<open>The engine that has parked the payload for the block 11 at time 0, polled at time 3000.\<close>

definition ex_waiting :: ex_engine_type where
  "ex_waiting = snd (snd (the (poll_engine ex_lib ex_fetch ex_recover 0 [] [hd ex_messages] ex_engine)))"

lemma ex_waiting:
  "poll_engine ex_lib ex_fetch ex_recover 0 [] [hd ex_messages] ex_engine = Some (Pending, [], ex_waiting)"
  "parked ex_waiting = Some (parked_payload_new 11 1 3000 0)" "responses ex_waiting = []"
proof -
  let ?r = "poll_engine ex_lib ex_fetch ex_recover 0 [] [hd ex_messages] ex_engine"
  have "map_option (\<lambda>(p, ms, e). (p, length ms)) ?r = Some (Pending, 0)" by code_simp
  then show "?r = Some (Pending, [], ex_waiting)" by (auto simp: ex_waiting_def)
qed code_simp+

lemma ex_waiting_reachable: "engine_reachable ex_lib ex_fetch ex_recover ex_spec ex_waiting [] [1]"
proof -
  have "engine_reachable ex_lib ex_fetch ex_recover ex_spec ex_engine ([] @ [hd ex_messages])
      ([] @ [tx_of (hd ex_messages)])"
    unfolding ex_engine_def by (intro engine_reachable.intros)
  then show ?thesis
    using engine_poll [OF _ ex_waiting(1)] by (simp add: ex_messages_def tx_of_def)
qed

theorem parked_deadline_witness:
  "\<exists>r ms' e'. poll_engine ex_lib ex_fetch ex_recover 3000 [] [] ex_waiting = Some (r, ms', e') \<and>
     r = Pending \<and> (\<exists>res rest. responses e' = (1, PayloadResponse res) # rest)"
proof -
  have "map_option fst (poll_engine ex_lib ex_fetch ex_recover 3000 [] [] ex_waiting) = Some Pending"
    by code_simp
  then obtain ms' e' where poll: "poll_engine ex_lib ex_fetch ex_recover 3000 [] [] ex_waiting =
      Some (Pending, ms', e')"
    by auto
  then show ?thesis
    using parked_payload_deadline [OF ex_engine_env ex_genesis_mem ex_waiting_reachable ex_waiting(2),
        of 3000 "[]"] ex_waiting(3) by auto
qed

text \<open>A millisecond earlier it still waits.\<close>

lemma ex_still_waiting:
  "map_option (\<lambda>(r, ms, e). (r, responses e))
     (poll_engine ex_lib ex_fetch ex_recover 2999 [] [] ex_waiting) = Some (Pending, [])"
  by code_simp

end
