(* ===== verification/Open_Requests.thy ===== *)
theory Open_Requests
  imports Downloader
begin

text \<open>
  The requests the futures of the downloader wait for: each is open until it is answered, an answer
  is read by the next poll, and polling leaves the requests without an answer as they are.
\<close>

section \<open>The open requests of a future\<close>

datatype fetch_part = HeaderPart | BodyPart | ProofPart

text \<open>A request that was not answered stays pending; one that was answered is taken.\<close>

definition full_block_requests :: "full_block_future \<Rightarrow> (fetch_part \<times> peer_request) list" where
  "full_block_requests f =
     (case pending_header_request f of Some r \<Rightarrow> [(HeaderPart, snd r)] | None \<Rightarrow> []) @
     (case pending_body_request f of Some r \<Rightarrow> [(BodyPart, snd r)] | None \<Rightarrow> [])"

definition with_ancestors_requests :: "with_ancestors_future \<Rightarrow> (fetch_part \<times> peer_request) list" where
  "with_ancestors_requests f =
     (case wa_state f of
        FullBlock fut \<Rightarrow> full_block_requests fut
      | Ancestors block fut \<Rightarrow> [(HeaderPart, snd (hr_pending fut))])"

definition proof_requests :: "proof_future \<Rightarrow> (fetch_part \<times> peer_request) list" where
  "proof_requests f = [(ProofPart, snd (pf_pending f))]"

definition part_answered :: "network_polls \<Rightarrow> fetch_part \<Rightarrow> bool" where
  "part_answered e k = (case k of
     HeaderPart \<Rightarrow> header_polls e \<noteq> [] | BodyPart \<Rightarrow> body_polls e \<noteq> [] | ProofPart \<Rightarrow> proof_polls e \<noteq> [])"

text \<open>A single answer: a list of at most one poll, which is ready.\<close>

definition single :: "'r poll list \<Rightarrow> bool" where
  "single ps \<longleftrightarrow> ps = [] \<or> (\<exists>r. ps = [Ready r])"

definition single_answers :: "network_polls \<Rightarrow> bool" where
  "single_answers e \<longleftrightarrow> single (header_polls e) \<and> single (body_polls e) \<and> single (proof_polls e)"

section \<open>The contract\<close>

locale routed_future = fetch_future poll_fut target invar good
  for poll_fut :: "'f \<Rightarrow> network_polls \<Rightarrow> 'r poll \<times> 'f \<times> network_polls"
    and target :: "'f \<Rightarrow> b256" and invar :: "'f \<Rightarrow> bool" and good :: "b256 \<Rightarrow> 'r \<Rightarrow> bool" +
  fixes requests :: "'f \<Rightarrow> (fetch_part \<times> peer_request) list"
  assumes unanswered_kept: "invar f \<Longrightarrow> (k, r) \<in> set (requests f) \<Longrightarrow> \<not> part_answered e k \<Longrightarrow>
      poll_fut f e = (p, f', e') \<Longrightarrow> p = Pending \<and> (k, r) \<in> set (requests f')"
    and answers_read: "invar f \<Longrightarrow> single_answers e \<Longrightarrow>
      (\<And>k. part_answered e k \<Longrightarrow> k \<in> fst ` set (requests f)) \<Longrightarrow>
      poll_fut f e = (p, f', e') \<Longrightarrow> \<not> part_answered e' k"
begin

lemma advance_requests:
  fixes env :: "'f \<Rightarrow> network_polls"
  defines "q \<equiv> \<lambda>f. drop_env (poll_fut f (env f))"
  assumes ok: "\<forall>f \<in> set v. invar f" and adv: "advance q (length v) v [] = Some (v', ready)"
    and f: "f \<in> set v" "(k, r) \<in> set (requests f)" "\<not> part_answered (env f) k"
  shows "\<exists>f' \<in> set v'. target f' = target f \<and> (k, r) \<in> set (requests f')"
proof -
  have no_panic: "fst (q f) \<noteq> Panicked" if "f \<in> set v" for f
    using poll_no_panic [of f "env f"] ok that by (simp add: q_def drop_env_def)
  obtain p f' e' where p: "poll_fut f (env f) = (p, f', e')" by (cases "poll_fut f (env f)")
  have "p = Pending" "(k, r) \<in> set (requests f')" "target f' = target f"
    using unanswered_kept [OF _ f(2,3) p] poll_target [OF _ p] ok f(1) by auto
  moreover have "q f = (p, f')" by (simp add: q_def drop_env_def p)
  moreover have "set v' = set (pending_of q v)"
    using advance_partition [of v q] no_panic adv by (metis fst_conv option.inject set_mset_mset)
  ultimately show ?thesis using f(1) by (force simp: pending_of_def)
qed

end

section \<open>A full block\<close>

text \<open>A part is asked for exactly as long as the future does not have it.\<close>

definition tight :: "full_block_future \<Rightarrow> bool" where
  "tight f \<longleftrightarrow> (pending_header_request f = None \<longleftrightarrow> fb_header f \<noteq> None) \<and>
     (pending_body_request f = None \<longleftrightarrow> fb_body f \<noteq> None)"

lemma full_block_new_tight: "tight (full_block_new d h)"
  by (simp add: tight_def full_block_new_def Let_def)

lemma on_response_parts:
  "pending_header_request (on_header_response L r f) = pending_header_request f"
  "pending_body_request (on_header_response L r f) = pending_body_request f"
  "fb_body (on_header_response L r f) = fb_body f"
  "pending_header_request (on_body_response r' f) = pending_header_request f"
  "pending_body_request (on_body_response r' f) = pending_body_request f"
  "fb_header (on_body_response r' f) = fb_header f"
  by (auto simp: on_header_response_def on_body_response_def Let_def split: sum.splits option.splits)

lemma poll_header_request_tight:
  assumes "tight f" and "poll_header_request L f hs = (again, f', hs')"
  shows "tight f' \<and> pending_body_request f' = pending_body_request f \<and> fb_body f' = fb_body f \<and>
    (hs = [] \<longrightarrow> f' = f \<and> hs' = [] \<and> \<not> again) \<and>
    (single hs \<longrightarrow> single hs' \<and> (pending_header_request f \<noteq> None \<longrightarrow> hs' = []))"
  using assms
  by (auto simp: poll_header_request_def tight_def on_response_parts Let_def single_def
      split: option.splits prod.splits poll.splits if_splits)

lemma poll_body_request_tight:
  assumes "tight f" and "poll_body_request f bs = (again, f', bs')"
  shows "tight f' \<and> pending_header_request f' = pending_header_request f \<and> fb_header f' = fb_header f \<and>
    (bs = [] \<longrightarrow> f' = f \<and> bs' = [] \<and> \<not> again) \<and>
    (single bs \<longrightarrow> single bs' \<and> (pending_body_request f \<noteq> None \<longrightarrow> bs' = []))"
  using assms
  by (auto simp: poll_body_request_def tight_def on_response_parts Let_def single_def
      split: option.splits prod.splits poll.splits if_splits)

text \<open>What a poll keeps of its first state: what is still to be read is for a part still asked for.\<close>

definition poll_routed ::
  "full_block_future \<Rightarrow> header list reply poll list \<Rightarrow> bytes list reply poll list \<Rightarrow>
     full_block_future \<Rightarrow> header list reply poll list \<Rightarrow> bytes list reply poll list \<Rightarrow> bool" where
  "poll_routed f hs bs f' hs' bs' \<longleftrightarrow> tight f' \<and>
     (hs = [] \<longrightarrow> hs' = [] \<and>
        (\<forall>r. pending_header_request f = Some r \<longrightarrow> pending_header_request f' = Some r)) \<and>
     (bs = [] \<longrightarrow> bs' = [] \<and>
        (\<forall>r. pending_body_request f = Some r \<longrightarrow> pending_body_request f' = Some r)) \<and>
     (single hs \<longrightarrow> (hs \<noteq> [] \<longrightarrow> pending_header_request f \<noteq> None) \<longrightarrow>
        single hs' \<and> (hs' \<noteq> [] \<longrightarrow> pending_header_request f' \<noteq> None)) \<and>
     (single bs \<longrightarrow> (bs \<noteq> [] \<longrightarrow> pending_body_request f \<noteq> None) \<longrightarrow>
        single bs' \<and> (bs' \<noteq> [] \<longrightarrow> pending_body_request f' \<noteq> None))"

lemma poll_full_block_routed:
  assumes t: "tight f" and p: "poll_full_block L f hs bs = (p, f', hs', bs')"
  shows "(\<forall>r. hs = [] \<longrightarrow> pending_header_request f = Some r \<longrightarrow>
       p = Pending \<and> pending_header_request f' = Some r) \<and>
    (\<forall>r. bs = [] \<longrightarrow> pending_body_request f = Some r \<longrightarrow>
       p = Pending \<and> pending_body_request f' = Some r) \<and>
    (p = Pending \<longrightarrow> tight f') \<and>
    (single hs \<longrightarrow> (hs \<noteq> [] \<longrightarrow> pending_header_request f \<noteq> None) \<longrightarrow> hs' = []) \<and>
    (single bs \<longrightarrow> (bs \<noteq> [] \<longrightarrow> pending_body_request f \<noteq> None) \<longrightarrow> bs' = [])"
proof -
  let ?I = "poll_routed f hs bs"
  have "\<exists>f2. ?I f2 hs' bs' \<and>
    (\<exists>g hs0 bs0 g1. ?I g hs0 bs0 \<and> poll_header_request L g hs0 = (False, g1, hs') \<and>
       ?I g1 hs' bs0 \<and> poll_body_request g1 bs0 = (False, f2, bs')) \<and>
    (case p of
       Ready x \<Rightarrow> f' = f2\<lparr>fb_header := None, fb_body := None\<rparr> \<and>
         (\<exists>h b. fb_header f2 = Some h \<and> fb_body f2 = Some b \<and>
            validate_body_against_header L b h = None \<and> x = from_sealed_parts h b)
     | Pending \<Rightarrow> f' = f2 \<and> \<not> both_parts f2
     | Panicked \<Rightarrow> False)"
  proof (rule poll_full_block_rule [where I = ?I, OF _ p], goal_cases)
    case 1
    then show ?case using t by (auto simp: poll_routed_def)
  next
    case (2 g hs1 bs1 again g1 hs2)
    then show ?case
      using poll_header_request_tight [of g L hs1 again g1 hs2]
      by (auto simp: poll_routed_def single_def)
  next
    case (3 g hs1 bs1 again g1 bs2)
    then show ?case
      using poll_body_request_tight [of g bs1 again g1 bs2]
      by (auto simp: poll_routed_def single_def)
  next
    case (4 g hs1 bs1 h)
    then show ?case by (auto simp: poll_routed_def tight_def both_parts_def)
  qed
  then obtain f2 g hs0 bs0 g1 where I: "?I f2 hs' bs'" "?I g hs0 bs0" "?I g1 hs' bs0"
    and h: "poll_header_request L g hs0 = (False, g1, hs')" and b: "poll_body_request g1 bs0 = (False, f2, bs')"
    and end': "case p of
       Ready x \<Rightarrow> f' = f2\<lparr>fb_header := None, fb_body := None\<rparr> \<and>
         (\<exists>h b. fb_header f2 = Some h \<and> fb_body f2 = Some b \<and>
            validate_body_against_header L b h = None \<and> x = from_sealed_parts h b)
     | Pending \<Rightarrow> f' = f2 \<and> \<not> both_parts f2
     | Panicked \<Rightarrow> False"
    by blast
  have fin: "p = Pending \<and> f' = f2 \<or> fb_header f2 \<noteq> None \<and> fb_body f2 \<noteq> None"
    using end' by (cases p) auto
  have "single hs \<Longrightarrow> (hs \<noteq> [] \<Longrightarrow> pending_header_request f \<noteq> None) \<Longrightarrow> hs' = []"
    using I(2) poll_header_request_tight [OF _ h] by (auto simp: poll_routed_def single_def)
  moreover have "single bs \<Longrightarrow> (bs \<noteq> [] \<Longrightarrow> pending_body_request f \<noteq> None) \<Longrightarrow> bs' = []"
    using I(3) poll_body_request_tight [OF _ b] by (auto simp: poll_routed_def single_def)
  ultimately show ?thesis
    using I(1) fin end' by (cases p) (auto simp: poll_routed_def tight_def)
qed

section \<open>The futures meet the contract\<close>

definition full_block_routed :: "('p, 'z) fetch_lib_scheme \<Rightarrow> full_block_future \<Rightarrow> bool" where
  "full_block_routed L f \<longleftrightarrow> full_block_idle L f \<and> tight f"

definition with_ancestors_routed :: "('p, 'z) fetch_lib_scheme \<Rightarrow> u64 \<Rightarrow> with_ancestors_future \<Rightarrow> bool" where
  "with_ancestors_routed L n f \<longleftrightarrow> with_ancestors_ok L n f \<and>
     (\<forall>fut. wa_state f = FullBlock fut \<longrightarrow> tight fut) \<and>
     (\<forall>block fut. wa_state f = Ancestors block fut \<longrightarrow>
        snd (hr_pending fut) = GetHeaders (hr_start_hash fut) (hr_limit fut))"

definition proof_routed :: "proof_future \<Rightarrow> bool" where
  "proof_routed f \<longleftrightarrow> snd (pf_pending f) = GetProof (pf_block_hash f)"

lemma full_block_requests_iff [simp]:
  "(HeaderPart, r) \<in> set (full_block_requests f) \<longleftrightarrow> (\<exists>d. pending_header_request f = Some (d, r))"
  "(BodyPart, r) \<in> set (full_block_requests f) \<longleftrightarrow> (\<exists>d. pending_body_request f = Some (d, r))"
  "(ProofPart, r) \<notin> set (full_block_requests f)"
  by (cases "pending_header_request f"; cases "pending_body_request f"; force simp: full_block_requests_def)+

lemma full_block_parts [simp]:
  "HeaderPart \<in> fst ` set (full_block_requests f) \<longleftrightarrow> pending_header_request f \<noteq> None"
  "BodyPart \<in> fst ` set (full_block_requests f) \<longleftrightarrow> pending_body_request f \<noteq> None"
  "ProofPart \<notin> fst ` set (full_block_requests f)"
  by (cases "pending_header_request f"; cases "pending_body_request f"; simp add: full_block_requests_def)+

lemma part_answered_simps [simp]:
  "part_answered e HeaderPart \<longleftrightarrow> header_polls e \<noteq> []" "part_answered e BodyPart \<longleftrightarrow> body_polls e \<noteq> []"
  "part_answered e ProofPart \<longleftrightarrow> proof_polls e \<noteq> []"
  by (simp_all add: part_answered_def)

lemma all_parts: "(\<forall>k. P k) \<longleftrightarrow> P HeaderPart \<and> P BodyPart \<and> P ProofPart"
  by (metis fetch_part.exhaust)

lemma full_block_kept:
  assumes "tight f" and "(k, r) \<in> set (full_block_requests f)" and "\<not> part_answered e k"
    and "poll_full_block L f (header_polls e) (body_polls e) = (p, f', hs', bs')"
  shows "p = Pending \<and> (k, r) \<in> set (full_block_requests f')"
  using poll_full_block_routed [OF assms(1,4)] assms(2,3) by (cases k) auto

lemma full_block_read:
  assumes "tight f" and "single_answers e"
    and "\<And>k. part_answered e k \<Longrightarrow> k \<in> fst ` set (full_block_requests f)"
    and "poll_full_block L f (header_polls e) (body_polls e) = (p, f', hs', bs')"
  shows "hs' = [] \<and> bs' = [] \<and> proof_polls e = []"
  using poll_full_block_routed [OF assms(1,4)] assms(2) assms(3) [of HeaderPart]
    assms(3) [of BodyPart] assms(3) [of ProofPart]
  by (auto simp: single_answers_def)

interpretation routed_full_block: routed_future "poll_full_block_env L" fb_block_hash
    "full_block_routed L" "good_block L" full_block_requests for L
proof unfold_locales
  fix f e p f' e' k r
  assume f: "full_block_routed L f" and p: "poll_full_block_env L f e = (p, f', e')"
  obtain hs' bs' where q: "poll_full_block L f (header_polls e) (body_polls e) = (p, f', hs', bs')"
    and e': "e' = e\<lparr>header_polls := hs', body_polls := bs'\<rparr>"
    using p by (auto simp: poll_full_block_env_def split: prod.splits)
  have t: "full_block_idle L f" "tight f" using f by (simp_all add: full_block_routed_def)
  show "fb_block_hash f' = fb_block_hash f" using full_block.poll_target [OF t(1) p] .
  show "p = Pending \<and> (k, r) \<in> set (full_block_requests f')"
    if "(k, r) \<in> set (full_block_requests f)" "\<not> part_answered e k"
    using full_block_kept [OF t(2) that q] .
  show "\<not> part_answered e' k"
    if "single_answers e" "\<And>k. part_answered e k \<Longrightarrow> k \<in> fst ` set (full_block_requests f)"
    using full_block_read [OF t(2) that q] e' by (cases k) auto
next
  fix f e r f' e'
  assume f: "full_block_routed L f" and p: "poll_full_block_env L f e = (Ready r, f', e')"
  show "good_block L (fb_block_hash f) r"
    using full_block.poll_ready [OF _ p] f by (simp add: full_block_routed_def)
next
  fix f e f' e'
  assume f: "full_block_routed L f" and p: "poll_full_block_env L f e = (Pending, f', e')"
  obtain hs' bs' where q: "poll_full_block L f (header_polls e) (body_polls e) = (Pending, f', hs', bs')"
    using p by (auto simp: poll_full_block_env_def split: prod.splits)
  have "tight f'" using poll_full_block_routed [OF _ q] f by (simp add: full_block_routed_def)
  then show "full_block_routed L f'"
    using full_block.poll_pending [OF _ p] f by (simp add: full_block_routed_def)
next
  fix f e
  assume "full_block_routed L f"
  then show "fst (poll_full_block_env L f e) \<noteq> Panicked"
    by (intro full_block.poll_no_panic) (simp add: full_block_routed_def)
qed

text \<open>A range of headers.\<close>

lemma poll_headers_range_read:
  "single hs \<Longrightarrow> poll_headers_range L f hs = (p, f', hs') \<Longrightarrow> hs' = [] \<and> (hs = [] \<longrightarrow> p = Pending \<and> f' = f)"
  by (auto simp: single_def split: poll.splits)

text \<open>The request a future waits for is kept or answered, and the answers to it are all read.\<close>

definition kept_or_read :: "(fetch_part \<times> peer_request) list \<Rightarrow> network_polls \<Rightarrow>
    bool \<Rightarrow> (fetch_part \<times> peer_request) list \<Rightarrow> network_polls \<Rightarrow> bool" where
  "kept_or_read rs e pending rs' e' \<longleftrightarrow>
     (\<forall>(k, r) \<in> set rs. part_answered e k \<or> pending \<and> (k, r) \<in> set rs') \<and>
     (single_answers e \<longrightarrow> (\<forall>k. part_answered e k \<longrightarrow> k \<in> fst ` set rs) \<longrightarrow>
        (\<forall>k. \<not> part_answered e' k))"

lemma poll_headers_range_pending:
  "poll_headers_range L f hs = (p, f', hs') \<Longrightarrow>
     snd (hr_pending f) = GetHeaders (hr_start_hash f) (hr_limit f) \<Longrightarrow>
     snd (hr_pending f') = GetHeaders (hr_start_hash f') (hr_limit f')"
  by (induction L f hs rule: poll_headers_range.induct) (auto simp: request_headers_def split: poll.splits)

lemma with_ancestors_kept:
  assumes f: "with_ancestors_routed L n f" and p: "poll_with_ancestors L f e = (p, f', e')"
  shows "kept_or_read (with_ancestors_requests f) e (p = Pending) (with_ancestors_requests f') e' \<and>
    (\<forall>fut. p = Pending \<longrightarrow> wa_state f' = FullBlock fut \<longrightarrow> tight fut) \<and>
    (\<forall>block fut. wa_state f' = Ancestors block fut \<longrightarrow>
       snd (hr_pending fut) = GetHeaders (hr_start_hash fut) (hr_limit fut))"
proof (cases "wa_state f")
  case (Ancestors block fut)
  obtain q fut' hs where q: "poll_headers_range L fut (header_polls e) = (q, fut', hs)"
    by (cases "poll_headers_range L fut (header_polls e)")
  show ?thesis
    using p q Ancestors poll_headers_range_read [OF _ q] poll_headers_range_pending [OF q] f
    by (auto simp: with_ancestors_routed_def poll_with_ancestors_def poll_ancestors_def with_ancestors_requests_def
        kept_or_read_def single_answers_def all_parts single_def)
next
  case (FullBlock fut)
  obtain q fut' hs bs where q: "poll_full_block L fut (header_polls e) (body_polls e) = (q, fut', hs, bs)"
    by (cases "poll_full_block L fut (header_polls e) (body_polls e)")
  have t: "tight fut" using f FullBlock by (simp add: with_ancestors_routed_def)
  have kept: "part_answered e k \<or> q = Pending \<and> (k, r) \<in> set (full_block_requests fut')"
    if "(k, r) \<in> set (full_block_requests fut)" for k r
    using full_block_kept [OF t that _ q] by blast
  have read: "hs = [] \<and> bs = [] \<and> proof_polls e = []"
    if "single_answers e" "\<forall>k. part_answered e k \<longrightarrow> k \<in> fst ` set (full_block_requests fut)"
    using full_block_read [OF t that(1) _ q] that(2) by blast
  note tight' = poll_full_block_routed [OF t q]
  show ?thesis
  proof (cases q)
    case (Ready block)
    let ?hr = "headers_range_new (fb_retry_delay fut') (parent_hash block) (ancestor_count f)"
    obtain q' hr' hs' where q': "poll_headers_range L ?hr hs = (q', hr', hs')"
      by (cases "poll_headers_range L ?hr hs")
    have p': "wa_state f' = Ancestors block hr'" "e' = e\<lparr>header_polls := hs', body_polls := bs\<rparr>"
      using p FullBlock q q' Ready by (auto simp: poll_with_ancestors_def poll_ancestors_def)
    have none: "(k, r) \<in> set (full_block_requests fut) \<Longrightarrow> part_answered e k" for k r
      using kept Ready by blast
    have "\<not> part_answered e' k"
      if "single_answers e" "\<forall>k. part_answered e k \<longrightarrow> k \<in> fst ` set (full_block_requests fut)" for k
      using read [OF that] q' p'(2) by (cases k) auto
    moreover have "snd (hr_pending hr') = GetHeaders (hr_start_hash hr') (hr_limit hr')"
      using poll_headers_range_pending [OF q'] by (simp add: headers_range_new_def)
    ultimately show ?thesis
      using none p'(1) FullBlock unfolding kept_or_read_def with_ancestors_requests_def by auto
  next
    case Pending
    then have p': "p = Pending" "wa_state f' = FullBlock fut'" "e' = e\<lparr>header_polls := hs, body_polls := bs\<rparr>"
      using p FullBlock q by (auto simp: poll_with_ancestors_def)
    have "\<not> part_answered e' k"
      if "single_answers e" "\<forall>k. part_answered e k \<longrightarrow> k \<in> fst ` set (full_block_requests fut)" for k
      using read [OF that] p'(3) by (cases k) auto
    moreover have "tight fut'" using tight' Pending by blast
    ultimately show ?thesis
      using kept p'(1,2) FullBlock
      unfolding kept_or_read_def with_ancestors_requests_def by auto
  next
    case Panicked
    then show ?thesis using poll_full_block_ok [OF _ q] f FullBlock
      by (auto simp: with_ancestors_routed_def with_ancestors_ok_def full_block_idle_def)
  qed
qed

interpretation routed_with_ancestors: routed_future "poll_with_ancestors L" wa_block_hash
    "with_ancestors_routed L n" "good_with_ancestors L n" with_ancestors_requests for L n
proof unfold_locales
  fix f e p f' e' k r
  assume f: "with_ancestors_routed L n f" and p: "poll_with_ancestors L f e = (p, f', e')"
  note kept = with_ancestors_kept [OF f p, THEN conjunct1]
  have ok: "with_ancestors_ok L n f" using f by (simp add: with_ancestors_routed_def)
  show "wa_block_hash f' = wa_block_hash f" using with_ancestors.poll_target [OF ok p] .
  show "p = Pending \<and> (k, r) \<in> set (with_ancestors_requests f')"
    if "(k, r) \<in> set (with_ancestors_requests f)" "\<not> part_answered e k"
    using kept that unfolding kept_or_read_def by blast
  show "\<not> part_answered e' k"
    if "single_answers e" "\<And>k. part_answered e k \<Longrightarrow> k \<in> fst ` set (with_ancestors_requests f)"
    using kept that unfolding kept_or_read_def by blast
next
  fix f e r f' e'
  assume f: "with_ancestors_routed L n f" and p: "poll_with_ancestors L f e = (Ready r, f', e')"
  show "good_with_ancestors L n (wa_block_hash f) r"
    using with_ancestors.poll_ready [OF _ p] f by (simp add: with_ancestors_routed_def)
next
  fix f e f' e'
  assume f: "with_ancestors_routed L n f" and p: "poll_with_ancestors L f e = (Pending, f', e')"
  then show "with_ancestors_routed L n f'"
    using with_ancestors.poll_pending [OF _ p] with_ancestors_kept [OF f p]
    by (simp add: with_ancestors_routed_def)
next
  fix f e
  assume "with_ancestors_routed L n f"
  then show "fst (poll_with_ancestors L f e) \<noteq> Panicked"
    by (intro with_ancestors.poll_no_panic [where n = n]) (simp add: with_ancestors_routed_def)
qed

lemma poll_proof_read:
  "single ps \<Longrightarrow> poll_proof L f ps = (p, f', ps') \<Longrightarrow> ps' = [] \<and> (ps = [] \<longrightarrow> p = Pending \<and> f' = f)"
  by (auto simp: single_def split: option.splits)

lemma poll_proof_routed:
  "poll_proof L f ps = (p, f', ps') \<Longrightarrow> proof_routed f \<Longrightarrow> proof_routed f'"
  by (induction L f ps rule: poll_proof.induct)
     (auto simp: proof_routed_def proof_request_def split: option.splits)

interpretation routed_proof: routed_future "poll_proof_env L" pf_block_hash proof_routed
    "\<lambda>_. good_proof L" proof_requests for L
proof unfold_locales
  fix f e p f' e' k r
  assume p: "poll_proof_env L f e = (p, f', e')"
  obtain ps where q: "poll_proof L f (proof_polls e) = (p, f', ps)" "e' = e\<lparr>proof_polls := ps\<rparr>"
    using p by (auto simp: poll_proof_env_def split: prod.splits)
  show "pf_block_hash f' = pf_block_hash f" by (rule execution_proof.poll_target [OF TrueI p])
  show "p = Pending \<and> (k, r) \<in> set (proof_requests f')"
    if "(k, r) \<in> set (proof_requests f)" "\<not> part_answered e k"
    using q that by (auto simp: proof_requests_def)
  show "\<not> part_answered e' k"
    if "single_answers e" "\<And>k. part_answered e k \<Longrightarrow> k \<in> fst ` set (proof_requests f)"
    using poll_proof_read [OF _ q(1)] q(2) that(1) that(2) [of HeaderPart] that(2) [of BodyPart]
    by (cases k) (auto simp: proof_requests_def single_answers_def)
next
  fix f e r f' e'
  assume "poll_proof_env L f e = (Ready r, f', e')"
  then show "good_proof L r" by (rule execution_proof.poll_ready [OF TrueI])
next
  fix f e f' e'
  assume "proof_routed f" and p: "poll_proof_env L f e = (Pending, f', e')"
  then show "proof_routed f'"
    using poll_proof_routed by (auto simp: poll_proof_env_def split: prod.splits)
next
  show "fst (poll_proof_env L f e) \<noteq> Panicked" for f e
    by (rule execution_proof.poll_no_panic [OF TrueI])
qed

section \<open>The open requests of the downloader\<close>

text \<open>A request is known by the download it is for and the part of it that is asked for.\<close>

type_synonym origin = "download \<times> fetch_part"
type_synonym open_request = "origin \<times> peer_request"

definition open_of :: "request_metric_ty \<Rightarrow> ('f \<Rightarrow> b256) \<Rightarrow>
    ('f \<Rightarrow> (fetch_part \<times> peer_request) list) \<Rightarrow> 'f list \<Rightarrow> open_request list" where
  "open_of ty target requests v =
     concat (map (\<lambda>f. map (\<lambda>(k, r). (((ty, target f), k), r)) (requests f)) v)"

definition open_requests :: "'p downloader \<Rightarrow> open_request list" where
  "open_requests d =
     open_of FullBlockTy fb_block_hash full_block_requests (inflight_full_block_requests d) @
     open_of ProofTy pf_block_hash proof_requests (inflight_proof_requests d) @
     open_of FinalizedTy wa_block_hash with_ancestors_requests (inflight_finalized_block_requests d)"

definition answers_to :: "poll_answers \<Rightarrow> download \<Rightarrow> network_polls" where
  "answers_to a x = (case fst x of
     FullBlockTy \<Rightarrow> full_answers a (snd x) | ProofTy \<Rightarrow> proof_answers a (snd x)
   | FinalizedTy \<Rightarrow> finalized_answers a (snd x))"

definition answered :: "poll_answers \<Rightarrow> origin \<Rightarrow> bool" where
  "answered a x \<longleftrightarrow> part_answered (answers_to a (fst x)) (snd x)"

definition requests_ok :: "('p, 'z) fetch_lib_scheme \<Rightarrow> 'p downloader \<Rightarrow> bool" where
  "requests_ok L d \<longleftrightarrow> (\<forall>f \<in> set (inflight_full_block_requests d). full_block_routed L f) \<and>
     (\<forall>f \<in> set (inflight_proof_requests d). proof_routed f) \<and>
     (\<forall>f \<in> set (inflight_finalized_block_requests d). with_ancestors_routed L 256 f)"

text \<open>The requests without an answer stay open.\<close>

definition requests_kept ::
  "('p, 'z) fetch_lib_scheme \<Rightarrow> poll_answers \<Rightarrow> 'p downloader \<Rightarrow> 'p downloader \<Rightarrow> bool" where
  "requests_kept L a d d' \<longleftrightarrow> (requests_ok L d \<longrightarrow> requests_ok L d' \<and>
     (\<forall>t \<in> set (open_requests d). answered a (fst t) \<or> t \<in> set (open_requests d')))"

lemma answers_to_simps [simp]:
  "answers_to a (FullBlockTy, h) = full_answers a h" "answers_to a (ProofTy, h) = proof_answers a h"
  "answers_to a (FinalizedTy, h) = finalized_answers a h" "answers_to no_answers x = no_polls"
  by (simp_all add: answers_to_def no_answers_def split: request_metric_ty.splits)

lemma not_answered [simp]: "\<not> part_answered no_polls k" "\<not> answered no_answers x"
  by (simp_all add: answered_def part_answered_def no_polls_def split: fetch_part.splits)

lemma in_open_of:
  "(((ty', h), k), r) \<in> set (open_of ty target requests v) \<longleftrightarrow>
     ty' = ty \<and> (\<exists>f \<in> set v. target f = h \<and> (k, r) \<in> set (requests f))"
  by (force simp: open_of_def)

lemma requests_kept_refl: "requests_kept L a d d"
  by (simp add: requests_kept_def)

lemma requests_kept_trans:
  "requests_kept L a d d1 \<Longrightarrow> requests_kept L b d1 d2 \<Longrightarrow> a = c \<and> b = no_answers \<or> a = no_answers \<and> b = c \<Longrightarrow>
     requests_kept L c d d2"
  by (auto simp: requests_kept_def)

lemma requests_ok_new: "requests_ok L downloader_new"
  by (simp add: requests_ok_def downloader_new_def)

text \<open>A download only adds requests.\<close>

lemma download_kept:
  "requests_kept L no_answers d (download_full_block h d)"
  "requests_kept L no_answers d (download_proof h d)"
  "requests_kept L no_answers d (download_finalized_with_ancestors h d)"
  by (auto simp: requests_kept_def requests_ok_def open_requests_def open_of_def download_full_block_def
      download_proof_def download_finalized_with_ancestors_def Let_def full_block_routed_def
      with_ancestors_routed_def full_block_new_idle full_block_new_tight with_ancestors_new_ok
      proof_routed_def proof_future_new_def)
    (auto simp: with_ancestors_new_def full_block_new_tight)

context routed_future
begin

lemma advance_kept:
  assumes "\<forall>f \<in> set v. invar f"
    and adv: "advance (\<lambda>f. drop_env (poll_fut f (answers (target f)))) (length v) v [] = Some (v', ready)"
  shows "(\<forall>f \<in> set v'. invar f) \<and>
    (\<forall>h k r. (((ty, h), k), r) \<in> set (open_of ty target requests v) \<longrightarrow>
       part_answered (answers h) k \<or> (((ty, h), k), r) \<in> set (open_of ty target requests v'))"
  using advance_good [of v "\<lambda>f. answers (target f)"] advance_requests [OF assms] assms
  by (fastforce simp: in_open_of)

end

lemma in_open_requests:
  "(((FullBlockTy, h), k), r) \<in> set (open_requests d) \<longleftrightarrow>
     (((FullBlockTy, h), k), r) \<in> set (open_of FullBlockTy fb_block_hash full_block_requests (inflight_full_block_requests d))"
  "(((ProofTy, h), k), r) \<in> set (open_requests d) \<longleftrightarrow>
     (((ProofTy, h), k), r) \<in> set (open_of ProofTy pf_block_hash proof_requests (inflight_proof_requests d))"
  "(((FinalizedTy, h), k), r) \<in> set (open_requests d) \<longleftrightarrow>
     (((FinalizedTy, h), k), r) \<in> set (open_of FinalizedTy wa_block_hash with_ancestors_requests
        (inflight_finalized_block_requests d))"
  by (simp_all add: open_requests_def in_open_of)

lemma all_downloads: "(\<forall>ty. P ty) \<longleftrightarrow> P FullBlockTy \<and> P ProofTy \<and> P FinalizedTy"
  by (metis request_metric_ty.exhaust)

lemma in_image_fst: "x \<in> fst ` S \<longleftrightarrow> (\<exists>r. (x, r) \<in> S)"
  by force

lemma requests_keptI:
  assumes "requests_ok L d \<Longrightarrow> requests_ok L d' \<and>
    (\<forall>ty h k r. (((ty, h), k), r) \<in> set (open_requests d) \<longrightarrow>
       part_answered (answers_to a (ty, h)) k \<or> (((ty, h), k), r) \<in> set (open_requests d'))"
  shows "requests_kept L a d d'"
  unfolding requests_kept_def answered_def using assms by (metis prod.collapse)

lemma advance_finalized_kept:
  assumes "advance_finalized L a d = Some d'"
  shows "requests_kept L a d d'"
proof (rule requests_keptI)
  assume ok: "requests_ok L d"
  obtain v ready where adv: "advance (\<lambda>f. drop_env (poll_with_ancestors L f (finalized_answers a (wa_block_hash f))))
      (length (inflight_finalized_block_requests d)) (inflight_finalized_block_requests d) [] = Some (v, ready)"
    and d': "inflight_finalized_block_requests d' = v"
    using assms by (auto simp: advance_finalized_def split: Option.bind_splits)
  have same: "inflight_full_block_requests d' = inflight_full_block_requests d" "inflight_proof_requests d' = inflight_proof_requests d"
    using assms by (auto simp: advance_finalized_def split: Option.bind_splits)
  show "requests_ok L d' \<and>
    (\<forall>ty h k r. (((ty, h), k), r) \<in> set (open_requests d) \<longrightarrow>
       part_answered (answers_to a (ty, h)) k \<or> (((ty, h), k), r) \<in> set (open_requests d'))"
    using routed_with_ancestors.advance_kept [OF _ adv, where ty = FinalizedTy and n = 256] ok
    by (simp add: requests_ok_def in_open_requests all_downloads d' same)
qed

lemma advance_full_blocks_kept:
  assumes "advance_full_blocks L a d = Some d'"
  shows "requests_kept L a d d'"
proof (rule requests_keptI)
  assume ok: "requests_ok L d"
  obtain v ready where adv: "advance (\<lambda>f. drop_env (poll_full_block_env L f (full_answers a (fb_block_hash f))))
      (length (inflight_full_block_requests d)) (inflight_full_block_requests d) [] = Some (v, ready)"
    and d': "inflight_full_block_requests d' = v"
    using assms by (auto simp: advance_full_blocks_def split: Option.bind_splits)
  have same: "inflight_proof_requests d' = inflight_proof_requests d" "inflight_finalized_block_requests d' = inflight_finalized_block_requests d"
    using assms by (auto simp: advance_full_blocks_def split: Option.bind_splits)
  show "requests_ok L d' \<and>
    (\<forall>ty h k r. (((ty, h), k), r) \<in> set (open_requests d) \<longrightarrow>
       part_answered (answers_to a (ty, h)) k \<or> (((ty, h), k), r) \<in> set (open_requests d'))"
    using routed_full_block.advance_kept [OF _ adv, where ty = FullBlockTy] ok
    by (simp add: requests_ok_def in_open_requests all_downloads d' same)
qed

lemma advance_proofs_kept:
  assumes "advance_proofs L a d = Some d'"
  shows "requests_kept L a d d'"
proof (rule requests_keptI)
  assume ok: "requests_ok L d"
  obtain v ready where adv: "advance (\<lambda>f. drop_env (poll_proof_env L f (proof_answers a (pf_block_hash f))))
      (length (inflight_proof_requests d)) (inflight_proof_requests d) [] = Some (v, ready)"
    and d': "inflight_proof_requests d' = v"
    using assms by (auto simp: advance_proofs_def split: Option.bind_splits)
  have same: "inflight_full_block_requests d' = inflight_full_block_requests d" "inflight_finalized_block_requests d' = inflight_finalized_block_requests d"
    using assms by (auto simp: advance_proofs_def split: Option.bind_splits)
  show "requests_ok L d' \<and>
    (\<forall>ty h k r. (((ty, h), k), r) \<in> set (open_requests d) \<longrightarrow>
       part_answered (answers_to a (ty, h)) k \<or> (((ty, h), k), r) \<in> set (open_requests d'))"
    using routed_proof.advance_kept [OF _ adv, where ty = ProofTy] ok
    by (simp add: requests_ok_def in_open_requests all_downloads d' same)
qed

lemma requests_kept_cong:
  assumes "inflight_full_block_requests d = inflight_full_block_requests d1"
    and "inflight_proof_requests d = inflight_proof_requests d1"
    and "inflight_finalized_block_requests d = inflight_finalized_block_requests d1"
  shows "requests_kept L a d d1"
  using assms by (simp add: requests_kept_def requests_ok_def open_requests_def)

text \<open>Polling the downloader reads answers and leaves the other requests open.\<close>

lemma poll_downloader_kept:
  assumes "poll_downloader L a d = Some (p, d')"
  shows "requests_kept L a d d'"
proof (cases "outcomes d")
  case (Cons x rest)
  then have "d' = d\<lparr>outcomes := rest\<rparr>" using assms by (simp add: poll_downloader_def pop_outcome_def)
  then show ?thesis by (auto intro: requests_kept_cong)
next
  case Nil
  then obtain d1 d2 d3 where d: "advance_finalized L a d = Some d1" "advance_full_blocks L a d1 = Some d2"
    "advance_proofs L a d2 = Some d3" "pop_outcome d3 = (p, d')"
    using assms by (auto simp: poll_downloader_def pop_outcome_def [of d] split: Option.bind_splits)
  have "requests_kept L a d3 d'"
    using d(4) by (auto simp: pop_outcome_def intro!: requests_kept_cong split: list.splits)
  note kept = advance_finalized_kept [OF d(1)] advance_full_blocks_kept [OF d(2)] advance_proofs_kept [OF d(3)] this
  show ?thesis using kept unfolding requests_kept_def by blast
qed

text \<open>An answer that was not asked for is never read: the answers are those to the open requests.\<close>

definition answers_routed :: "poll_answers \<Rightarrow> 'p downloader \<Rightarrow> bool" where
  "answers_routed a d \<longleftrightarrow> (\<forall>x. single_answers (answers_to a x)) \<and>
     (\<forall>x. answered a x \<longrightarrow> x \<in> fst ` set (open_requests d))"

text \<open>Every answer that waits is read, by the future it is for.\<close>

definition answers_read :: "('p, 'z) fetch_lib_scheme \<Rightarrow> poll_answers \<Rightarrow> 'p downloader \<Rightarrow> bool" where
  "answers_read L a d \<longleftrightarrow>
     (\<forall>f \<in> set (inflight_full_block_requests d).
        snd (snd (poll_full_block_env L f (full_answers a (fb_block_hash f)))) = no_polls) \<and>
     (\<forall>f \<in> set (inflight_proof_requests d).
        snd (snd (poll_proof_env L f (proof_answers a (pf_block_hash f)))) = no_polls) \<and>
     (\<forall>f \<in> set (inflight_finalized_block_requests d).
        snd (snd (poll_with_ancestors L f (finalized_answers a (wa_block_hash f)))) = no_polls)"

lemma no_polls_iff: "e = no_polls \<longleftrightarrow> (\<forall>k. \<not> part_answered e k)"
  by (cases e) (simp add: no_polls_def all_parts)

context routed_future
begin

lemma target_read:
  assumes "f \<in> set v" "distinct (map target v)" "invar f" "single_answers (answers (target f))"
    and "\<forall>k. part_answered (answers (target f)) k \<longrightarrow>
      ((ty, target f), k) \<in> fst ` set (open_of ty target requests v)"
  shows "snd (snd (poll_fut f (answers (target f)))) = no_polls"
proof -
  obtain p f' e' where p: "poll_fut f (answers (target f)) = (p, f', e')"
    by (cases "poll_fut f (answers (target f))")
  have "k \<in> fst ` set (requests f)" if k: "part_answered (answers (target f)) k" for k
  proof -
    obtain r f1 where "f1 \<in> set v" "target f1 = target f" "(k, r) \<in> set (requests f1)"
      using assms(5) k unfolding in_open_of in_image_fst by blast
    moreover have "f1 = f" using calculation(1,2) assms(1,2) by (auto simp: distinct_map inj_on_def)
    ultimately show ?thesis by force
  qed
  then show ?thesis using answers_read [OF assms(3,4) _ p] p by (simp add: no_polls_iff)
qed

end

lemma answers_all_read:
  assumes "requests_ok L d" "downloader_ok L d" "answers_routed a d"
  shows "answers_read L a d"
proof -
  have r: "\<exists>r. ((x, k), r) \<in> set (open_requests d)" if "part_answered (answers_to a x) k" for x k
    using assms(3) that unfolding answers_routed_def answered_def in_image_fst by (metis fst_conv snd_conv)
  have s: "single_answers (full_answers a h)" "single_answers (proof_answers a h)"
    "single_answers (finalized_answers a h)" for h
    using assms(3) unfolding answers_routed_def by (metis answers_to_simps(1-3))+
  show ?thesis
    using assms(1,2) s r [of "(FullBlockTy, _)"] r [of "(ProofTy, _)"] r [of "(FinalizedTy, _)"]
    unfolding answers_read_def requests_ok_def downloader_ok_def
    by (auto intro!: routed_full_block.target_read [where ty = FullBlockTy]
        routed_proof.target_read [where ty = ProofTy]
        routed_with_ancestors.target_read [where ty = FinalizedTy] simp: in_open_requests in_image_fst)
qed

text \<open>What an open request asks for.\<close>

definition asks_for :: "origin \<Rightarrow> peer_request \<Rightarrow> bool" where
  "asks_for x r = (case x of ((ty, h), k) \<Rightarrow> (case k of
     HeaderPart \<Rightarrow> r = GetHeaders h 1 \<or> ty = FinalizedTy \<and> (\<exists>p. r = GetHeaders p 256)
   | BodyPart \<Rightarrow> r = GetBlockBodies [h]
   | ProofPart \<Rightarrow> r = GetProof h))"

lemma full_block_asks:
  "full_block_ok L f \<Longrightarrow> (k, r) \<in> set (full_block_requests f) \<Longrightarrow> asks_for ((ty, fb_block_hash f), k) r"
  by (cases k) (auto simp: full_block_ok_def asks_for_def)

lemma open_request_asks:
  assumes "requests_ok L d" and "(x, r) \<in> set (open_requests d)"
  shows "asks_for x r"
proof -
  obtain ty h k where x: "x = ((ty, h), k)" by (metis surj_pair)
  show ?thesis
  proof (cases ty)
    case FullBlockTy
    then show ?thesis
      using assms full_block_asks unfolding x in_open_requests
      by (fastforce simp: in_open_requests in_open_of requests_ok_def full_block_routed_def full_block_idle_def)
  next
    case ProofTy
    then show ?thesis
      using assms unfolding x
      by (auto simp: in_open_requests in_open_of requests_ok_def proof_routed_def proof_requests_def asks_for_def)
  next
    case FinalizedTy
    then obtain f where f: "with_ancestors_routed L 256 f" "wa_block_hash f = h"
      "(k, r) \<in> set (with_ancestors_requests f)"
      using assms unfolding x by (auto simp: in_open_requests in_open_of requests_ok_def)
    show ?thesis
    proof (cases "wa_state f")
      case (FullBlock fut)
      then show ?thesis
        using f full_block_asks [of L fut k r ty] unfolding x
        by (auto simp: with_ancestors_routed_def with_ancestors_ok_def full_block_idle_def with_ancestors_requests_def)
    next
      case (Ancestors block fut)
      then show ?thesis
        using f FinalizedTy unfolding x
        by (auto simp: with_ancestors_routed_def with_ancestors_ok_def with_ancestors_requests_def asks_for_def)
    qed
  qed
qed

end
