(* ===== verification/Network.thy ===== *)
theory Network
  imports Download_Futs "HOL-Library.Multiset"
begin

text \<open>
  The network manager, \<open>crates/network/src/manager.rs\<close>: it forwards the requests of the node to the
  connections of its peers in turn, and keeps the requests no connection takes.
\<close>

section \<open>State\<close>

text \<open>
  Sending to a connection fails once its peer is gone. Which sends succeed is given by an oracle:
  the list of the channels that are closed at the time of the poll. What each connection was sent
  is recorded in \<open>sent\<close>, in order. \<open>'q\<close> is the type of a request with its response channel.
\<close>

record connection_handle =
  peer_id :: nat
  to_connection :: nat

record 'q network_manager =
  connections :: "connection_handle list"
  pending_requests :: "'q list"
  sent :: "(nat \<times> 'q) list"

definition network_manager_new :: "'q network_manager" where
  "network_manager_new = \<lparr>connections = [], pending_requests = [], sent = []\<rparr>"

section \<open>Operations\<close>

text \<open>The \<open>while\<close> loop over the connections, oldest first; closed ones are dropped.\<close>

fun offer_request ::
  "nat set \<Rightarrow> 'q \<Rightarrow> connection_handle list \<Rightarrow> 'q network_manager \<Rightarrow> 'q network_manager" where
  "offer_request closed request [] m =
     m\<lparr>connections := [], pending_requests := pending_requests m @ [request]\<rparr>"
| "offer_request closed request (connection # rest) m =
     (if to_connection connection \<in> closed then offer_request closed request rest m
      else m\<lparr>connections := rest @ [connection],
             sent := sent m @ [(to_connection connection, request)]\<rparr>)"

definition on_peer_request :: "nat set \<Rightarrow> 'q \<Rightarrow> 'q network_manager \<Rightarrow> 'q network_manager" where
  "on_peer_request closed request m = offer_request closed request (connections m) m"

definition on_established :: "connection_handle \<Rightarrow> 'q network_manager \<Rightarrow> 'q network_manager" where
  "on_established connection m = m\<lparr>connections := connections m @ [connection]\<rparr>"

lemma offer_request_dropWhile:
  "offer_request closed request cs m =
     (case dropWhile (\<lambda>c. to_connection c \<in> closed) cs of
        [] \<Rightarrow> m\<lparr>connections := [], pending_requests := pending_requests m @ [request]\<rparr>
      | c # rest \<Rightarrow> m\<lparr>connections := rest @ [c], sent := sent m @ [(to_connection c, request)]\<rparr>)"
  by (induction closed request cs m rule: offer_request.induct) auto

lemma offer_pending_less:
  assumes "connections m \<noteq> []" and "pending_requests m \<noteq> []"
    and "m' = on_peer_request closed r (m\<lparr>pending_requests := tl (pending_requests m)\<rparr>)"
  shows "connections m' = [] \<or> length (pending_requests m') < length (pending_requests m)"
  using assms by (auto simp: on_peer_request_def offer_request_dropWhile split: list.splits)

text \<open>
  \<open>poll\<close>: the protocol events and the requests that are ready are lists. The loop serves a pending
  request first, then takes an event, then a request, until nothing is ready.
\<close>

function poll_network ::
  "nat set \<Rightarrow> connection_handle list \<Rightarrow> 'q list \<Rightarrow> 'q network_manager \<Rightarrow> 'q network_manager" where
  "poll_network closed protocol_events peer_requests m =
     (if connections m \<noteq> [] \<and> pending_requests m \<noteq> []
      then
        (let request = hd (pending_requests m);
             m = m\<lparr>pending_requests := tl (pending_requests m)\<rparr>
         in poll_network closed protocol_events peer_requests (on_peer_request closed request m))
      else
        (case protocol_events of
           connection # protocol_events \<Rightarrow>
             poll_network closed protocol_events peer_requests (on_established connection m)
         | [] \<Rightarrow>
             (case peer_requests of
                request # peer_requests \<Rightarrow>
                  poll_network closed protocol_events peer_requests (on_peer_request closed request m)
              | [] \<Rightarrow> m)))"
  by pat_completeness auto
termination
  by (relation "measures [\<lambda>(closed, es, rs, m). length es + length rs,
        \<lambda>(closed, es, rs, m). if connections m = [] then 0 else Suc (length (pending_requests m))]")
     (use offer_pending_less in \<open>fastforce+\<close>)

declare poll_network.simps [simp del]

section \<open>The abstract network\<close>

text \<open>
  An abstract network holds a bag of undelivered and a bag of delivered requests; a step delivers
  one request to an open channel. Nothing is lost and nothing is delivered twice.
\<close>

type_synonym 'q bags = "'q multiset \<times> (nat \<times> 'q) multiset"

inductive deliver :: "nat set \<Rightarrow> 'q bags \<Rightarrow> 'q bags \<Rightarrow> bool" for closed :: "nat set" where
  deliver_one: "c \<notin> closed \<Longrightarrow> deliver closed (add_mset r U, D) (U, add_mset (c, r) D)"

inductive_cases deliverE: "deliver closed (U, D) (U', D')"

abbreviation delivers :: "nat set \<Rightarrow> 'q bags \<Rightarrow> 'q bags \<Rightarrow> bool" where
  "delivers closed \<equiv> (deliver closed)\<^sup>*\<^sup>*"

definition bags_of :: "'q network_manager \<Rightarrow> 'q bags" where
  "bags_of m = (mset (pending_requests m), mset (sent m))"

lemma delivers_conserves:
  "delivers closed s s' \<Longrightarrow> fst s + image_mset snd (snd s) = fst s' + image_mset snd (snd s')"
  by (induction rule: rtranclp_induct) (auto elim!: deliver.cases)

lemma deliver_frame: "deliver closed (U, D) (U', D') \<Longrightarrow> deliver closed (V + U, D) (V + U', D')"
  by (auto elim!: deliverE intro: deliver_one)

lemma delivers_frame:
  "delivers closed s s' \<Longrightarrow> delivers closed (V + fst s, snd s) (V + fst s', snd s')"
proof (induction rule: rtranclp_induct)
  case (step s s')
  then show ?case by (cases s; cases s') (auto dest: deliver_frame [of closed _ _ _ _ V])
qed simp

lemma on_peer_request_delivers:
  "delivers closed (add_mset r (mset (pending_requests m)), mset (sent m))
     (bags_of (on_peer_request closed r m))"
proof (cases "dropWhile (\<lambda>c. to_connection c \<in> closed) (connections m)")
  case (Cons c rest)
  then have "to_connection c \<notin> closed" using hd_dropWhile [of _ "connections m"] by (metis list.distinct(1) list.sel(1))
  then show ?thesis
    using Cons by (auto simp: on_peer_request_def offer_request_dropWhile bags_of_def intro: deliver_one)
next
  case Nil
  show ?thesis unfolding on_peer_request_def offer_request_dropWhile Nil by (simp add: bags_of_def)
qed

lemma poll_network_delivers:
  "delivers closed (mset (pending_requests m) + mset rs, mset (sent m))
     (bags_of (poll_network closed es rs m)) \<and>
   (connections (poll_network closed es rs m) = [] \<or> pending_requests (poll_network closed es rs m) = [])"
proof (induction closed es rs m rule: poll_network.induct)
  case (1 closed es rs m)
  let ?done = "\<lambda>m'. connections m' = [] \<or> pending_requests m' = []"
  have trans: "delivers closed (mset (pending_requests m0) + mset rs', mset (sent m0))
      (bags_of (poll_network closed es' rs'' m')) \<and> ?done (poll_network closed es' rs'' m')"
    if "delivers closed (mset (pending_requests m') + mset rs'', mset (sent m'))
        (bags_of (poll_network closed es' rs'' m')) \<and> ?done (poll_network closed es' rs'' m')"
      "delivers closed (mset (pending_requests m0) + mset rs', mset (sent m0))
        (mset (pending_requests m') + mset rs'', mset (sent m'))" for m0 m' rs' rs'' es'
    using that rtranclp_trans [of "deliver closed"] by blast
  show ?case
  proof (cases "connections m \<noteq> [] \<and> pending_requests m \<noteq> []")
    case True
    let ?m = "m\<lparr>pending_requests := tl (pending_requests m)\<rparr>"
    have "delivers closed (mset (pending_requests m), mset (sent m))
        (bags_of (on_peer_request closed (hd (pending_requests m)) ?m))"
      using on_peer_request_delivers [of closed "hd (pending_requests m)" ?m] True
      by (cases "pending_requests m") simp_all
    from delivers_frame [OF this, of "mset rs"] show ?thesis
      using True by (subst (1 2 3) poll_network.simps, simp add: Let_def, intro trans [OF "1.IH"(1)])
        (simp_all add: bags_of_def add.commute)
  next
    case False
    show ?thesis
    proof (cases es)
      case (Cons e es')
      then have "poll_network closed es rs m = poll_network closed es' rs (on_established e m)"
        using False by (subst poll_network.simps) auto
      then show ?thesis
        using "1.IH"(3) [OF False Cons] by (simp add: on_established_def)
    next
      case es: Nil
      show ?thesis
      proof (cases rs)
        case (Cons r rs')
        then have "poll_network closed es rs m = poll_network closed [] rs' (on_peer_request closed r m)"
          using False es by (subst poll_network.simps) auto
        moreover have "delivers closed (mset (pending_requests m) + mset rs, mset (sent m))
            (mset (pending_requests (on_peer_request closed r m)) + mset rs',
             mset (sent (on_peer_request closed r m)))"
          using delivers_frame [OF on_peer_request_delivers [of closed r m], of "mset rs'"] Cons
          by (simp add: bags_of_def add.commute)
        ultimately show ?thesis using trans [OF "1.IH"(2) [OF False es Cons]] es by simp
      next
        case Nil
        then show ?thesis
          using False es by (subst (1 2 3) poll_network.simps) (auto simp: bags_of_def)
      qed
    qed
  qed
qed

lemma poll_network_conserves:
  "mset (pending_requests m) + mset rs + image_mset snd (mset (sent m)) =
     mset (pending_requests (poll_network closed es rs m)) +
     image_mset snd (mset (sent (poll_network closed es rs m)))"
  using delivers_conserves [OF poll_network_delivers [THEN conjunct1], of m rs closed es]
  by (simp add: bags_of_def)

text \<open>While every channel is open no connection is dropped.\<close>

lemma on_peer_request_open:
  "mset (connections (on_peer_request {} r m)) = mset (connections m)"
  by (cases "connections m") (auto simp: on_peer_request_def)

lemma poll_network_open:
  "closed = {} \<Longrightarrow> mset (connections (poll_network closed es rs m)) = mset (connections m) + mset es"
proof (induction closed es rs m rule: poll_network.induct)
  case (1 closed es rs m)
  show ?case
  proof (cases "connections m \<noteq> [] \<and> pending_requests m \<noteq> []")
    case True
    then show ?thesis
      using "1.IH"(1) "1.prems" by (subst poll_network.simps) (simp add: on_peer_request_open)
  next
    case False
    then show ?thesis
      using "1.IH"(2,3) "1.prems" by (subst poll_network.simps)
        (auto simp: on_peer_request_open on_established_def split: list.split)
  qed
qed

section \<open>Rotation\<close>

lemma poll_network_rotates_aux:
  assumes "\<forall>c \<in> set cs. to_connection c \<notin> closed" and "cs \<noteq> []"
  shows "poll_network closed [] rs \<lparr>connections = rotate k cs, pending_requests = [], sent = s\<rparr> =
    \<lparr>connections = rotate (k + length rs) cs, pending_requests = [],
     sent = s @ map (\<lambda>i. (to_connection (cs ! ((k + i) mod length cs)), rs ! i)) [0..<length rs]\<rparr>"
proof (induction rs arbitrary: k s)
  case Nil
  then show ?case by (subst poll_network.simps) simp
next
  case (Cons r rs)
  obtain c cs' where cs': "rotate k cs = c # cs'" using assms(2) by (cases "rotate k cs") auto
  have c: "c = cs ! (k mod length cs)"
    using cs' assms(2) rotate_conv_mod [of k cs] by (metis hd_rotate_conv_nth list.sel(1))
  have "to_connection c \<notin> closed" using assms(1) cs' by (metis list.set_intros(1) set_rotate)
  then have "on_peer_request closed r \<lparr>connections = rotate k cs, pending_requests = [], sent = s\<rparr> =
      \<lparr>connections = rotate (Suc k) cs, pending_requests = [], sent = s @ [(to_connection c, r)]\<rparr>"
    using cs' by (simp add: on_peer_request_def rotate1_hd_tl)
  then have "poll_network closed [] (r # rs) \<lparr>connections = rotate k cs, pending_requests = [], sent = s\<rparr> =
      poll_network closed [] rs
        \<lparr>connections = rotate (Suc k) cs, pending_requests = [], sent = s @ [(to_connection c, r)]\<rparr>"
    using cs' by (subst poll_network.simps) simp
  also have "\<dots> = \<lparr>connections = rotate (k + length (r # rs)) cs, pending_requests = [],
     sent = s @ (to_connection c, r) #
       map (\<lambda>i. (to_connection (cs ! ((Suc k + i) mod length cs)), rs ! i)) [0..<length rs]\<rparr>"
    using Cons.IH [of "Suc k" "s @ [(to_connection c, r)]"] by simp
  also have "(to_connection c, r) #
       map (\<lambda>i. (to_connection (cs ! ((Suc k + i) mod length cs)), rs ! i)) [0..<length rs] =
     map (\<lambda>i. (to_connection (cs ! ((k + i) mod length cs)), (r # rs) ! i)) [0..<length (r # rs)]"
    by (simp add: c upt_conv_Cons map_Suc_upt [symmetric] del: upt_Suc)
  finally show ?case .
qed

section \<open>Properties\<close>

text \<open>
  C16: polling the network manager delivers requests one by one to open connections and loses none:
  it refines the abstract network. A request waits only while there is no connection at all.
\<close>

theorem poll_network_refines:
  "delivers closed (mset (pending_requests m) + mset rs, mset (sent m))
     (bags_of (poll_network closed es rs m)) \<and>
   mset (pending_requests m) + mset rs + image_mset snd (mset (sent m)) =
     mset (pending_requests (poll_network closed es rs m)) +
     image_mset snd (mset (sent (poll_network closed es rs m))) \<and>
   (connections (poll_network closed es rs m) = [] \<or> pending_requests (poll_network closed es rs m) = [])"
  using poll_network_delivers [of closed m rs es] poll_network_conserves [of m rs closed es] by blast

text \<open>
  Open connections take turns: the \<open>i\<close>th request goes to the connection \<open>i\<close> places further
  round the queue.
\<close>

theorem poll_network_rotates:
  assumes "\<forall>c \<in> set cs. to_connection c \<notin> closed" and "cs \<noteq> []"
  shows "poll_network closed [] rs \<lparr>connections = cs, pending_requests = [], sent = s\<rparr> =
    \<lparr>connections = rotate (length rs) cs, pending_requests = [],
     sent = s @ map (\<lambda>i. (to_connection (cs ! (i mod length cs)), rs ! i)) [0..<length rs]\<rparr>"
  using poll_network_rotates_aux [OF assms, of rs 0 s] by simp

theorem poll_network_rotates_witness:
  "sent (poll_network {9} [] [''a'', ''b'', ''c'']
     \<lparr>connections = [\<lparr>peer_id = 1, to_connection = 1\<rparr>, \<lparr>peer_id = 2, to_connection = 2\<rparr>],
      pending_requests = [], sent = []\<rparr>) = [(1, ''a''), (2, ''b''), (1, ''c'')]"
  by (subst poll_network_rotates) (simp_all add: upt_rec)

end
