(* ===== verification/Node_System.thy ===== *)
theory Node_System
  imports Engine_Clock Open_Requests Network
begin

text \<open>
  The node as a whole: the engine, the channel from its futures to the network manager, the
  connections, and the peers behind them, which answer anything.
\<close>

section \<open>A poll of the engine and its open requests\<close>

text \<open>The engine asks for more, and gives up no request that was not answered.\<close>

lemma on_tree_event_requests:
  "on_tree_event L ev e = Some e' \<Longrightarrow> requests_kept F no_answers (downloader e) (downloader e')"
  by (auto simp: on_tree_event_def Let_def download_kept requests_kept_refl
      intro: requests_kept_trans [OF download_kept(1) download_kept(2)]
      split: tree_event.splits download_request.splits tree_action.splits Option.bind_splits)

lemma on_maybe_tree_event_requests:
  "on_maybe_tree_event L ev e = Some e' \<Longrightarrow> requests_kept F no_answers (downloader e) (downloader e')"
  by (auto simp: on_maybe_tree_event_def requests_kept_refl dest: on_tree_event_requests split: option.splits)

lemma answer_parked_downloader [simp]: "downloader (answer_parked h res e) = downloader e"
  by (simp add: answer_parked_def send_response_def split: option.splits)

lemma insert_unlocked_requests:
  "insert_unlocked L h e = Some e' \<Longrightarrow> requests_kept F no_answers (downloader e) (downloader e')"
  by (auto simp: insert_unlocked_def Let_def requests_kept_refl dest!: on_maybe_tree_event_requests
      split: prod.splits option.splits Option.bind_splits sum.splits)

lemma on_download_outcome_requests:
  "on_download_outcome L rc x e = Some (fatal, e') \<Longrightarrow>
     requests_kept F no_answers (downloader e) (downloader e')"
  by (auto simp: on_download_outcome_def Let_def requests_kept_refl dest!: insert_unlocked_requests
      split: download_data.splits option.splits Option.bind_splits)

lemma on_engine_message_requests:
  assumes "on_engine_message L now m e = Some e'"
  shows "requests_kept F no_answers (downloader e) (downloader e')"
proof (cases m)
  case (NewPayload tx x)
  then show ?thesis
    using assms
    by (auto simp: on_engine_message_def on_new_payload_message_def Let_def requests_kept_refl
        intro: requests_kept_trans dest!: on_tree_event_requests [where F = F]
        split: prod.splits option.splits Option.bind_splits sum.splits if_splits)
next
  case (ForkchoiceUpdate tx st attrs v)
  then show ?thesis
    using assms
    by (auto simp: on_engine_message_def on_forkchoice_message_def Let_def emit_event_def requests_kept_refl
        dest!: on_maybe_tree_event_requests [where F = F] split: prod.splits Option.bind_splits sum.splits)
qed

lemma check_parked_downloader: "check_parked now e = (go, e') \<Longrightarrow> downloader e' = downloader e"
  by (auto simp: check_parked_def send_response_def split: option.splits if_splits)

lemma engine_iteration_requests:
  assumes "engine_iteration L F rc pe ms e = Some (r, ms', e')"
  shows "requests_kept F (env_answers pe) (downloader e) (downloader e')"
proof -
  obtain q d where q: "poll_downloader F (env_answers pe) (downloader e) = Some (q, d)"
    using assms by (auto simp: engine_iteration_def split: Option.bind_splits)
  have "requests_kept F no_answers d (downloader e')"
    using assms q
    by (cases q; cases "check_parked (env_now pe) (e\<lparr>downloader := d\<rparr>)"; cases ms)
       (auto simp: engine_iteration_def requests_kept_refl dest!: on_download_outcome_requests [where F = F]
         on_engine_message_requests [where F = F] check_parked_downloader
         split: Option.bind_splits bool.splits)
  then show ?thesis using poll_downloader_kept [OF q] requests_kept_trans by blast
qed

text \<open>A poll that reads answers in its first iteration only.\<close>

lemma poll_engine_requests:
  assumes "poll_engine L F rc now envs ms e = Some (r, ms', e')"
    and "\<forall>v \<in> set (tl envs). env_answers v = no_answers"
  shows "requests_kept F (env_answers (env_hd now envs)) (downloader e) (downloader e')"
proof -
  let ?P = "\<lambda>L F rc now envs ms e y. case y of (r, ms', e') \<Rightarrow>
    (\<forall>v \<in> set (tl envs). env_answers v = no_answers) \<longrightarrow>
    requests_kept F (env_answers (env_hd now envs)) (downloader e) (downloader e')"
  have "?P L F rc now envs ms e (r, ms', e')"
  proof (rule poll_engine.raw_induct [where P = ?P, OF _ assms(1)], goal_cases)
    case (1 poll L F rc now envs ms e y)
    obtain q ms1 e1 where i: "engine_iteration L F rc (env_hd now envs) ms e = Some (q, ms1, e1)"
      and y: "(case q of None \<Rightarrow> poll L F rc (env_now (env_hd now envs)) (tl envs) ms1 e1
        | Some p \<Rightarrow> Some (p, ms1, e1)) = Some y"
      using 1(2) by (auto split: Option.bind_splits)
    note k = engine_iteration_requests [OF i]
    show ?case
    proof (cases q)
      case None
      then have IH: "?P L F rc (env_now (env_hd now envs)) (tl envs) ms1 e1 y" using 1(1) y by simp
      have "(\<forall>v \<in> set (tl envs). env_answers v = no_answers) \<Longrightarrow>
          env_answers (env_hd (env_now (env_hd now envs)) (tl envs)) = no_answers \<and>
          (\<forall>v \<in> set (tl (tl envs)). env_answers v = no_answers)"
        by (cases envs; cases "tl envs") (auto simp: env_hd_def quiet_env_def)
      then show ?thesis using IH k requests_kept_trans by (cases y) fastforce
    next
      case (Some p)
      then show ?thesis using k y by auto
    qed
  qed
  then show ?thesis using assms(2) by simp
qed

section \<open>The node\<close>

text \<open>
  The messages of the beacon client that the engine has not taken and the response channels of all of
  them; the requests in the channel to the manager, at the manager and at the peers; and the answers
  that wait for the next poll of the engine.
\<close>

record ('p, 'x, 'a, 'i, 'f, 'l) node =
  consensus_engine :: "('p, 'i, 'f, 'l) engine"
  node_messages :: "('x, 'a) engine_message list"
  node_received :: "nat list"
  request_channel :: "open_request list"
  node_manager :: "open_request network_manager"
  at_peers :: "(nat \<times> open_request) list"
  waiting_answers :: poll_answers

definition node_new ::
  "('p, 'x, 'e, 'a, 'i, 'f, 'l) tree_lib \<Rightarrow> chain_spec \<Rightarrow> ('p, 'x, 'a, 'i, 'f, 'l) node" where
  "node_new L spec = \<lparr>consensus_engine = engine_new L (launch_provider spec), node_messages = [],
     node_received = [], request_channel = [], node_manager = network_manager_new, at_peers = [],
     waiting_answers = no_answers\<rparr>"

datatype peer_answer = HeadersAnswer "header list" | BodiesAnswer "bytes list" | ProofAnswer bytes

text \<open>
  An answer goes to the response channel of its request, whose type fixes the kind of the answer; an
  answer that never comes, or that is of no use, is one that was dropped.
\<close>

definition push_answer :: "fetch_part \<Rightarrow> peer_answer option \<Rightarrow> network_polls \<Rightarrow> network_polls" where
  "push_answer k answer e =
     (case k of
        HeaderPart \<Rightarrow> e\<lparr>header_polls := header_polls e @
          [Ready (fetch_result True (case answer of Some (HeadersAnswer hs) \<Rightarrow> Some hs | _ \<Rightarrow> None))]\<rparr>
      | BodyPart \<Rightarrow> e\<lparr>body_polls := body_polls e @
          [Ready (fetch_result True (case answer of Some (BodiesAnswer bs) \<Rightarrow> Some bs | _ \<Rightarrow> None))]\<rparr>
      | ProofPart \<Rightarrow> e\<lparr>proof_polls := proof_polls e @
          [Ready (fetch_result True (case answer of Some (ProofAnswer b) \<Rightarrow> Some b | _ \<Rightarrow> None))]\<rparr>)"

definition route_answer :: "origin \<Rightarrow> peer_answer option \<Rightarrow> poll_answers \<Rightarrow> poll_answers" where
  "route_answer x answer a =
     (case x of ((ty, h), k) \<Rightarrow>
       (case ty of
          FullBlockTy \<Rightarrow> a\<lparr>full_answers := (full_answers a)(h := push_answer k answer (full_answers a h))\<rparr>
        | ProofTy \<Rightarrow> a\<lparr>proof_answers := (proof_answers a)(h := push_answer k answer (proof_answers a h))\<rparr>
        | FinalizedTy \<Rightarrow>
            a\<lparr>finalized_answers := (finalized_answers a)(h := push_answer k answer (finalized_answers a h))\<rparr>))"

definition in_transit :: "('p, 'x, 'a, 'i, 'f, 'l) node \<Rightarrow> open_request list" where
  "in_transit s = request_channel s @ pending_requests (node_manager s) @ map snd (at_peers s)"

definition node_receive ::
  "('x, 'a) engine_message \<Rightarrow> ('p, 'x, 'a, 'i, 'f, 'l) node \<Rightarrow> ('p, 'x, 'a, 'i, 'f, 'l) node" where
  "node_receive m s =
     s\<lparr>node_messages := node_messages s @ [m], node_received := node_received s @ [tx_of m]\<rparr>"

text \<open>A future is polled for the first time, or after its delay, and sends its request.\<close>

definition node_send :: "open_request \<Rightarrow> ('p, 'x, 'a, 'i, 'f, 'l) node \<Rightarrow> ('p, 'x, 'a, 'i, 'f, 'l) node" where
  "node_send t s = s\<lparr>request_channel := request_channel s @ [t]\<rparr>"

text \<open>The manager is polled: it takes the requests of the channel, and what it sends is at the peers.\<close>

definition node_forward ::
  "nat set \<Rightarrow> connection_handle list \<Rightarrow> ('p, 'x, 'a, 'i, 'f, 'l) node \<Rightarrow> ('p, 'x, 'a, 'i, 'f, 'l) node" where
  "node_forward closed new s =
     (let m = poll_network closed new (request_channel s) (node_manager s)
      in s\<lparr>request_channel := [], at_peers := at_peers s @ sent m, node_manager := m\<lparr>sent := []\<rparr>\<rparr>)"

definition node_answer ::
  "nat \<times> open_request \<Rightarrow> peer_answer option \<Rightarrow>
     ('p, 'x, 'a, 'i, 'f, 'l) node \<Rightarrow> ('p, 'x, 'a, 'i, 'f, 'l) node" where
  "node_answer q answer s =
     s\<lparr>at_peers := remove1 q (at_peers s),
       waiting_answers := route_answer (fst (snd q)) answer (waiting_answers s)\<rparr>"

text \<open>The engine is polled with the answers that wait, until it is pending.\<close>

definition node_poll ::
  "('p, 'x, 'e, 'a, 'i, 'f, 'l) tree_lib \<Rightarrow> 'p fetch_lib \<Rightarrow>
     (sealed_block \<Rightarrow> recovered_block option) \<Rightarrow> instant \<Rightarrow>
     ('p, 'x, 'a, 'i, 'f, 'l) node \<Rightarrow> ('p, 'x, 'a, 'i, 'f, 'l) node option" where
  "node_poll L F rc now s =
     (case poll_engine L F rc now [\<lparr>env_answers = waiting_answers s, env_now = now\<rparr>]
             (node_messages s) (consensus_engine s) of
        Some (Pending, ms, e) \<Rightarrow>
          Some (s\<lparr>consensus_engine := e, node_messages := ms, waiting_answers := no_answers\<rparr>)
      | _ \<Rightarrow> None)"

inductive node_step ::
  "('p, 'x, 'e, 'a, 'i, 'f, 'l) tree_lib \<Rightarrow> 'p fetch_lib \<Rightarrow>
     (sealed_block \<Rightarrow> recovered_block option) \<Rightarrow>
     ('p, 'x, 'a, 'i, 'f, 'l) node \<Rightarrow> ('p, 'x, 'a, 'i, 'f, 'l) node \<Rightarrow> bool"
  for L :: "('p, 'x, 'e, 'a, 'i, 'f, 'l) tree_lib" and F rc where
  step_receive: "node_step L F rc s (node_receive m s)"
| step_send: "t \<in> set (open_requests (downloader (consensus_engine s))) \<Longrightarrow>
    fst t \<notin> fst ` set (in_transit s) \<Longrightarrow> \<not> answered (waiting_answers s) (fst t) \<Longrightarrow>
    node_step L F rc s (node_send t s)"
| step_forward: "node_step L F rc s (node_forward closed new s)"
| step_answer: "q \<in> set (at_peers s) \<Longrightarrow> node_step L F rc s (node_answer q answer s)"
| step_poll: "node_poll L F rc now s = Some s' \<Longrightarrow> node_step L F rc s s'"

abbreviation node_run ::
  "('p, 'x, 'e, 'a, 'i, 'f, 'l) tree_lib \<Rightarrow> 'p fetch_lib \<Rightarrow>
     (sealed_block \<Rightarrow> recovered_block option) \<Rightarrow>
     ('p, 'x, 'a, 'i, 'f, 'l) node \<Rightarrow> ('p, 'x, 'a, 'i, 'f, 'l) node \<Rightarrow> bool" where
  "node_run L F rc \<equiv> (node_step L F rc)\<^sup>*\<^sup>*"

section \<open>The invariant of the node\<close>

definition node_ok ::
  "('p, 'x, 'e, 'a, 'i, 'f, 'l) tree_lib \<Rightarrow> 'p fetch_lib \<Rightarrow>
     (sealed_block \<Rightarrow> recovered_block option) \<Rightarrow> chain_spec \<Rightarrow>
     ('p, 'x, 'a, 'i, 'f, 'l) node \<Rightarrow> bool" where
  "node_ok L F rc spec s \<longleftrightarrow>
     engine_reachable L F rc spec (consensus_engine s) (node_messages s) (node_received s) \<and>
     requests_ok F (downloader (consensus_engine s)) \<and> outcomes (downloader (consensus_engine s)) = [] \<and>
     sent (node_manager s) = [] \<and> distinct (map fst (in_transit s)) \<and>
     (\<forall>t \<in> set (in_transit s). t \<in> set (open_requests (downloader (consensus_engine s))) \<and>
        \<not> answered (waiting_answers s) (fst t)) \<and>
     answers_routed (waiting_answers s) (downloader (consensus_engine s))"

lemma part_answered_push:
  "part_answered (push_answer k answer e) k' \<longleftrightarrow> k' = k \<or> part_answered e k'"
  "single_answers e \<Longrightarrow> \<not> part_answered e k \<Longrightarrow> single_answers (push_answer k answer e)"
  by (cases k; cases k'; simp add: push_answer_def)
     (cases k; auto simp: push_answer_def single_answers_def single_def)

lemma answers_to_route:
  "answers_to (route_answer x answer a) y =
     (if y = fst x then push_answer (snd x) answer (answers_to a y) else answers_to a y)"
  by (cases x; cases "fst x"; cases y; cases "fst (fst x)")
     (auto simp: route_answer_def answers_to_def split: request_metric_ty.splits)

lemma answered_route: "answered (route_answer x answer a) y \<longleftrightarrow> y = x \<or> answered a y"
  by (cases x; cases y) (auto simp: answered_def answers_to_route part_answered_push)

lemma node_okI:
  assumes "engine_reachable L F rc spec (consensus_engine s) (node_messages s) (node_received s)"
    and "requests_ok F (downloader (consensus_engine s))" "outcomes (downloader (consensus_engine s)) = []"
    and "sent (node_manager s) = []" "distinct (map fst (in_transit s))"
    and "\<And>t. t \<in> set (in_transit s) \<Longrightarrow> t \<in> set (open_requests (downloader (consensus_engine s))) \<and>
      \<not> answered (waiting_answers s) (fst t)"
    and "answers_routed (waiting_answers s) (downloader (consensus_engine s))"
  shows "node_ok L F rc spec s"
  using assms unfolding node_ok_def by blast

lemma node_okD:
  assumes "node_ok L F rc spec s"
  shows "engine_reachable L F rc spec (consensus_engine s) (node_messages s) (node_received s)"
    and "requests_ok F (downloader (consensus_engine s))" "outcomes (downloader (consensus_engine s)) = []"
    and "sent (node_manager s) = []" "distinct (map fst (in_transit s))"
    and "\<And>t. t \<in> set (in_transit s) \<Longrightarrow> t \<in> set (open_requests (downloader (consensus_engine s)))"
    and "\<And>t. t \<in> set (in_transit s) \<Longrightarrow> \<not> answered (waiting_answers s) (fst t)"
    and "answers_routed (waiting_answers s) (downloader (consensus_engine s))"
  using assms unfolding node_ok_def by blast+

lemma answers_routed_none [simp]: "answers_routed no_answers d"
  by (simp add: answers_routed_def single_answers_def no_polls_def single_def)

lemma node_step_sel [simp]:
  "consensus_engine (node_receive m s) = consensus_engine s" "consensus_engine (node_send t s) = consensus_engine s"
  "consensus_engine (node_forward closed new s) = consensus_engine s"
  "consensus_engine (node_answer q answer s) = consensus_engine s"
  "node_messages (node_send t s) = node_messages s" "node_received (node_send t s) = node_received s"
  "node_messages (node_forward closed new s) = node_messages s"
  "node_received (node_forward closed new s) = node_received s"
  "node_messages (node_answer q answer s) = node_messages s"
  "node_received (node_answer q answer s) = node_received s"
  "node_manager (node_receive m s) = node_manager s" "node_manager (node_send t s) = node_manager s"
  "node_manager (node_answer q answer s) = node_manager s"
  "sent (node_manager (node_forward closed new s)) = []"
  "waiting_answers (node_receive m s) = waiting_answers s" "waiting_answers (node_send t s) = waiting_answers s"
  "waiting_answers (node_forward closed new s) = waiting_answers s"
  "in_transit (node_receive m s) = in_transit s"
  by (simp_all add: node_receive_def node_send_def node_forward_def node_answer_def Let_def in_transit_def)

lemma node_ok_new: "node_ok L F rc spec (node_new L spec)"
proof (rule node_okI)
  show "engine_reachable L F rc spec (consensus_engine (node_new L spec)) (node_messages (node_new L spec))
      (node_received (node_new L spec))"
    by (simp add: node_new_def engine_start)
qed (simp_all add: node_new_def engine_new_def requests_ok_new in_transit_def network_manager_new_def,
  simp add: downloader_new_def)

lemma node_forward_transit:
  assumes "sent (node_manager s) = []"
  shows "mset (in_transit (node_forward closed new s)) = mset (in_transit s)"
proof -
  have "mset (map snd (sent m)) = image_mset snd (mset (sent m))" for m :: "open_request network_manager"
    by simp
  then show ?thesis
    using poll_network_conserves [of "node_manager s" "request_channel s" closed new] assms
    by (simp add: in_transit_def node_forward_def Let_def ac_simps)
qed

lemma distinct_map_add:
  assumes "mset xs = add_mset t (mset ys)"
  shows "distinct (map f xs) \<longleftrightarrow> f t \<notin> f ` set ys \<and> distinct (map f ys)" "set xs = insert t (set ys)"
proof -
  have m: "mset xs = mset (t # ys)" using assms by simp
  then show "distinct (map f xs) \<longleftrightarrow> f t \<notin> f ` set ys \<and> distinct (map f ys)"
    using mset_eq_imp_distinct_iff [of "map f xs" "map f (t # ys)"] by simp
  show "set xs = insert t (set ys)" using mset_eq_setD [OF m] by simp
qed

lemma node_forward_ok:
  assumes ok: "node_ok L F rc spec s"
  shows "node_ok L F rc spec (node_forward closed new s)"
proof -
  note m = node_forward_transit [OF node_okD(4) [OF ok], of closed new]
  have "distinct (map fst (in_transit (node_forward closed new s)))"
    using node_okD(5) [OF ok] m mset_eq_imp_distinct_iff by (metis mset_map)
  moreover have "set (in_transit (node_forward closed new s)) = set (in_transit s)"
    using m by (rule mset_eq_setD)
  ultimately show ?thesis using node_okD [OF ok] by (intro node_okI) simp_all
qed

lemma node_answer_ok:
  assumes ok: "node_ok L F rc spec s" and q: "q \<in> set (at_peers s)"
  shows "node_ok L F rc spec (node_answer q answer s)"
proof -
  let ?t = "snd q"
  have t: "?t \<in> set (open_requests (downloader (consensus_engine s)))" "\<not> answered (waiting_answers s) (fst ?t)"
    using node_okD(6,7) [OF ok, of ?t] q by (auto simp: in_transit_def)
  have "mset (in_transit s) = add_mset ?t (mset (in_transit (node_answer q answer s)))"
    using q by (simp add: in_transit_def node_answer_def flip: mset_map) (simp add: mset_remove1 image_mset_Diff insert_DiffM)
  note tr = distinct_map_add(1) [OF this, of fst] distinct_map_add(2) [OF this]
  have w: "waiting_answers (node_answer q answer s) = route_answer (fst ?t) answer (waiting_answers s)"
    by (simp add: node_answer_def)
  have "answers_routed (waiting_answers (node_answer q answer s)) (downloader (consensus_engine s))"
    unfolding answers_routed_def
  proof (intro conjI allI impI)
    show "single_answers (answers_to (waiting_answers (node_answer q answer s)) x)" for x
    proof -
      have "single_answers (answers_to (waiting_answers s) x)"
        using node_okD(8) [OF ok] unfolding answers_routed_def by blast
      then show ?thesis
        using t(2) unfolding w answers_to_route answered_def by (auto intro: part_answered_push(2))
    qed
    show "x \<in> fst ` set (open_requests (downloader (consensus_engine s)))"
      if "answered (waiting_answers (node_answer q answer s)) x" for x
      using node_okD(8) [OF ok] t(1) that unfolding w answered_route answers_routed_def by blast
  qed
  moreover have "\<not> answered (waiting_answers (node_answer q answer s)) (fst t)"
    if "t \<in> set (in_transit (node_answer q answer s))" for t
    using that tr node_okD(5,7) [OF ok] unfolding w answered_route by (metis image_eqI insertCI)
  ultimately show ?thesis
    using node_okD(1-6) [OF ok] tr by (intro node_okI) simp_all
qed

lemma node_send_ok:
  assumes ok: "node_ok L F rc spec s" and t: "t \<in> set (open_requests (downloader (consensus_engine s)))"
    "fst t \<notin> fst ` set (in_transit s)" "\<not> answered (waiting_answers s) (fst t)"
  shows "node_ok L F rc spec (node_send t s)"
proof -
  have "mset (in_transit (node_send t s)) = add_mset t (mset (in_transit s))"
    by (simp add: in_transit_def node_send_def)
  note tr = distinct_map_add(1) [OF this, of fst] distinct_map_add(2) [OF this]
  show ?thesis using node_okD [OF ok] t tr by (intro node_okI) auto
qed

text \<open>The poll takes the answers, each by the future it is for, and keeps every other request open.\<close>

lemma node_poll_ok:
  assumes env: "engine_env L keys ents rk U rc" and g: "genesis_block spec \<in> U"
    and ok: "node_ok L F rc spec s" and p: "node_poll L F rc now s = Some s'"
  shows "node_ok L F rc spec s'"
proof -
  let ?v = "\<lparr>env_answers = waiting_answers s, env_now = now\<rparr>"
  obtain ms e where e: "poll_engine L F rc now [?v] (node_messages s) (consensus_engine s) = Some (Pending, ms, e)"
    and s': "s' = s\<lparr>consensus_engine := e, node_messages := ms, waiting_answers := no_answers\<rparr>"
    using p by (auto simp: node_poll_def split: option.splits prod.splits poll.splits)
  have k: "requests_kept F (waiting_answers s) (downloader (consensus_engine s)) (downloader e)"
    using poll_engine_requests [OF e] by (simp add: env_hd_def)
  have "poll_end Pending ms e"
    using poll_engine_run [OF env, of F "consensus_engine s" now "[?v]" "node_messages s"]
      engine_reachable_ok [OF env g node_okD(1) [OF ok]] e by auto
  then have out: "outcomes (downloader e) = []" by (simp add: poll_end_def)
  have tr: "in_transit s' = in_transit s" by (simp add: in_transit_def s')
  show ?thesis
  proof (rule node_okI)
    show "engine_reachable L F rc spec (consensus_engine s') (node_messages s') (node_received s')"
      using engine_poll [OF node_okD(1) [OF ok] e] by (simp add: s')
    show "distinct (map fst (in_transit s'))" using node_okD(5) [OF ok] by (simp only: tr)
    show "t \<in> set (open_requests (downloader (consensus_engine s'))) \<and> \<not> answered (waiting_answers s') (fst t)"
      if "t \<in> set (in_transit s')" for t
      using node_okD(2) [OF ok] node_okD(6,7) [OF ok, of t] that k unfolding requests_kept_def tr
      by (simp add: s') blast
    show "requests_ok F (downloader (consensus_engine s'))"
      using k node_okD(2) [OF ok] by (simp add: requests_kept_def s')
  qed (use out node_okD(4) [OF ok] in \<open>simp_all add: s'\<close>)
qed

lemma node_step_ok:
  assumes env: "engine_env L keys ents rk U rc" and g: "genesis_block spec \<in> U"
    and ok: "node_ok L F rc spec s" and step: "node_step L F rc s s'"
  shows "node_ok L F rc spec s'"
  using step
proof cases
  case (step_receive m)
  have "engine_reachable L F rc spec (consensus_engine s') (node_messages s') (node_received s')"
    using engine_receive [OF node_okD(1) [OF ok], of m] step_receive by (simp add: node_receive_def)
  then show ?thesis using node_okD [OF ok] step_receive by (intro node_okI) simp_all
qed (use node_send_ok [OF ok] node_forward_ok [OF ok] node_answer_ok [OF ok] node_poll_ok [OF env g ok] in blast)+

lemma node_run_ok:
  assumes "engine_env L keys ents rk U rc" and "genesis_block spec \<in> U"
  shows "node_run L F rc s s' \<Longrightarrow> node_ok L F rc spec s \<Longrightarrow> node_ok L F rc spec s'"
  by (induction rule: rtranclp_induct) (auto intro: node_step_ok [OF assms])

end
