(* ===== verification/Node_Launch.thy ===== *)
theory Node_Launch
  imports Verifier_Props Node_Interface Node_System
begin

text \<open>
  Launching the node, \<open>NodeLauncher::launch\<close> in \<open>bin/zk-ress/src/launch.rs\<close>: the parts are built in
  order from the arguments, the first step that fails ends the launch, and the parts of a launched
  node are those the other theories model.
\<close>

section \<open>Arguments and libraries\<close>

record debug_args =
  debug_consensus_url :: "string option"
  rpc_network_adapter_url :: "string option"

record zk_ress_args =
  args_chain :: chain_spec
  args_datadir :: maybe_platform_path
  args_network :: network_args
  args_rpc :: rpc_args
  args_debug :: debug_args
  args_metrics :: "(string \<times> 16 word) option"

text \<open>
  What the libraries do at the launch: bind a listener, read the secret key \<open>'k\<close> of the network,
  start the network manager with a key and an address, resolve a trusted peer to its id and address,
  build the module of the auth server, start it with a secret, and connect the debug client. The
  result of a step that only may fail is its error.
\<close>

record 'k launch_lib =
  launch_paths :: path_lib
  chain_of :: "chain_spec \<Rightarrow> nat"
  chain_jwt :: "string \<times> nat \<Rightarrow> string"
  bind_listener :: "string \<times> 16 word \<Rightarrow> string option"
  get_secret_key :: "string \<Rightarrow> string + 'k"
  network_manager_start :: "'k \<Rightarrow> string \<times> 16 word \<Rightarrow> string option"
  resolve_peer :: "string \<Rightarrow> string + (nat \<times> string)"
  merge_auth_methods :: "string option"
  start_server :: "bytes \<Rightarrow> string \<times> 16 word \<Rightarrow> string option"
  connect_debug_client :: "string \<Rightarrow> string option"

text \<open>The network as launched, with the manager of \<open>Network\<close>, and the node.\<close>

record 'k launched_network =
  network_secret :: 'k
  network_addr :: "string \<times> 16 word"
  network_max_active :: u64
  network_peers :: "(nat \<times> string) list"
  ress_manager :: "peer_request network_manager"

record ('k, 'p, 'i, 'f, 'l) launched_node =
  node_network :: "'k launched_network"
  node_engine :: "('p, 'i, 'f, 'l) engine"
  node_jwt :: bytes
  node_rpc_provider :: "'p provider"
  node_debug :: "string option"

datatype 'a launch_result = LaunchFailed string | LaunchPanicked | Launched 'a

text \<open>The next step of a launch, if this one has not failed.\<close>

definition try_step :: "string option \<Rightarrow> 'a launch_result \<Rightarrow> 'a launch_result" where
  "try_step err next = (case err of Some e \<Rightarrow> LaunchFailed e | None \<Rightarrow> next)"

definition try_value :: "string + 'b \<Rightarrow> ('b \<Rightarrow> 'a launch_result) \<Rightarrow> 'a launch_result" where
  "try_value r next = (case r of Inl e \<Rightarrow> LaunchFailed e | Inr x \<Rightarrow> next x)"

definition try_launch :: "'b launch_result \<Rightarrow> ('b \<Rightarrow> 'a launch_result) \<Rightarrow> 'a launch_result" where
  "try_launch r next =
     (case r of LaunchFailed e \<Rightarrow> LaunchFailed e | LaunchPanicked \<Rightarrow> LaunchPanicked | Launched x \<Rightarrow> next x)"

section \<open>The network\<close>

text \<open>The loop over the trusted peers ends at the first that does not resolve.\<close>

fun add_trusted_peers ::
  "'k launch_lib \<Rightarrow> string list \<Rightarrow> (nat \<times> string) list \<Rightarrow> string + (nat \<times> string) list" where
  "add_trusted_peers N [] peers = Inr peers"
| "add_trusted_peers N (trusted_peer # rest) peers =
     (case resolve_peer N trusted_peer of
        Inl e \<Rightarrow> Inl e
      | Inr peer \<Rightarrow> add_trusted_peers N rest (peers @ [peer]))"

text \<open>The branch for the RPC adapter is \<open>unimplemented!()\<close>.\<close>

definition launch_network ::
  "'k launch_lib \<Rightarrow> zk_ress_args \<Rightarrow> 'k \<Rightarrow> u64 \<Rightarrow> string list \<Rightarrow>
     'k launched_network launch_result" where
  "launch_network N args secret_key max_active peers =
     (let listener = listener_addr (args_network args)
      in try_step (network_manager_start N secret_key listener)
           (try_value (add_trusted_peers N peers [])
             (\<lambda>added. case rpc_network_adapter_url (args_debug args) of
                Some rpc_url \<Rightarrow> LaunchPanicked
              | None \<Rightarrow> Launched \<lparr>network_secret = secret_key, network_addr = listener,
                  network_max_active = max_active, network_peers = added,
                  ress_manager = network_manager_new\<rparr>)))"

section \<open>The servers\<close>

definition start_prometheus_server :: "'k launch_lib \<Rightarrow> string \<times> 16 word \<Rightarrow> string option" where
  "start_prometheus_server N socket = bind_listener N socket"

definition start_auth_server :: "'k launch_lib \<Rightarrow> zk_ress_args \<Rightarrow> bytes \<Rightarrow> string option" where
  "start_auth_server N args jwt_key =
     (let auth_socket = auth_rpc_addr (args_rpc args)
      in case merge_auth_methods N of Some e \<Rightarrow> Some e | None \<Rightarrow> start_server N jwt_key auth_socket)"

text \<open>What the auth server says of itself; the version and the commit come from the build.\<close>

record client_version =
  client_code :: string
  client_name :: string
  client_version_string :: string
  client_commit :: string

definition ress_client_version :: "string \<Rightarrow> string \<Rightarrow> client_version" where
  "ress_client_version cargo_pkg_version vergen_git_sha =
     \<lparr>client_code = ''RH'', client_name = ''ZkRess'', client_version_string = cargo_pkg_version,
      client_commit = vergen_git_sha\<rparr>"

text \<open>
  The metrics endpoint: every connection that is accepted is served the metrics rendered for it, one
  that fails is skipped. An accepted connection is given by what the recorder renders.
\<close>

record metrics_response =
  metrics_content_type :: string
  metrics_body :: string

definition metrics_service :: "string \<Rightarrow> metrics_response" where
  "metrics_service rendered = \<lparr>metrics_content_type = ''text/plain'', metrics_body = rendered\<rparr>"

fun metrics_loop :: "(string + string) list \<Rightarrow> metrics_response list" where
  "metrics_loop [] = []"
| "metrics_loop (Inl error # incoming) = metrics_loop incoming"
| "metrics_loop (Inr rendered # incoming) = metrics_service rendered # metrics_loop incoming"

text \<open>A failed connection never stops the endpoint.\<close>

lemma metrics_loop_serves: "map metrics_body (metrics_loop incoming) = List.map_filter
    (\<lambda>a. case a of Inl _ \<Rightarrow> None | Inr rendered \<Rightarrow> Some rendered) incoming"
  by (induction incoming rule: metrics_loop.induct) (simp_all add: map_filter_simps metrics_service_def)

section \<open>The debug client\<close>

text \<open>
  The blocks of the debug client are those of the RPC without what the RPC adds to the header \<open>'h\<close> and
  the transactions, and without ommers. The transactions are those \<open>into_transactions\<close> gives;
  \<open>into_inner\<close> is a library function.
\<close>

record ('h, 't, 'w) rpc_debug_block =
  rpc_header_inner :: 'h
  rpc_transactions :: "'t list"
  rpc_withdrawals :: "'w option"

record ('h, 'u, 'w) primitive_block =
  prim_header :: 'h
  prim_transactions :: "'u list"
  prim_ommers :: "'h list"
  prim_withdrawals :: "'w option"

definition rpc_to_primitive_block ::
  "('t \<Rightarrow> 'u) \<Rightarrow> ('h, 't, 'w) rpc_debug_block \<Rightarrow> ('h, 'u, 'w) primitive_block" where
  "rpc_to_primitive_block into_inner b =
     \<lparr>prim_header = rpc_header_inner b, prim_transactions = map into_inner (rpc_transactions b),
      prim_ommers = [], prim_withdrawals = rpc_withdrawals b\<rparr>"

section \<open>The launch\<close>

text \<open>The engine shares the chain state of the provider with its verifier and the servers.\<close>

definition launch_engine ::
  "(execution_state_witness, 'x, 'e, 'at, 'i, 'f, 'l) tree_lib \<Rightarrow>
     ('s, 't, 'a, 'n, 'c, 'cfg, 'v, 'g, 'tx, 'r, 'b) verifier_lib \<Rightarrow>
     ((b256 \<times> (string + 't)) list \<Rightarrow> (b256 \<times> (string + 't)) list) \<Rightarrow> chain_spec \<Rightarrow>
     (execution_state_witness, 'i, 'f, 'l) engine" where
  "launch_engine L V arrival spec =
     engine_new (tree_with L spec (verify_block V arrival)) (launch_provider spec)"

definition launch_node ::
  "'k launch_lib \<Rightarrow> (execution_state_witness, 'x, 'e, 'at, 'i, 'f, 'l) tree_lib \<Rightarrow>
     ('s, 't, 'a, 'n, 'c, 'cfg, 'v, 'g, 'tx, 'r, 'b) verifier_lib \<Rightarrow>
     ((b256 \<times> (string + 't)) list \<Rightarrow> (b256 \<times> (string + 't)) list) \<Rightarrow> zk_ress_args \<Rightarrow>
     ('k, execution_state_witness, 'i, 'f, 'l) launched_node launch_result" where
  "launch_node N L V arrival args =
     (let P = launch_paths N;
          datadir = unwrap_or_chain_default P (args_datadir args) (chain_of N (args_chain args));
          net = args_network args
      in try_step (case args_metrics args of Some a \<Rightarrow> start_prometheus_server N a | None \<Rightarrow> None)
        (try_value (get_secret_key N (network_secret_path P net datadir)) (\<lambda>secret.
          try_launch (launch_network N args secret (max_active_connections net) (trusted_peers net))
            (\<lambda>network.
              (let engine = launch_engine L V arrival (args_chain args)
               in try_value (auth_jwt_secret P (args_rpc args) (chain_jwt N datadir)) (\<lambda>jwt_key.
                    try_step (start_auth_server N args jwt_key)
                      (try_step (case debug_consensus_url (args_debug args) of
                           Some url \<Rightarrow> connect_debug_client N url | None \<Rightarrow> None)
                         (Launched \<lparr>node_network = network, node_engine = engine, node_jwt = jwt_key,
                            node_rpc_provider = launch_provider (args_chain args),
                            node_debug = debug_consensus_url (args_debug args)\<rparr>))))))))"

text \<open>
  The executable: its hook for panics ends the process, so that a panic of any part ends the node with
  code 1, as does an error of the launch.
\<close>

definition node_main_exit :: "'a launch_result \<Rightarrow> nat" where
  "node_main_exit r =
     (case r of LaunchPanicked \<Rightarrow> 1 | LaunchFailed e \<Rightarrow> 1 | Launched n \<Rightarrow> 0)"

section \<open>A launched node\<close>

lemma try_step_iff:
  "try_step err next = Launched n \<longleftrightarrow> err = None \<and> next = Launched n"
  "try_step err next = LaunchPanicked \<longleftrightarrow> err = None \<and> next = LaunchPanicked"
  by (auto simp: try_step_def split: option.splits)

lemma try_value_iff:
  "try_value r f = Launched n \<longleftrightarrow> (\<exists>x. r = Inr x \<and> f x = Launched n)"
  "try_value r f = LaunchPanicked \<longleftrightarrow> (\<exists>x. r = Inr x \<and> f x = LaunchPanicked)"
  by (auto simp: try_value_def split: sum.splits)

lemma try_launch_iff:
  "try_launch r f = Launched n \<longleftrightarrow> (\<exists>x. r = Launched x \<and> f x = Launched n)"
  "try_launch r f = LaunchPanicked \<longleftrightarrow> r = LaunchPanicked \<or> (\<exists>x. r = Launched x \<and> f x = LaunchPanicked)"
  by (auto simp: try_launch_def split: launch_result.splits)

lemmas step_iffs = try_step_iff try_value_iff try_launch_iff

lemma add_trusted_peers_all:
  "add_trusted_peers N ps added = Inr xs \<longleftrightarrow>
     (\<exists>ys. xs = added @ ys \<and> map (resolve_peer N) ps = map Inr ys)"
proof (induction N ps added arbitrary: xs rule: add_trusted_peers.induct)
  case (2 N p ps added)
  show ?case
  proof (cases "resolve_peer N p")
    case (Inr y)
    then show ?thesis using "2.IH" [OF Inr, of xs] by (auto simp: Cons_eq_map_conv)
  qed auto
qed auto

lemma launch_network_iff:
  "launch_network N args k n ps = Launched w \<longleftrightarrow>
     network_manager_start N k (listener_addr (args_network args)) = None \<and>
     rpc_network_adapter_url (args_debug args) = None \<and>
     map (resolve_peer N) ps = map Inr (network_peers w) \<and> network_secret w = k \<and>
     network_addr w = listener_addr (args_network args) \<and> network_max_active w = n \<and>
     ress_manager w = network_manager_new"
  by (cases w) (auto simp: launch_network_def Let_def step_iffs add_trusted_peers_all split: option.splits)

lemma launch_network_panic:
  "launch_network N args k n ps = LaunchPanicked \<Longrightarrow> rpc_network_adapter_url (args_debug args) \<noteq> None"
  by (auto simp: launch_network_def Let_def step_iffs split: option.splits)

lemma launch_provider_sel:
  "fmlookup (blocks_by_hash (chain_state_of (launch_provider spec))) (genesis_hash spec) =
     Some (genesis_block spec)"
  "canonical (chain_state_of (launch_provider spec)) 0 = Some (genesis_hash spec)"
  by (simp_all add: launch_provider_def provider_new_def chain_state_default_def)

lemma launch_provider_serves:
  "protocol_header (launch_provider spec) (genesis_hash spec) = Inr (Some (genesis_header spec))"
  "provider_is_hash_canonical (launch_provider spec) (genesis_hash spec)"
  "eth_rpc chain_id (launch_provider spec) EthChainId = Inr (ChainId (Some (chain_id spec)))"
proof -
  show "protocol_header (launch_provider spec) (genesis_hash spec) = Inr (Some (genesis_header spec))"
    by (simp add: protocol_header_def header_of_def map_recovered_block_def launch_provider_sel
        genesis_block_def clone_header_def header.truncate_def Let_def)
  show "provider_is_hash_canonical (launch_provider spec) (genesis_hash spec)"
    using launch_provider_sel(2) by (auto simp: is_hash_canonical_iff)
  show "eth_rpc chain_id (launch_provider spec) EthChainId = Inr (ChainId (Some (chain_id spec)))"
    by (simp add: eth_rpc_def rpc_chain_id_def provider_chain_spec_def launch_provider_def
        provider_insert_block_def provider_insert_canonical_hash_def provider_new_def)
qed

lemma launch_engine_provider: "provider (tree (launch_engine L V arrival spec)) = launch_provider spec"
  by (simp add: launch_engine_def engine_new_def engine_tree_new_def Let_def)

text \<open>
  C23: a launch ends in a node only if every trusted peer resolves and the option for the RPC adapter
  is not given, and panics only if it is. The node has added exactly the trusted peers, its network
  manager is empty, its engine is a reachable engine with the witness verifier, and its provider
  serves genesis to peers and the id of the chain to clients.
\<close>

theorem launched_node_ready:
  "case launch_node N L V arrival args of
     LaunchFailed e \<Rightarrow> True
   | LaunchPanicked \<Rightarrow> rpc_network_adapter_url (args_debug args) \<noteq> None
   | Launched n \<Rightarrow>
       rpc_network_adapter_url (args_debug args) = None \<and>
       map (resolve_peer N) (trusted_peers (args_network args)) =
         map Inr (network_peers (node_network n)) \<and>
       bags_of (ress_manager (node_network n)) = ({#}, {#}) \<and>
       engine_reachable (tree_with L (args_chain args) (verify_block V arrival)) F rc
         (args_chain args) (node_engine n) [] [] \<and>
       node_rpc_provider n = provider (tree (node_engine n)) \<and>
       protocol_header (node_rpc_provider n) (genesis_hash (args_chain args)) =
         Inr (Some (genesis_header (args_chain args))) \<and>
       provider_is_hash_canonical (node_rpc_provider n) (genesis_hash (args_chain args)) \<and>
       eth_rpc chain_id (node_rpc_provider n) EthChainId =
         Inr (ChainId (Some (chain_id (args_chain args))))"
proof (cases "launch_node N L V arrival args")
  case LaunchPanicked
  then have "rpc_network_adapter_url (args_debug args) \<noteq> None"
    by (auto simp: launch_node_def Let_def step_iffs dest: launch_network_panic)
  then show ?thesis by (simp add: LaunchPanicked)
next
  case (Launched n)
  then obtain k where
    w: "launch_network N args k (max_active_connections (args_network args))
      (trusted_peers (args_network args)) = Launched (node_network n)" and
    e: "node_engine n = launch_engine L V arrival (args_chain args)"
       "node_rpc_provider n = launch_provider (args_chain args)"
    by (auto simp: launch_node_def Let_def step_iffs)
  have "engine_reachable (tree_with L (args_chain args) (verify_block V arrival)) F rc
      (args_chain args) (node_engine n) [] []"
    unfolding e launch_engine_def by (rule engine_start)
  moreover have "bags_of (network_manager_new :: peer_request network_manager) = ({#}, {#})"
    by (simp add: bags_of_def network_manager_new_def)
  ultimately show ?thesis
    using w e by (auto simp: Launched launch_network_iff launch_provider_serves launch_engine_provider)
qed simp

text \<open>The engine and the network manager of a launched node are those the composed node starts with.\<close>

lemma launched_node_starts:
  assumes "launch_node N L V arrival args = Launched n"
  shows "consensus_engine (node_new (tree_with L (args_chain args) (verify_block V arrival)) (args_chain args)) =
      node_engine n"
    and "ress_manager (node_network n) = network_manager_new"
  using assms
  by (auto simp: launch_node_def Let_def step_iffs launch_network_iff launch_engine_def node_new_def)

section \<open>Concrete launches\<close>

text \<open>Peers resolve if they have a name; a bad peer, a bad secret and the option for the adapter end it.\<close>

definition ex_launch_lib :: "nat launch_lib" where
  "ex_launch_lib = \<lparr>launch_paths = \<lparr>platform_path_from_str = Inr, platform_path_fmt = (\<lambda>p. p),
       platform_data_dir = Some ''d'', platform_path_default = ''d'', path_join = (@),
       chain_p2p_secret = (\<lambda>d. fst d @ ''s''), chain_to_string = (\<lambda>n. replicate n CHR ''1''),
       jwt_from_file = (\<lambda>p. if p = [] then Inl ''no file'' else Inr [1]),
       get_or_create_jwt = (\<lambda>p. Inr [2])\<rparr>,
     chain_of = (\<lambda>_. 1), chain_jwt = (\<lambda>d. fst d @ ''j''), bind_listener = (\<lambda>_. None),
     get_secret_key = (\<lambda>p. Inr (length p)), network_manager_start = (\<lambda>_ _. None),
     resolve_peer = (\<lambda>p. if p = [] then Inl ''no peer'' else Inr (length p, p)),
     merge_auth_methods = None, start_server = (\<lambda>_ _. None), connect_debug_client = (\<lambda>_. None)\<rparr>"

definition ex_args :: "string list \<Rightarrow> string option \<Rightarrow> string option \<Rightarrow> zk_ress_args" where
  "ex_args peers adapter jwt = \<lparr>args_chain = ex_spec, args_datadir = MaybePlatformPath None,
     args_network = \<lparr>addr = ''a'', port = 30303, p2p_secret_key = None, max_active_connections = 256,
       trusted_peers = peers\<rparr>,
     args_rpc = \<lparr>auth_addr = ''b'', auth_port = 8551, auth_jwtsecret = jwt\<rparr>,
     args_debug = \<lparr>debug_consensus_url = None, rpc_network_adapter_url = adapter\<rparr>, args_metrics = None\<rparr>"

definition ex_launch ::
  "string list \<Rightarrow> string option \<Rightarrow> string option \<Rightarrow> (nat \<times> bytes \<times> nat list) launch_result" where
  "ex_launch peers adapter jwt =
     try_launch (launch_node ex_launch_lib ex_lib_base ex_verifier rev (ex_args peers adapter jwt))
       (\<lambda>n. Launched (network_secret (node_network n), node_jwt n, map fst (network_peers (node_network n))))"

lemma ex_launches:
  "ex_launch [''x'', ''yz''] None None = Launched (3, [2], [1, 2])"
  "ex_launch [''x'', [], ''yz''] None None = LaunchFailed ''no peer''"
  "ex_launch [''x''] (Some ''url'') None = LaunchPanicked"
  "ex_launch [''x''] None (Some []) = LaunchFailed ''no file''"
  by code_simp+

end
