(* ===== verification/Reth_Main.thy ===== *)
theory Reth_Main
  imports Prelude
begin

text \<open>
  The stateful node that serves the peers, \<open>bin/reth/src/main.rs\<close>: after its launch the sub protocols
  that the arguments ask for are installed in order, and the first failure ends the run.
\<close>

section \<open>Arguments and libraries\<close>

record ress_args =
  ress_enabled :: bool
  max_witness_window :: u64
  witness_max_parallel :: u64
  witness_cache_size :: u32
  ress_max_active_connections :: u64

record extra_args =
  ress :: ress_args
  zk_ress_protocols :: "string list"

text \<open>
  The node \<open>'n\<close>, the provider of its data \<open>'v\<close> and the provers \<open>'z\<close> belong to the libraries. The
  result of a step that only may fail is its error.
\<close>

record ('n, 'v, 'z) reth_lib =
  launch_stateful :: "string + 'n"
  protocol_provider_new :: "'n \<Rightarrow> u64 \<Rightarrow> u64 \<Rightarrow> u32 \<Rightarrow> string + 'v"
  install_ress_subprotocol :: "'v \<Rightarrow> u64 \<Rightarrow> string option"
  prover_try_from_arg :: "string \<Rightarrow> string + 'z"
  install_zk_ress_subprotocol :: "'z \<Rightarrow> nat \<Rightarrow> 'v \<Rightarrow> u64 \<Rightarrow> string option"
  node_exit :: "'n \<Rightarrow> string option"

text \<open>What the run did, in order; an installation that failed is not listed.\<close>

datatype ('v, 'z) installed =
    MaintainPendingState
  | RessProtocol 'v u64
  | ZkRessProtocol 'z nat 'v u64

section \<open>The run\<close>

fun install_zk_protocols ::
  "('n, 'v, 'z) reth_lib \<Rightarrow> 'v \<Rightarrow> u64 \<Rightarrow> string list \<Rightarrow> ('v, 'z) installed list \<Rightarrow>
     string option \<times> ('v, 'z) installed list" where
  "install_zk_protocols R prov max_active [] sofar = (None, sofar)"
| "install_zk_protocols R prov max_active (protocol # protocols) sofar =
     (case prover_try_from_arg R protocol of
        Inl e \<Rightarrow> (Some e, sofar)
      | Inr prover \<Rightarrow>
          (case install_zk_ress_subprotocol R prover 0 prov max_active of
             Some e \<Rightarrow> (Some e, sofar)
           | None \<Rightarrow>
               install_zk_protocols R prov max_active protocols
                 (sofar @ [ZkRessProtocol prover 0 prov max_active])))"

definition install_protocols ::
  "('n, 'v, 'z) reth_lib \<Rightarrow> 'n \<Rightarrow> extra_args \<Rightarrow> string option \<times> ('v, 'z) installed list" where
  "install_protocols R n extra =
     (let args = ress extra; max_active = ress_max_active_connections args
      in if ress_enabled args \<or> zk_ress_protocols extra \<noteq> []
         then
           (case protocol_provider_new R n (max_witness_window args) (witness_max_parallel args)
                   (witness_cache_size args) of
              Inl e \<Rightarrow> (Some e, [MaintainPendingState])
            | Inr prov \<Rightarrow>
                (case (if ress_enabled args then install_ress_subprotocol R prov max_active else None) of
                   Some e \<Rightarrow> (Some e, [MaintainPendingState])
                 | None \<Rightarrow>
                     install_zk_protocols R prov max_active (zk_ress_protocols extra)
                       (MaintainPendingState #
                         (if ress_enabled args then [RessProtocol prov max_active] else []))))
         else (None, []))"

definition reth_main ::
  "('n, 'v, 'z) reth_lib \<Rightarrow> extra_args \<Rightarrow> string option \<times> ('v, 'z) installed list" where
  "reth_main R extra =
     (case launch_stateful R of
        Inl e \<Rightarrow> (Some e, [])
      | Inr n \<Rightarrow>
          (case install_protocols R n extra of
             (Some e, sofar) \<Rightarrow> (Some e, sofar)
           | (None, sofar) \<Rightarrow> (node_exit R n, sofar)))"

section \<open>What is installed\<close>

lemma install_zk_protocols_all:
  "install_zk_protocols R prov m ps sofar = (None, all) \<Longrightarrow>
     \<exists>zs. map (prover_try_from_arg R) ps = map Inr zs \<and>
       all = sofar @ map (\<lambda>z. ZkRessProtocol z 0 prov m) zs"
proof (induction ps arbitrary: sofar)
  case (Cons p ps)
  then obtain z where z: "prover_try_from_arg R p = Inr z"
    "install_zk_protocols R prov m ps (sofar @ [ZkRessProtocol z 0 prov m]) = (None, all)"
    by (auto split: sum.splits option.splits)
  from Cons.IH [OF z(2)] obtain zs where "map (prover_try_from_arg R) ps = map Inr zs"
    "all = (sofar @ [ZkRessProtocol z 0 prov m]) @ map (\<lambda>z. ZkRessProtocol z 0 prov m) zs" by blast
  then show ?case using z(1) by (intro exI [of _ "z # zs"]) simp
qed simp

text \<open>
  A run without an error installed ress if it is enabled, and every zk protocol of the arguments with
  version 0 in their order; it maintains the pending state exactly if anything is installed.
\<close>

lemma install_protocols_all:
  assumes "install_protocols R n extra = (None, all)"
  shows "if ress_enabled (ress extra) \<or> zk_ress_protocols extra \<noteq> []
    then \<exists>prov zs. map (prover_try_from_arg R) (zk_ress_protocols extra) = map Inr zs \<and>
      all = MaintainPendingState #
        (if ress_enabled (ress extra) then [RessProtocol prov (ress_max_active_connections (ress extra))] else []) @
        map (\<lambda>z. ZkRessProtocol z 0 prov (ress_max_active_connections (ress extra))) zs
    else all = []"
proof (cases "ress_enabled (ress extra) \<or> zk_ress_protocols extra \<noteq> []")
  case True
  then obtain prov where "install_zk_protocols R prov (ress_max_active_connections (ress extra))
      (zk_ress_protocols extra) (MaintainPendingState #
        (if ress_enabled (ress extra) then [RessProtocol prov (ress_max_active_connections (ress extra))] else [])) =
      (None, all)"
    using assms by (auto simp: install_protocols_def Let_def split: sum.splits option.splits if_splits)
  from install_zk_protocols_all [OF this] show ?thesis using True by auto
qed (use assms in \<open>simp add: install_protocols_def Let_def\<close>)

text \<open>An unknown protocol ends the run after those before it have been installed.\<close>

lemma unknown_protocol_ends:
  assumes "prover_try_from_arg R p = Inl e" and "\<forall>q \<in> set ps. \<exists>z. prover_try_from_arg R q = Inr z"
    and "\<forall>z. install_zk_ress_subprotocol R z 0 prov m = None"
  shows "\<exists>zs. map (prover_try_from_arg R) ps = map Inr zs \<and>
    install_zk_protocols R prov m (ps @ p # rest) sofar =
      (Some e, sofar @ map (\<lambda>z. ZkRessProtocol z 0 prov m) zs)"
  using assms(2)
proof (induction ps arbitrary: sofar)
  case (Cons q ps)
  then obtain z where z: "prover_try_from_arg R q = Inr z" by auto
  obtain zs where "map (prover_try_from_arg R) ps = map Inr zs"
    "install_zk_protocols R prov m (ps @ p # rest) (sofar @ [ZkRessProtocol z 0 prov m]) =
      (Some e, (sofar @ [ZkRessProtocol z 0 prov m]) @ map (\<lambda>z. ZkRessProtocol z 0 prov m) zs)"
    using Cons.IH [of "sofar @ [ZkRessProtocol z 0 prov m]"] Cons.prems by auto
  then show ?case using z assms(3) by (intro exI [of _ "z # zs"]) simp
qed (use assms(1) in simp)

end
