(* ===== verification/Node_Props.thy ===== *)
theory Node_Props
  imports Node_System
begin

text \<open>
  The properties of the node as a whole: its requests are routed and its answers read, and a proof a
  peer has answers the payload that is parked for it; with a run of a launched node.
\<close>

section \<open>Reaching a peer\<close>

lemma node_forward_delivers:
  assumes "sent (node_manager s) = []"
  shows "mset (map snd (at_peers (node_forward {} [c] s))) = mset (in_transit s)"
proof -
  let ?m = "poll_network {} [c] (request_channel s) (node_manager s)"
  have "connections ?m \<noteq> []" using poll_network_open [OF refl, of "[c]" "request_channel s" "node_manager s"] by auto
  then have "pending_requests ?m = []" using poll_network_delivers [of "{}" "node_manager s" "request_channel s" "[c]"] by blast
  then have "map snd (at_peers (node_forward {} [c] s)) = in_transit (node_forward {} [c] s)"
    by (simp add: in_transit_def node_forward_def Let_def)
  then show ?thesis using node_forward_transit [OF assms, of "{}" "[c]"] by simp
qed

lemma reach_peer:
  assumes ok: "node_ok L F rc spec s" and x: "x \<in> fst ` set (open_requests (downloader (consensus_engine s)))"
    and w: "\<not> answered (waiting_answers s) x"
  shows "\<exists>s' q. node_run L F rc s s' \<and> q \<in> set (at_peers s') \<and> fst (snd q) = x \<and>
    consensus_engine s' = consensus_engine s \<and> node_messages s' = node_messages s \<and>
    waiting_answers s' = waiting_answers s"
proof -
  obtain r where r: "(x, r) \<in> set (open_requests (downloader (consensus_engine s)))" using x by auto
  obtain s1 where s1: "node_run L F rc s s1" "x \<in> fst ` set (in_transit s1)" "node_manager s1 = node_manager s"
    "consensus_engine s1 = consensus_engine s" "node_messages s1 = node_messages s" "waiting_answers s1 = waiting_answers s"
  proof (cases "x \<in> fst ` set (in_transit s)")
    case True
    then show ?thesis by (intro that [of s]) simp_all
  next
    case False
    then have "node_step L F rc s (node_send (x, r) s)" using r w by (intro step_send) simp_all
    then have "node_run L F rc s (node_send (x, r) s)" by blast
    then show ?thesis by (rule that) (simp_all add: in_transit_def node_send_def)
  qed
  let ?c = "\<lparr>peer_id = 0, to_connection = 0\<rparr>"
  have "node_run L F rc s (node_forward {} [?c] s1)"
    using s1(1) step_forward by (rule rtranclp.rtrancl_into_rtrancl)
  moreover have "set (map snd (at_peers (node_forward {} [?c] s1))) = set (in_transit s1)"
    using node_forward_delivers [of s1 ?c] node_okD(4) [OF ok] s1(3) mset_eq_setD by metis
  then obtain q where "q \<in> set (at_peers (node_forward {} [?c] s1))" "fst (snd q) = x"
    using s1(2) by (metis (no_types, lifting) image_iff list.set_map)
  ultimately show ?thesis using s1 by (intro exI [of _ "node_forward {} [?c] s1"] exI [of _ q]) simp
qed

section \<open>An answered proof\<close>

lemma proof_answer_ready:
  assumes ok: "downloader_ok L d" and out: "outcomes d = []" and h: "(ProofTy, h) \<in># inflight d"
    and acc: "accept_proof L (Inr b) = Some w"
  shows "\<exists>d'. poll_downloader L (route_answer ((ProofTy, h), ProofPart) (Some (ProofAnswer b)) no_answers) d =
    Some (Ready (ProofData h w), d') \<and> outcomes d' = []"
proof -
  let ?a = "route_answer ((ProofTy, h), ProofPart) (Some (ProofAnswer b)) no_answers"
  let ?v = "inflight_proof_requests d"
  let ?q = "\<lambda>f. drop_env (poll_proof_env L f (proof_answers ?a (pf_block_hash f)))"
  have a: "finalized_answers ?a = (\<lambda>_. no_polls)" "full_answers ?a = (\<lambda>_. no_polls)"
    "proof_answers ?a = (\<lambda>_. no_polls)(h := no_polls\<lparr>proof_polls := [Ready (Inr b)]\<rparr>)"
    by (simp_all add: route_answer_def no_answers_def push_answer_def fetch_result_def no_polls_def)
  obtain v1 where v1: "advance (\<lambda>f. drop_env (poll_with_ancestors L f no_polls))
      (length (inflight_finalized_block_requests d)) (inflight_finalized_block_requests d) [] = Some (v1, [])"
    using with_ancestors.advance_quiet [of "inflight_finalized_block_requests d" L 256] ok
    by (auto simp: downloader_ok_def)
  obtain v2 where v2: "advance (\<lambda>f. drop_env (poll_full_block_env L f no_polls))
      (length (inflight_full_block_requests d)) (inflight_full_block_requests d) [] = Some (v2, [])"
    using full_block.advance_quiet [of "inflight_full_block_requests d" L] ok
    by (auto simp: downloader_ok_def)
  have q: "?q f = (if pf_block_hash f = h then (Ready w, f) else (Pending, f))" for f
    using acc by (simp add: a poll_proof_env_def drop_env_def no_polls_def)
  obtain f where f: "f \<in> set ?v" "pf_block_hash f = h" using h by (auto simp: inflight_def)
  then obtain xs ys where v: "?v = xs @ f # ys" by (meson split_list)
  have "pf_block_hash g \<noteq> h" if "g \<in> set xs \<or> g \<in> set ys" for g
  proof -
    have "distinct (map pf_block_hash (xs @ f # ys))" using ok unfolding downloader_ok_def v by blast
    then have "h \<notin> pf_block_hash ` (set xs \<union> set ys)" using f(2) by auto
    then show ?thesis using that by blast
  qed
  then have "filter (\<lambda>g. pf_block_hash g = h) (rev ?v) = [f]"
    using f(2) by (simp add: v filter_empty_conv)
  moreover have "ready_of ?q vs = map (\<lambda>g. (g, w)) (filter (\<lambda>g. pf_block_hash g = h) vs)" for vs
    by (induction vs) (simp_all add: ready_of_def map_filter_simps q)
  ultimately have "ready_of ?q (rev ?v) = [(f, w)]" by simp
  moreover have "\<exists>v3. advance ?q (length ?v) ?v [] = Some (v3, ready_of ?q (rev ?v)) \<and>
      mset v3 = mset (pending_of ?q ?v)"
    by (rule advance_partition) (simp add: q)
  ultimately obtain v3 where "advance ?q (length ?v) ?v [] = Some (v3, [(f, w)])" by auto
  then show ?thesis
    using out v1 v2 f(2)
    by (simp add: poll_downloader_def pop_outcome_def advance_finalized_def advance_full_blocks_def
        advance_proofs_def a)
qed

text \<open>Without answers and outcomes a poll ends pending.\<close>

lemma poll_engine_quiet:
  assumes env: "engine_env L keys ents rk U rc"
  shows "engine_ok L F keys ents rk U e \<Longrightarrow> outcomes (downloader e) = [] \<Longrightarrow>
    \<exists>ms' e'. poll_engine L F rc now [] ms e = Some (Pending, ms', e')"
proof (induction "length ms" arbitrary: ms e rule: less_induct)
  case less
  obtain d where d: "poll_downloader F no_answers (downloader e) = Some (Pending, d)" "outcomes d = []"
    using poll_downloader_quiet [of F "downloader e"] less.prems by (auto simp: engine_ok_def)
  obtain r ms1 e1 where i: "engine_iteration L F rc (quiet_env now) ms e = Some (r, ms1, e1)"
    "poll_ok L F keys ents rk U rc ms e ms1 e1" and fin: "case r of
       Some p \<Rightarrow> poll_end p ms1 e1
     | None \<Rightarrow> length (outcomes (downloader e1)) + length ms1 < length ms"
    using engine_iteration_run [OF env less.prems(1), of "quiet_env now" ms] less.prems(2)
    by (auto simp: quiet_env_def split: option.splits)
  have r: "r = Some Pending \<or> r = None"
    using i(1) d by (auto simp: engine_iteration_def quiet_env_def split: prod.splits bool.splits list.splits Option.bind_splits)
  show ?case
  proof (cases r)
    case None
    then obtain m where "ms = m # ms1"
      using i(1) d by (auto simp: engine_iteration_def quiet_env_def split: prod.splits bool.splits list.splits Option.bind_splits)
    then have "outcomes (downloader e1) = []" using fin None by simp
    then show ?thesis
      using less.hyps [of ms1 e1] i fin None by (simp add: poll_engine.simps env_hd_def poll_ok_def quiet_env_def)
  next
    case (Some p)
    then show ?thesis using r i(1) by (simp add: poll_engine.simps env_hd_def)
  qed
qed

text \<open>The answer to a proof answers the parked payload, before anything else.\<close>

lemma poll_answered_proof:
  assumes env: "engine_env L keys ents rk U rc" and ok: "engine_ok L F keys ents rk U e"
    and out: "outcomes (downloader e) = []" and p: "parked e = Some p"
    and acc: "accept_proof F (Inr b) = Some w"
    and h: "buffered (tree e) (parked_block_hash p) \<noteq> None"
      "(ProofTy, parked_block_hash p) \<in># inflight (downloader e)"
  shows "\<exists>ms' e' res rest. poll_engine L F rc now
      [\<lparr>env_answers = route_answer ((ProofTy, parked_block_hash p), ProofPart) (Some (ProofAnswer b)) no_answers,
        env_now = now\<rparr>] ms e = Some (Pending, ms', e') \<and>
    responses e' = responses e @ (parked_tx p, PayloadResponse res) # rest"
proof -
  let ?h = "parked_block_hash p"
  let ?a = "route_answer ((ProofTy, ?h), ProofPart) (Some (ProofAnswer b)) no_answers"
  let ?v = "\<lparr>env_answers = ?a, env_now = now\<rparr>"
  have dok: "downloader_ok F (downloader e)" and inv: "tree_inv L keys ents rk U (tree e)"
    using ok by (simp_all add: engine_ok_def)
  obtain d where d: "poll_downloader F ?a (downloader e) = Some (Ready (ProofData ?h w), d)" "outcomes d = []"
    using proof_answer_ready [OF dok out h(2) acc] by blast
  let ?e = "e\<lparr>downloader := d\<rparr>"
  have dok': "downloader_ok F d" "good_data F (ProofData ?h w)"
    using poll_downloader_ok [OF dok, of ?a] d by auto
  have ok': "engine_ok L F keys ents rk U ?e" using inv dok' by (simp add: engine_ok_def)
  obtain e1 res where e1: "on_download_outcome L rc (ProofData ?h w) ?e = Some (None, e1)"
    "responses e1 = responses e @ [(parked_tx p, PayloadResponse res)]"
    using proof_answers_parked [OF env ok', of p w] p h(1) by auto
  have run: "engine_run L F keys ents rk U rc ?e e1"
    using on_download_outcome_run [OF env ok' dok'(2)] e1(1) by auto
  obtain ms' e' where e': "poll_engine L F rc now [] ms e1 = Some (Pending, ms', e')"
    using poll_engine_quiet [OF env, of F e1 now ms] run d(2) by (auto simp: engine_run_def)
  have "engine_iteration L F rc ?v ms e = Some (None, ms, e1)"
    using d(1) e1(1) by (simp add: engine_iteration_def)
  then have "poll_engine L F rc now [?v] ms e = Some (Pending, ms', e')"
    using e' by (simp add: poll_engine.simps [of L F rc now "[?v]"] env_hd_def)
  moreover have "prefix (responses e1) (responses e')"
    using poll_engine_clock [OF e'] by (simp add: poll_clocked_def)
  ultimately show ?thesis using e1(2) by (auto simp: prefix_def)
qed

section \<open>Properties\<close>

lemma node_reachable_ok:
  assumes "engine_env L keys ents rk U rc" and "genesis_block spec \<in> U"
    and "node_run L F rc (node_new L spec) s"
  shows "node_ok L F rc spec s" "engine_ok L F keys ents rk U (consensus_engine s)"
  using node_run_ok [OF assms node_ok_new] engine_reachable_ok [OF assms(1,2)] node_okD(1) by blast+

text \<open>
  C6: in every state of the node, a request in transit is in transit once only, in the channel, at the
  manager or at a peer; it is one the downloader has open and asks for what its download is for. The
  answers that wait are one at most for each open request, and the next poll reads all of them.
\<close>

theorem node_requests_routed:
  assumes "engine_env L keys ents rk U rc" and "genesis_block spec \<in> U"
    and "node_run L F rc (node_new L spec) s"
  shows "distinct (map fst (in_transit s)) \<and>
    (\<forall>(x, r) \<in> set (in_transit s). (x, r) \<in> set (open_requests (downloader (consensus_engine s))) \<and>
       asks_for x r \<and> \<not> answered (waiting_answers s) x) \<and>
    answers_routed (waiting_answers s) (downloader (consensus_engine s)) \<and>
    answers_read F (waiting_answers s) (downloader (consensus_engine s))"
proof -
  note ok = node_reachable_ok [OF assms]
  have "answers_read F (waiting_answers s) (downloader (consensus_engine s))"
    using answers_all_read [OF node_okD(2) [OF ok(1)] _ node_okD(8) [OF ok(1)]] ok(2)
    by (simp add: engine_ok_def)
  moreover have "\<forall>(x, r) \<in> set (in_transit s). (x, r) \<in> set (open_requests (downloader (consensus_engine s))) \<and>
       asks_for x r \<and> \<not> answered (waiting_answers s) x"
    using node_okD(6,7) [OF ok(1)] open_request_asks [OF node_okD(2) [OF ok(1)]] by fastforce
  ultimately show ?thesis using node_okD(5,8) [OF ok(1)] by blast
qed

text \<open>
  Every run of the node is a run of its engine in the environment of the engine's own properties: what
  the network does is one of the oracles.
\<close>

lemma node_run_refines_engine:
  assumes "engine_env L keys ents rk U rc" and "genesis_block spec \<in> U"
    and "node_run L F rc (node_new L spec) s"
  shows "engine_reachable L F rc spec (consensus_engine s) (node_messages s) (node_received s)"
  using node_okD(1) [OF node_reachable_ok(1) [OF assms]] .

text \<open>What a peer whose provider is \<open>peer\<close> answers to the request for a proof.\<close>

definition served_proof :: "('p \<Rightarrow> bytes) \<Rightarrow> 'p provider \<Rightarrow> b256 \<Rightarrow> peer_answer option" where
  "served_proof encode peer h =
     (case protocol_proof encode peer h of Inr b \<Rightarrow> Some (ProofAnswer b) | Inl err \<Rightarrow> None)"

text \<open>
  C7: wherever the request for the proof of a parked payload is, it can reach a peer; when that peer
  stores the proof, its answer makes the next poll answer the payload, whatever the time and whatever
  messages wait. The encoding of a proof is read back by its decoding.
\<close>

theorem peer_answers_parked_payload:
  assumes env: "engine_env L keys ents rk U rc" and g: "genesis_block spec \<in> U"
    and run: "node_run L F rc (node_new L spec) s"
    and parked: "parked (consensus_engine s) = Some p" "parked_block_hash p = h"
    and buffered: "buffered (tree (consensus_engine s)) h \<noteq> None"
    and inflight: "(ProofTy, h) \<in># inflight (downloader (consensus_engine s))"
    and quiet: "waiting_answers s = no_answers"
    and peer: "proof_of (chain_state_of peer) h = Some w"
    and codec: "decode_proof F (encode w) = Some w" "\<not> proof_is_empty F w"
  shows "\<exists>s1 c. node_run L F rc s s1 \<and> (c, ((ProofTy, h), ProofPart), GetProof h) \<in> set (at_peers s1) \<and>
    (\<forall>now. \<exists>s2 res rest.
       node_poll L F rc now
         (node_answer (c, ((ProofTy, h), ProofPart), GetProof h) (served_proof encode peer h) s1) = Some s2 \<and>
       responses (consensus_engine s2) =
         responses (consensus_engine s) @ (parked_tx p, PayloadResponse res) # rest)"
proof -
  note ok = node_reachable_ok [OF env g run]
  let ?x = "((ProofTy, h), ProofPart)"
  have "?x \<in> fst ` set (open_requests (downloader (consensus_engine s)))"
    using inflight by (force simp: inflight_def in_image_fst in_open_requests in_open_of proof_requests_def)
  then obtain s1 q where s1: "node_run L F rc s s1" "q \<in> set (at_peers s1)" "fst (snd q) = ?x"
    "consensus_engine s1 = consensus_engine s" "node_messages s1 = node_messages s" "waiting_answers s1 = waiting_answers s"
    using reach_peer [OF ok(1), of ?x] quiet by auto
  have "node_run L F rc (node_new L spec) s1" using run s1(1) by simp
  note ok1 = node_reachable_ok [OF env g this]
  have "asks_for (fst (snd q)) (snd (snd q))"
    using node_okD(6) [OF ok1(1), of "snd q"] s1(2) open_request_asks [OF node_okD(2) [OF ok1(1)], of "fst (snd q)"]
    by (simp add: in_transit_def)
  then obtain c where q: "q = (c, ?x, GetProof h)" using s1(3) by (cases q) (auto simp: asks_for_def)
  have "waiting_answers (node_answer q (served_proof encode peer h) s1) =
      route_answer ?x (Some (ProofAnswer (encode w))) no_answers"
    using s1(6) quiet peer by (simp add: node_answer_def q served_proof_def protocol_proof_def)
  then have "\<exists>s2 res rest. node_poll L F rc now (node_answer q (served_proof encode peer h) s1) = Some s2 \<and>
      responses (consensus_engine s2) = responses (consensus_engine s) @ (parked_tx p, PayloadResponse res) # rest" for now
    using poll_answered_proof [OF env ok(2) node_okD(3) [OF ok(1)] parked(1), of "encode w" w now
        "node_messages s"] parked(2) buffered inflight codec s1(4,5)
    by (auto simp: node_poll_def accept_proof_def)
  then show ?thesis using s1(1,2) unfolding q by blast
qed

section \<open>A concrete node\<close>

type_synonym ex_node_type = "(nat, recovered_block, unit, (b256, block_with_parent) fmap,
  forkchoice_state option, b256 list \<times> u32) node"

text \<open>The node parks the payload for the block 11; its request for the proof then reaches a peer.\<close>

definition ex_node :: ex_node_type where
  "ex_node = the (node_poll ex_lib ex_fetch ex_recover 0
     (node_receive (hd ex_messages) (node_new ex_lib ex_spec)))"

definition ex_node_asking :: ex_node_type where
  "ex_node_asking = node_forward {5} [\<lparr>peer_id = 1, to_connection = 5\<rparr>, \<lparr>peer_id = 2, to_connection = 6\<rparr>]
     (node_send (((ProofTy, 11), ProofPart), GetProof 11) ex_node)"

definition ex_peer :: "nat provider" where
  "ex_peer = provider_insert_block (mk_block 1 11 10) (Some 1) (launch_provider ex_spec)"

lemma ex_node:
  "node_poll ex_lib ex_fetch ex_recover 0 (node_receive (hd ex_messages) (node_new ex_lib ex_spec)) = Some ex_node"
  "parked (consensus_engine ex_node) = Some (parked_payload_new 11 1 3000 0)"
  "responses (consensus_engine ex_node) = []"
  "buffered (tree (consensus_engine ex_node)) 11 \<noteq> None"
  "map pf_block_hash (inflight_proof_requests (downloader (consensus_engine ex_node))) = [11]"
  "open_requests (downloader (consensus_engine ex_node)) = [(((ProofTy, 11), ProofPart), GetProof 11)]"
  "in_transit ex_node = []"
proof -
  let ?r = "node_poll ex_lib ex_fetch ex_recover 0 (node_receive (hd ex_messages) (node_new ex_lib ex_spec))"
  have "?r \<noteq> None" by code_simp
  then show "?r = Some ex_node" by (auto simp: ex_node_def)
qed code_simp+

lemma node_poll_reads: "node_poll L F rc now s = Some s' \<Longrightarrow> waiting_answers s' = no_answers"
  by (auto simp: node_poll_def split: option.splits prod.splits poll.splits)

lemma ex_node_quiet: "waiting_answers ex_node = no_answers"
  using ex_node(1) by (rule node_poll_reads)

lemma ex_node_run:
  "node_run ex_lib ex_fetch ex_recover (node_new ex_lib ex_spec) ex_node"
  "node_run ex_lib ex_fetch ex_recover (node_new ex_lib ex_spec) ex_node_asking"
proof -
  let ?run = "node_run ex_lib ex_fetch ex_recover" and ?s = "node_new ex_lib ex_spec"
  have "?run ?s (node_receive (hd ex_messages) ?s)" by (intro r_into_rtranclp step_receive)
  then show run: "?run ?s ex_node"
    by (rule rtranclp.rtrancl_into_rtrancl) (rule step_poll [OF ex_node(1)])
  have "?run ?s (node_send (((ProofTy, 11), ProofPart), GetProof 11) ex_node)"
    using run by (rule rtranclp.rtrancl_into_rtrancl) (rule step_send; simp add: ex_node ex_node_quiet)
  then show "?run ?s ex_node_asking"
    unfolding ex_node_asking_def by (rule rtranclp.rtrancl_into_rtrancl) (rule step_forward)
qed

theorem node_requests_routed_witness:
  "at_peers ex_node_asking = [(6, ((ProofTy, 11), ProofPart), GetProof 11)] \<and>
   distinct (map fst (in_transit ex_node_asking)) \<and>
   (((ProofTy, 11), ProofPart), GetProof 11) \<in> set (open_requests (downloader (consensus_engine ex_node_asking)))"
proof -
  have at: "at_peers ex_node_asking = [(6, ((ProofTy, 11), ProofPart), GetProof 11)]" by code_simp
  then have "(((ProofTy, 11), ProofPart), GetProof 11) \<in> set (in_transit ex_node_asking)"
    by (simp add: in_transit_def)
  then show ?thesis
    using at node_requests_routed [OF ex_engine_env ex_genesis_mem ex_node_run(2)] by fastforce
qed

theorem peer_answers_parked_witness:
  "\<exists>s1 c s2 res. node_run ex_lib ex_fetch ex_recover ex_node s1 \<and>
     node_poll ex_lib ex_fetch ex_recover 3000
       (node_answer (c, ((ProofTy, 11), ProofPart), GetProof 11) (served_proof (\<lambda>_. [1]) ex_peer 11) s1) = Some s2 \<and>
     (\<exists>rest. responses (consensus_engine s2) = (1, PayloadResponse res) # rest)"
proof -
  have "(ProofTy, 11) \<in># inflight (downloader (consensus_engine ex_node))"
    using ex_node(5) by (auto simp: inflight_def)
  moreover have "proof_of (chain_state_of ex_peer) 11 = Some 1" by code_simp
  moreover have "decode_proof ex_fetch [1] = Some 1" "\<not> proof_is_empty ex_fetch 1"
    by (simp_all add: ex_fetch_def fits_number_def)
  ultimately show ?thesis
    using peer_answers_parked_payload [OF ex_engine_env ex_genesis_mem ex_node_run(1) ex_node(2) _ ex_node(4) _
        ex_node_quiet, of ex_peer 1 "\<lambda>_. [1]"] ex_node(3)
    by (simp add: parked_payload_new_def) blast
qed

text \<open>The run to its end: the answer makes the payload valid.\<close>

lemma ex_node_served:
  "map_option (\<lambda>s. responses (consensus_engine s)) (node_poll ex_lib ex_fetch ex_recover 100
     (node_answer (6, ((ProofTy, 11), ProofPart), GetProof 11) (served_proof (\<lambda>_. [1]) ex_peer 11) ex_node_asking)) =
   Some [(1, PayloadResponse (Inr (payload_status_new StatusValid (Some 11))))]"
  by code_simp

end
