(* ===== verification/Buffer_Contents.thy ===== *)
theory Buffer_Contents
  imports Buffer_Props
begin

text \<open>
  A buffer whose contents are known: the lists of the blocks and of the proofs it holds, what the
  operations make of these lists, and the descendants of a hash computed from them.
\<close>

section \<open>The contents of a buffer\<close>

text \<open>
  The buffer holds exactly the blocks \<open>bs\<close>, each linked to its parent, and exactly the proofs of the
  blocks \<open>ps\<close>; its limit is \<open>n\<close>.
\<close>

definition holds ::
  "'l buffer_lib \<Rightarrow> nat \<Rightarrow> (b256 \<Rightarrow> 'p) \<Rightarrow> recovered_block list \<Rightarrow> recovered_block list \<Rightarrow>
     ('p, 'l) block_buffer \<Rightarrow> bool" where
  "holds L n W bs ps buf \<longleftrightarrow>
     fmlookup (blocks buf) = map_of (map (\<lambda>b. (hash b, b)) bs) \<and>
     fmlookup (buffered_proofs buf) = map_of (map (\<lambda>b. (hash b, W (hash b))) ps) \<and>
     (\<forall>b \<in> set bs. hash b |\<in>| kids buf (parent_hash b)) \<and>
     unat (lru_max_length L (lru buf)) = n"

lemma map_of_hash: "map_of (map (\<lambda>b. (hash b, f b)) bs) h = None \<longleftrightarrow> h \<notin> hash ` set bs"
  by (induction bs) auto

lemma map_of_hash_Some:
  "distinct (map hash bs) \<Longrightarrow> b \<in> set bs \<Longrightarrow> map_of (map (\<lambda>b. (hash b, f b)) bs) (hash b) = Some (f b)"
  by (induction bs) (auto simp: image_iff)

lemma map_of_hash_in: "map_of (map (\<lambda>b. (hash b, b)) bs) h = Some b \<Longrightarrow> b \<in> set bs \<and> hash b = h"
  by (induction bs) (auto split: if_splits)

lemma holds_lookup:
  "holds L n W bs ps buf \<Longrightarrow> fmlookup (blocks buf) h = None \<longleftrightarrow> h \<notin> hash ` set bs"
  "holds L n W bs ps buf \<Longrightarrow> fmlookup (buffered_proofs buf) h = None \<longleftrightarrow> h \<notin> hash ` set ps"
  "holds L n W bs ps buf \<Longrightarrow> fmlookup (blocks buf) h = Some b \<Longrightarrow> b \<in> set bs \<and> hash b = h"
  by (auto simp: holds_def map_of_hash dest: map_of_hash_in)

lemma holds_room:
  assumes laws: "buffer_lib_laws L keys" and inv: "buffer_inv L keys P buf" and h: "holds L n W bs ps buf"
    and dist: "distinct (map hash bs)"
  shows "length (keys (lru buf)) = length bs"
proof -
  have "set (keys (lru buf)) = hash ` set bs"
    using inv holds_lookup(1) [OF h] by (auto simp: buffer_inv_def fmlookup_dom_iff) (metis option.distinct(1))+
  moreover have "distinct (keys (lru buf))" using laws by (simp add: buffer_lib_laws_def)
  ultimately show ?thesis using dist distinct_card [of "keys (lru buf)"] distinct_card [OF dist] by simp
qed

lemma holds_insert:
  assumes laws: "buffer_lib_laws L keys" and inv: "buffer_inv L keys (\<lambda>_. True) buf"
    and h: "holds L n W bs ps buf" and dist: "distinct (map hash bs)" "hash b \<notin> hash ` set bs"
    and room: "length bs < n"
  shows "holds L n W (b # bs) ps (Block_Buffer.insert_block L b buf)"
proof -
  let ?a = "add_block b buf"
  have len: "length (keys (lru ?a)) < unat (lru_max_length L (lru ?a))"
    using holds_room [OF laws inv h dist(1)] room h by (simp add: add_block_def holds_def)
  then have v: "victim L keys (hash b) ?a = None" by (simp add: victim_def)
  obtain l where l: "insert_hash_and_get_evicted L (hash b) ?a = (None, ?a\<lparr>lru := l\<rparr>)"
    "lru_max_length L l = lru_max_length L (lru buf)"
    using insert_hash_and_get_evicted_correct [OF laws, of ?a "hash b"] len unfolding v
    by (auto simp: word_less_nat_alt add_block_def)
  have "Block_Buffer.insert_block L b buf = ?a\<lparr>lru := l\<rparr>"
    using l(1) by (simp add: Block_Buffer.insert_block_def add_block_def Let_def)
  then show ?thesis using h l(2) by (auto simp: holds_def add_block_def map_specs)
qed

lemma holds_insert_proof:
  "holds L n W bs ps buf \<Longrightarrow> holds L n W bs (b # ps) (insert_proof (hash b) (W (hash b)) buf)"
  by (auto simp: holds_def insert_proof_def)

lemma holds_remove:
  assumes laws: "buffer_lib_laws L keys" and inv: "buffer_inv L keys P buf" and h: "holds L n W (b # bs) (b # ps) buf"
    and dist: "hash b \<notin> hash ` set bs" "hash b \<notin> hash ` set ps"
  shows "\<exists>buf'. remove_block L (hash b) buf = (Some (b, W (hash b)), buf') \<and> holds L n W bs ps buf'"
proof -
  have "fmlookup (blocks buf) (hash b) = Some b" "fmlookup (buffered_proofs buf) (hash b) = Some (W (hash b))"
    using h by (simp_all add: holds_def)
  then have "remove_block L (hash b) buf = (Some (b, W (hash b)), snd (evict_block L (hash b) buf))"
    by (simp add: remove_block_alt)
  moreover have "holds L n W bs ps (snd (evict_block L (hash b) buf))"
  proof -
    have none: "map_of (map (\<lambda>b. (hash b, b)) bs) (hash b) = None"
      "map_of (map (\<lambda>b. (hash b, W (hash b))) ps) (hash b) = None"
      using dist by (simp_all add: map_of_hash)
    have "hash c \<noteq> hash b" if "c \<in> set bs" for c using dist(1) that by (metis imageI)
    then show ?thesis
      using h none evict_block_children [OF buffer_links [OF inv], of L "hash b"]
        evict_block_limit [OF laws, of "hash b" buf]
      by (auto simp: holds_def evict_block_proofs fun_eq_iff)
  qed
  ultimately show ?thesis by blast
qed

lemma holds_no_proof:
  "holds L n W bs ps buf \<Longrightarrow> h \<notin> hash ` set ps \<Longrightarrow> remove_block L h buf = (None, buf)"
  using holds_lookup(2) [of L n W bs ps buf h] by (simp add: remove_block_alt split: option.splits)

lemma holds_kids:
  assumes inv: "buffer_inv L keys P buf" and h: "holds L n W bs ps buf"
  shows "x |\<in>| kids buf q \<longleftrightarrow> (\<exists>b \<in> set bs. hash b = x \<and> parent_hash b = q)"
proof
  assume "x |\<in>| kids buf q"
  then obtain b where "fmlookup (blocks buf) x = Some b" "parent_hash b = q"
    using links_child [OF buffer_links [OF inv]] by blast
  then show "\<exists>b \<in> set bs. hash b = x \<and> parent_hash b = q" using holds_lookup(3) [OF h] by blast
qed (use h in \<open>auto simp: holds_def\<close>)

lemma map_of_hash_filter:
  "map_of (map (\<lambda>b. (hash b, f b)) (filter (\<lambda>b. Q (hash b)) bs)) h =
     (if Q h then map_of (map (\<lambda>b. (hash b, f b)) bs) h else None)"
  by (induction bs) auto

section \<open>Descendants\<close>

text \<open>The hashes that descend from those of a set, in a list in which no block stands before its parent.\<close>

fun family :: "b256 set \<Rightarrow> recovered_block list \<Rightarrow> b256 set" where
  "family S [] = S"
| "family S (b # bs) = family (if parent_hash b \<in> S then insert (hash b) S else S) bs"

fun oldest_first :: "recovered_block list \<Rightarrow> bool" where
  "oldest_first [] \<longleftrightarrow> True"
| "oldest_first (b # bs) \<longleftrightarrow> parent_hash b \<notin> hash ` set (b # bs) \<and> oldest_first bs"

lemma family_bounds: "S \<subseteq> family S bs" "family S bs \<subseteq> S \<union> hash ` set bs"
proof -
  show "S \<subseteq> family S bs"
  proof (induction bs arbitrary: S)
    case (Cons b bs)
    show ?case using Cons.IH [of "insert (hash b) S"] Cons.IH [of S] by auto
  qed simp
  show "family S bs \<subseteq> S \<union> hash ` set bs"
  proof (induction bs arbitrary: S)
    case (Cons b bs)
    show ?case using Cons.IH [of "insert (hash b) S"] Cons.IH [of S] by auto
  qed simp
qed

lemma family_closed:
  "oldest_first bs \<Longrightarrow> b \<in> set bs \<Longrightarrow> parent_hash b \<in> family S bs \<Longrightarrow> hash b \<in> family S bs"
proof (induction bs arbitrary: S)
  case (Cons c bs)
  let ?S = "if parent_hash c \<in> S then insert (hash c) S else S"
  show ?case
  proof (cases "b \<in> set bs")
    case True
    then show ?thesis using Cons.IH [of ?S] Cons.prems by simp
  next
    case False
    then have b: "b = c" using Cons.prems(2) by simp
    have "parent_hash c \<in> ?S \<union> hash ` set bs" using Cons.prems(3) family_bounds(2) [of ?S bs] unfolding b by auto
    then have "parent_hash c \<in> S" using Cons.prems(1) by (auto split: if_splits)
    then have "hash c \<in> ?S" by simp
    then show ?thesis using family_bounds(1) [of ?S bs] unfolding b by auto
  qed
qed simp

lemma closure_family:
  assumes kids: "\<And>x q. x |\<in>| g q \<longleftrightarrow> (\<exists>b \<in> set bs. hash b = x \<and> parent_hash b = q)" and "oldest_first bs"
  shows "closure g S = family S bs"
proof
  show "closure g S \<subseteq> family S bs"
  proof
    fix x assume "x \<in> closure g S"
    then show "x \<in> family S bs"
    proof (induction rule: closure.induct)
      case (closure_step q c)
      then obtain b where "b \<in> set bs" "hash b = c" "parent_hash b = q" using kids by blast
      then show ?case using closure_step.IH family_closed [OF assms(2), of b S] by simp
    qed (use family_bounds(1) in blast)
  qed
  have "(\<forall>b \<in> set cs. hash b |\<in>| g (parent_hash b)) \<Longrightarrow> S' \<subseteq> closure g S \<Longrightarrow> family S' cs \<subseteq> closure g S" for S' cs
  proof (induction cs arbitrary: S')
    case (Cons b cs)
    have "insert (hash b) S' \<subseteq> closure g S" if "parent_hash b \<in> S'"
      using that Cons.prems by (auto intro: closure_step)
    then show ?case using Cons.IH [of S'] Cons.IH [of "insert (hash b) S'"] Cons.prems by simp
  qed simp
  moreover have "S \<subseteq> closure g S" by (auto intro: closure_start)
  ultimately show "family S bs \<subseteq> closure g S" using kids by blast
qed

lemma holds_descendants:
  assumes "buffer_inv L keys P buf" and "holds L n W bs ps buf" and "oldest_first (rev bs)"
  shows "descendants buf S = family S (rev bs)"
  unfolding descendants_def by (rule closure_family) (use holds_kids [OF assms(1,2)] assms(3) in simp_all)

section \<open>Evicting and removing\<close>

text \<open>The hashes of the blocks up to a number and of their descendants.\<close>

definition old_family :: "u64 \<Rightarrow> recovered_block list \<Rightarrow> b256 set" where
  "old_family m bs = family (hash ` set (filter (\<lambda>b. number b \<le> m) bs)) (rev bs)"

lemma holds_evict_old:
  assumes laws: "buffer_lib_laws L keys" and inv: "buffer_inv L keys (\<lambda>_. True) buf"
    and h: "holds L n W bs ps buf" and bs: "distinct (map hash bs)" "oldest_first (rev bs)"
  shows "holds L n W (filter (\<lambda>b. hash b \<notin> old_family m bs) bs)
      (filter (\<lambda>b. hash b \<notin> old_family m bs) ps) (evict_old_blocks L m buf)"
    and "buffer_inv L keys (\<lambda>_. True) (evict_old_blocks L m buf)"
proof -
  note spec = evict_old_blocks_full [OF laws inv, of m]
  show "buffer_inv L keys (\<lambda>_. True) (evict_old_blocks L m buf)" using spec by blast
  have "old_blocks m buf = hash ` set (filter (\<lambda>b. number b \<le> m) bs)"
  proof -
    have "fmlookup (blocks buf) (hash b) = Some b" if "b \<in> set bs" for b
      using h that map_of_hash_Some [OF bs(1) that, of "\<lambda>c. c"] by (simp add: holds_def)
    then show ?thesis using holds_lookup(3) [OF h] by (fastforce simp: old_blocks_def)
  qed
  then have d: "descendants buf (old_blocks m buf) = old_family m bs"
    unfolding old_family_def by (simp add: holds_descendants [OF inv h bs(2)])
  have old: "old_blocks m buf \<subseteq> old_family m bs" unfolding d [symmetric] by (auto simp: descendants_met)
  have kids: "hash b |\<in>| kids (evict_old_blocks L m buf) (parent_hash b)"
    if b: "b \<in> set bs" "hash b \<notin> old_family m bs" for b
  proof -
    have "hash b |\<in>| kids buf (parent_hash b)" using b(1) holds_kids [OF inv h] by blast
    moreover from this have "parent_hash b \<notin> descendants buf (old_blocks m buf)"
      using b(2) unfolding d [symmetric] descendants_def by (blast intro: closure_step)
    ultimately show ?thesis using spec b(2) old by blast
  qed
  have "fmlookup (blocks (evict_old_blocks L m buf)) x =
      (if x \<in> old_family m bs then None else fmlookup (blocks buf) x)"
    "fmlookup (buffered_proofs (evict_old_blocks L m buf)) x =
      (if x \<in> old_family m bs then None else fmlookup (buffered_proofs buf) x)" for x
    using spec unfolding d by blast+
  then show "holds L n W (filter (\<lambda>b. hash b \<notin> old_family m bs) bs)
      (filter (\<lambda>b. hash b \<notin> old_family m bs) ps) (evict_old_blocks L m buf)"
    using h kids evict_old_blocks_limit [OF laws inv, of m]
    by (simp add: holds_def fun_eq_iff map_of_hash_filter [where Q = "\<lambda>h. h \<notin> old_family m bs"])
qed

text \<open>Removing a hash with its children, when every block has its proof.\<close>

lemma holds_remove_children:
  assumes laws: "buffer_lib_laws L keys" and inv: "buffer_inv L keys (\<lambda>_. True) buf" and rank: "buffer_ranked rk buf"
    and h: "holds L n W bs bs buf" and bs: "distinct (map hash bs)"
    and rb: "remove_block_with_children L x buf = (rs, buf')"
  shows "set rs = (\<lambda>b. (b, W (hash b))) ` set (filter (\<lambda>b. hash b \<in> descendants buf {x}) bs)"
    and "distinct (map (hash \<circ> fst) rs)" and "parents_first rs"
    and "holds L n W (filter (\<lambda>b. hash b \<notin> descendants buf {x}) bs)
      (filter (\<lambda>b. hash b \<notin> descendants buf {x}) bs) buf'"
    and "buffer_inv L keys (\<lambda>_. True) buf'"
proof -
  let ?D = "descendants buf {x}"
  note spec = remove_block_with_children_full [OF laws inv rank rb]
  show "distinct (map (hash \<circ> fst) rs)" "parents_first rs" "buffer_inv L keys (\<lambda>_. True) buf'" using spec by blast+
  have rem: "removable buf y = Some r \<longleftrightarrow> (\<exists>c \<in> set bs. y = hash c \<and> r = (c, W (hash c)))" for y r
  proof -
    have "fmlookup (blocks buf) (hash c) = Some c" "buffer_proof buf (hash c) = Some (W (hash c))"
      if "c \<in> set bs" for c
      using h that map_of_hash_Some [OF bs that, of "\<lambda>c. c"] map_of_hash_Some [OF bs that, of "\<lambda>c. W (hash c)"]
      by (simp_all add: holds_def buffer_proof_def)
    then show ?thesis
      using holds_lookup(3) [OF h, of y "fst r"] by (cases r) (fastforce simp: removable_Some buffer_proof_def)
  qed
  show "set rs = (\<lambda>b. (b, W (hash b))) ` set (filter (\<lambda>b. hash b \<in> ?D) bs)"
  proof (rule set_eqI)
    fix r
    have "r \<in> set rs \<longleftrightarrow> (\<exists>y \<in> ?D. removable buf y = Some r)" using spec by blast
    then show "r \<in> set rs \<longleftrightarrow> r \<in> (\<lambda>b. (b, W (hash b))) ` set (filter (\<lambda>b. hash b \<in> ?D) bs)"
      unfolding rem by auto
  qed
  have rm: "is_removable buf (hash c)" if "c \<in> set bs" for c
    using that rem [of "hash c"] removable_None [of buf "hash c"] by (metis option.distinct(1))
  have gone: "fmlookup (blocks buf') y = (if y \<in> ?D \<and> is_removable buf y then None else fmlookup (blocks buf) y)"
    "fmlookup (buffered_proofs buf') y = (if y \<in> ?D \<and> is_removable buf y then None else fmlookup (buffered_proofs buf) y)" for y
    using spec by blast+
  have gone': "fmlookup (blocks buf') y = (if y \<notin> ?D then fmlookup (blocks buf) y else None)"
    "fmlookup (buffered_proofs buf') y = (if y \<notin> ?D then fmlookup (buffered_proofs buf) y else None)" for y
    using holds_lookup(1,2) [OF h, of y] rm unfolding gone by (cases "y \<in> hash ` set bs"; auto)+
  have "hash b |\<in>| kids buf' (parent_hash b)" if b: "b \<in> set bs" "hash b \<notin> ?D" for b
  proof -
    have "hash b |\<in>| kids buf (parent_hash b)" using b(1) holds_kids [OF inv h] by blast
    moreover from this have "parent_hash b \<notin> descendants buf {x}"
      using b(2) unfolding descendants_def by (blast intro: closure_step)
    moreover have "hash b \<noteq> x" using b(2) by (auto simp: descendants_met)
    ultimately show ?thesis using spec by blast
  qed
  then show "holds L n W (filter (\<lambda>b. hash b \<notin> ?D) bs) (filter (\<lambda>b. hash b \<notin> ?D) bs) buf'"
    using h gone' remove_block_with_children_limit [OF laws, of x buf] rb
    by (simp add: holds_def fun_eq_iff map_of_hash_filter [where Q = "\<lambda>h. h \<notin> ?D"])
qed

end
