(* ===== verification/Chain_Sync.thy ===== *)
theory Chain_Sync
  imports Tree_Props Buffer_Contents
begin

text \<open>
  How the tree follows a chain of blocks it does not know: the blocks are downloaded from the last one
  down and buffered with their proofs, until the parent of one is stored; then all are stored, and
  the last one becomes the canonical head.
\<close>

section \<open>Chains of blocks\<close>

text \<open>Blocks in the order of the chain, the first on top of the block with the given hash.\<close>

fun chained :: "b256 \<Rightarrow> recovered_block list \<Rightarrow> bool" where
  "chained g [] \<longleftrightarrow> True"
| "chained g (b # bs) \<longleftrightarrow> parent_hash b = g \<and> chained (hash b) bs"

lemma chained_append:
  "chained g (xs @ ys) \<longleftrightarrow> chained g xs \<and> chained (if xs = [] then g else hash (last xs)) ys"
  by (induction xs arbitrary: g) auto

lemma chained_above:
  assumes "chained g bs" and "\<forall>b \<in> set bs. hash_ranked rk b"
  shows "\<forall>b \<in> set bs. rk g < rk (hash b)"
  using assms
proof (induction bs arbitrary: g)
  case (Cons b bs)
  have "rk g < rk (hash b)" using Cons.prems by (auto simp: hash_ranked_def)
  moreover have "\<forall>c \<in> set bs. rk (hash b) < rk (hash c)" using Cons.IH [of "hash b"] Cons.prems by simp
  ultimately show ?case by force
qed simp

lemma chained_distinct:
  assumes "chained g bs" and "\<forall>b \<in> set bs. hash_ranked rk b"
  shows "distinct (map hash bs)"
  using assms
proof (induction bs arbitrary: g)
  case (Cons b bs)
  have "\<forall>c \<in> set bs. rk (hash b) < rk (hash c)" using chained_above [of "hash b" bs] Cons.prems by simp
  then have "hash b \<notin> hash ` set bs" by auto
  then show ?case using Cons by auto
qed simp

section \<open>The buffer of a chain\<close>

lemma chain_descendants:
  assumes "holds L n W bs ps buf" and "chained h bs"
  shows "hash ` set bs \<subseteq> descendants buf {h}"
proof -
  have "\<forall>b \<in> set bs. hash b |\<in>| kids buf (parent_hash b)" using assms(1) by (simp add: holds_def)
  then have "x \<in> descendants buf {h} \<Longrightarrow> chained x bs \<Longrightarrow> hash ` set bs \<subseteq> descendants buf {h}" for x
  proof (induction bs arbitrary: x)
    case (Cons b bs)
    have "hash b \<in> descendants buf {h}"
      using Cons.prems unfolding descendants_def by (auto intro: closure.intros)
    then show ?case using Cons by auto
  qed simp
  then show ?thesis using assms(2) by (auto simp: descendants_met)
qed

section \<open>A block whose parent is missing\<close>

definition no_invalid :: "('i \<Rightarrow> b256 \<rightharpoonup> block_with_parent) \<Rightarrow> ('p, 'i, 'f, 'l) engine_tree \<Rightarrow> bool" where
  "no_invalid ents t \<longleftrightarrow> ents (invalid_headers t) = Map.empty"

lemma invalid_get_empty:
  assumes "tree_env L keys ents rk U" and "no_invalid ents t"
  shows "\<exists>i. invalid_get L h (invalid_headers t) = (None, i) \<and> ents i = Map.empty"
proof -
  obtain r i where r: "invalid_get L h (invalid_headers t) = (r, i)" by (cases "invalid_get L h (invalid_headers t)")
  have "ents i \<subseteq>\<^sub>m Map.empty" "r \<noteq> None \<Longrightarrow> ents (invalid_headers t) h = r"
    using tree_envD(3) [OF assms(1)] assms(2) r unfolding invalid_cache_laws_def no_invalid_def
    by (metis snd_conv, metis fst_conv option.exhaust)
  then have "ents i = Map.empty" by (auto simp: map_le_def dom_def intro!: ext)
  moreover have "r = None"
    using \<open>r \<noteq> None \<Longrightarrow> ents (invalid_headers t) h = r\<close> assms(2) by (cases r) (auto simp: no_invalid_def)
  ultimately show ?thesis using r by simp
qed

lemma not_buffered_ancestor: "buffered t h = None \<Longrightarrow> lowest_buffered_ancestor_or t h = Some h"
  by (simp add: lowest_buffered_ancestor_or_def lowest_ancestor_def)

lemma check_invalid_none:
  assumes "tree_env L keys ents rk U" and "no_invalid ents t"
  shows "\<exists>i. check_invalid_ancestor_with_head L h h' t = Some (None, t\<lparr>invalid_headers := i\<rparr>) \<and>
      check_invalid_ancestor L h t = Some (None, t\<lparr>invalid_headers := i\<rparr>) \<and> ents i = Map.empty"
proof -
  obtain i where "invalid_get L h (invalid_headers t) = (None, i)" "ents i = Map.empty"
    using invalid_get_empty [OF assms] by blast
  then show ?thesis
    by (intro exI [of _ i]) (simp add: check_invalid_ancestor_with_head_def check_invalid_ancestor_def)
qed

text \<open>It is buffered with its proof, and the parent is asked for.\<close>

lemma downloaded_disconnected:
  assumes env: "tree_env L keys ents rk U" and none: "no_invalid ents t"
    and b: "buffered t (hash b) = None" "stored t (hash b) = None" "validate_block L (clone_sealed_block b) = None"
    and p: "stored t (parent_hash b) = None" "buffered t (parent_hash b) = None"
  shows "\<exists>i. on_downloaded_block L b w t =
      Some (Inr (with_event (tree_outcome_new (payload_status_new StatusSyncing None))
              (download_block_event (parent_hash b))),
        t\<lparr>invalid_headers := i, block_buffer := Block_Buffer.insert_block (buffer_ops L) b
            (insert_proof (hash b) w (block_buffer t))\<rparr>) \<and>
    ents i = Map.empty"
proof -
  obtain i where i: "check_invalid_ancestor_with_head L (hash b) (hash b) t = Some (None, t\<lparr>invalid_headers := i\<rparr>)"
    "ents i = Map.empty"
    using check_invalid_none [OF env none] by blast
  have pnh: "nh_hash (parent_num_hash L (clone_sealed_header b)) = parent_hash b"
    using tree_envD(1) [OF env] by (simp add: parent_num_hash_law_def)
  have "insert_block L b (Some w) (t\<lparr>invalid_headers := i\<rparr>) =
      Some (Inr (Inserted (Disconnected (canonical_head t) (parent_num_hash L (clone_sealed_header b)))),
        t\<lparr>invalid_headers := i, block_buffer := Block_Buffer.insert_block (buffer_ops L) b
            (insert_proof (hash b) w (block_buffer t))\<rparr>)"
    using b(1,3) p(2) provider_sealed_header_None [of "provider t" "hash b", THEN iffD2, OF b(2)]
      provider_sealed_header_None [of "provider t" "parent_hash b", THEN iffD2, OF p(1)]
    by (simp add: Engine_Tree.insert_block_def lowest_ancestor_def)
  then show ?thesis
    using i not_buffered_ancestor [OF b(1)] pnh
    by (intro exI [of _ i]) (simp add: on_downloaded_block_def with_maybe_event_def)
qed

section \<open>Connecting the chain\<close>

lemma ancestor_mono:
  "is_ancestor lk par x a \<Longrightarrow> lk \<subseteq>\<^sub>m lk' \<Longrightarrow> is_ancestor lk' par x a"
proof (induction rule: is_ancestor.induct)
  case (is_ancestor_step h b a)
  then have "lk' h = Some b" by (metis domI map_le_def)
  then show ?case using is_ancestor_step by (blast intro: is_ancestor.intros)
qed (simp add: is_ancestor_refl)

text \<open>
  A tree that follows a chain on top of \<open>g\<close>: an ancestor of the canonical head; the target of the sync is \<open>target\<close>.
\<close>

definition follows ::
  "('p, 'x, 'e, 'a, 'i, 'f, 'l) tree_lib \<Rightarrow> ('l \<Rightarrow> b256 list) \<Rightarrow> ('i \<Rightarrow> b256 \<rightharpoonup> block_with_parent) \<Rightarrow>
     (b256 \<Rightarrow> nat) \<Rightarrow> recovered_block set \<Rightarrow> (b256 \<Rightarrow> nat) \<Rightarrow> b256 \<Rightarrow> forkchoice_state \<Rightarrow>
     ('p, 'i, 'f, 'l) engine_tree \<Rightarrow> bool" where
  "follows L keys ents rk U nm g st t \<longleftrightarrow>
     tree_good L keys ents rk U nm t \<and> no_invalid ents t \<and> stored t g \<noteq> None \<and>
     ancestor_in (chain_state_of (provider t)) (nh_hash (canonical_head t)) g \<and>
     sync_target_state L (forkchoice_state_tracker t) = Some st"

lemma followsD:
  assumes "follows L keys ents rk U nm g st t"
  shows "tree_good L keys ents rk U nm t" "tree_inv L keys ents rk U t" "no_invalid ents t" "stored t g \<noteq> None"
    and "ancestor_in (chain_state_of (provider t)) (nh_hash (canonical_head t)) g"
    and "sync_target_state L (forkchoice_state_tracker t) = Some st"
  using assms by (simp_all add: follows_def tree_good_def)

lemma follows_target: "follows L keys ents rk U nm g st t \<Longrightarrow> is_sync_target_head L t h \<longleftrightarrow> h = head_block_hash st"
  by (auto simp: follows_def is_sync_target_head_def)

text \<open>A block on top of a stored one is stored.\<close>

lemma insert_follows:
  assumes env: "tree_env L keys ents rk U" and num: "numbers_checked L nm U"
    and f: "follows L keys ents rk U nm g st t" and b: "b \<in> U" "acceptable L U b w" "stored t (hash b) = None"
    and p: "stored t (parent_hash b) \<noteq> None"
      "ancestor_in (chain_state_of (provider t)) (parent_hash b) g"
  shows "\<exists>t'. insert_block L b (Some w) t = Some (Inr (Inserted Valid), t') \<and>
    follows L keys ents rk U nm g st t' \<and> stored t' = (stored t)(hash b \<mapsto> b) \<and>
    ancestor_in (chain_state_of (provider t')) (hash b) g \<and> canonical_head t' = canonical_head t \<and>
    number b \<noteq> 0 \<and> block_buffer t' = block_buffer t"
proof -
  note inv = followsD(2) [OF f]
  obtain r t' where i: "insert_block L b (Some w) t = Some (r, t')" "tree_inv L keys ents rk U t'"
    and e: "insert_effect L b (Some w) t r t'"
    using tree_insert_block_correct [OF env inv b(1)] by blast
  obtain q where q: "stored t (parent_hash b) = Some q" using p(1) by blast
  have "q \<in> U" "hash q = parent_hash b" using tree_invD(2,3) [OF inv q] by simp_all
  then have ver: "verify L cs b (clone_sealed_header q) w = None" for cs
    using b(2) by (simp add: acceptable_def)
  then have r: "r = Inr (Inserted Valid)"
    using e b(2,3) q
    by (auto simp: insert_effect_def acceptable_def
        split: sum.splits insert_payload_ok.splits block_status.splits)
  obtain ev where t': "t' = emit_event ev (t\<lparr>provider := provider_insert_block b (Some w) (provider t)\<rparr>)"
    using e r by (auto simp: insert_effect_def)
  then have s: "stored t' = (stored t)(hash b \<mapsto> b)" "canonical_head t' = canonical_head t"
    "invalid_headers t' = invalid_headers t" "forkchoice_state_tracker t' = forkchoice_state_tracker t"
    "block_buffer t' = block_buffer t"
    by (auto simp: emit_event_def)
  have le: "stored t \<subseteq>\<^sub>m stored t'" unfolding s(1) map_le_def using b(3) by (auto simp: dom_def)
  have "unat (number b) = Suc (unat (number q))"
    using num ver unfolding numbers_checked_def by (metis clone_sealed_header_sel(1))
  then have n: "number b \<noteq> 0" by auto
  have "tree_good L keys ents rk U nm t'"
    using tree_good_step [OF followsD(1) [OF f] num i(2)] insert_effect_step [OF inv b(1) e] by blast
  moreover have "ancestor_in (chain_state_of (provider t')) (hash b) g"
    using ancestor_mono [OF p(2) le] s(1) by (metis fun_upd_same is_ancestor_step)
  moreover have "ancestor_in (chain_state_of (provider t')) (nh_hash (canonical_head t')) g"
    using ancestor_mono [OF followsD(5) [OF f] le] s(2) by simp
  moreover have "stored t' g \<noteq> None" using followsD(4) [OF f] s(1) by simp
  ultimately show ?thesis
    using i r s n f by (auto simp: follows_def no_invalid_def)
qed

lemma make_canonical_follows:
  assumes env: "tree_env L keys ents rk U" and num: "numbers_checked L nm U"
    and f: "follows L keys ents rk U nm g st t" and b: "stored t h = Some b" "number b \<noteq> 0"
    and a: "ancestor_in (chain_state_of (provider t)) h g"
  shows "\<exists>t'. make_canonical L h t = Some t' \<and> follows L keys ents rk U nm g st t' \<and> stored t' = stored t \<and>
    nh_hash (canonical_head t') = h \<and> block_buffer t' = block_buffer t"
proof -
  obtain t' where t': "make_canonical L h t = Some t'" "nh_hash (canonical_head t') = h" "stored t' = stored t"
    using make_canonical_sets_head_spec [OF env followsD(1) [OF f] num b a followsD(5) [OF f]] by auto
  obtain r where r: "on_new_head L t h = Some r" "\<And>c. r = Some c \<Longrightarrow> new_head_effect t h c"
    using on_new_head_correct [OF env followsD(2) [OF f]] by blast
  have same: "tree_inv L keys ents rk U t' \<and> tree_step L nm U t t' \<and> block_buffer t' = block_buffer t \<and>
      invalid_headers t' = invalid_headers t \<and> forkchoice_state_tracker t' = forkchoice_state_tracker t"
  proof (cases r)
    case None
    then show ?thesis using r(1) t'(1) followsD(2) [OF f] by (simp add: make_canonical_def)
  next
    case (Some c)
    then show ?thesis
      using on_canonical_chain_update_correct [OF followsD(2) [OF f] r(2) [OF Some], of nm] r(1) t'(1)
      by (auto simp: make_canonical_def)
  qed
  then have "tree_good L keys ents rk U nm t'" using tree_good_step [OF followsD(1) [OF f] num] by blast
  then show ?thesis
    using t' same f a by (simp add: follows_def no_invalid_def)
qed


text \<open>Connecting blocks above stored ancestors of the chain: the target becomes the head.\<close>

lemma connect_blocks_follows:
  assumes env: "tree_env L keys ents rk U" and num: "numbers_checked L nm U"
  shows "follows L keys ents rk U nm g st t \<Longrightarrow> connectable S l \<Longrightarrow> distinct (map (hash \<circ> fst) l) \<Longrightarrow>
    (\<forall>x \<in> S. stored t x \<noteq> None \<and> ancestor_in (chain_state_of (provider t)) x g) \<Longrightarrow>
    (\<forall>(b, w) \<in> set l. b \<in> U \<and> acceptable L U b w \<and> stored t (hash b) = None) \<Longrightarrow>
    \<exists>t'. connect_blocks L l t = Some (None, t') \<and> follows L keys ents rk U nm g st t' \<and>
      stored t \<subseteq>\<^sub>m stored t' \<and> (\<forall>x \<in> set l. stored t' (hash (fst x)) = Some (fst x)) \<and>
      block_buffer t' = block_buffer t \<and>
      nh_hash (canonical_head t') = (if head_block_hash st \<in> (hash \<circ> fst) ` set l then head_block_hash st
        else nh_hash (canonical_head t))"
proof (induction l arbitrary: t S)
  case (Cons x l)
  obtain b w where x: "x = (b, w)" by (cases x)
  have b: "b \<in> U" "acceptable L U b w" "stored t (hash b) = None" "stored t (parent_hash b) \<noteq> None"
    "ancestor_in (chain_state_of (provider t)) (parent_hash b) g"
    using Cons.prems x by auto
  obtain t1 where i: "insert_block L b (Some w) t = Some (Inr (Inserted Valid), t1)"
    "follows L keys ents rk U nm g st t1" "stored t1 = (stored t)(hash b \<mapsto> b)"
    "ancestor_in (chain_state_of (provider t1)) (hash b) g" "canonical_head t1 = canonical_head t"
    "number b \<noteq> 0" "block_buffer t1 = block_buffer t"
    using insert_follows [OF env num Cons.prems(1) b] by blast
  have sb: "stored t1 (hash b) = Some b" using i(3) by simp
  obtain t2 where m: "(if is_sync_target_head L t1 (hash b) \<and> Inserted Valid = Inserted Valid
      then make_canonical L (hash b) t1 else Some t1) = Some t2"
    "follows L keys ents rk U nm g st t2" "stored t2 = stored t1" "block_buffer t2 = block_buffer t"
    "nh_hash (canonical_head t2) = (if hash b = head_block_hash st then hash b else nh_hash (canonical_head t))"
    using make_canonical_follows [OF env num i(2) sb i(6) i(4)] i(2,5,7) follows_target [OF i(2), of "hash b"]
    by (cases "hash b = head_block_hash st") auto
  have le: "stored t \<subseteq>\<^sub>m stored t2" unfolding m(3) i(3) map_le_def using b(3) by (auto simp: dom_def)
  have "ancestor_in (chain_state_of (provider t2)) (hash b) g" using i(4) m(3) by simp
  then have S: "\<forall>x \<in> insert (hash b) S. stored t2 x \<noteq> None \<and> ancestor_in (chain_state_of (provider t2)) x g"
    using Cons.prems(4) le i(3) m(3) by (auto intro: ancestor_mono)
  have "\<forall>(c, v) \<in> set l. hash c \<noteq> hash b" using Cons.prems(3) x by (force simp: image_iff)
  then have l: "\<forall>(c, v) \<in> set l. c \<in> U \<and> acceptable L U c v \<and> stored t2 (hash c) = None"
    using Cons.prems(5) i(3) m(3) by auto
  have "connectable (insert (hash b) S) l" "distinct (map (hash \<circ> fst) l)" using Cons.prems(2,3) x
    by (simp_all add: comp_def)
  from Cons.IH [OF m(2) this S l] obtain t3 where
    c: "connect_blocks L l t2 = Some (None, t3)" "follows L keys ents rk U nm g st t3" "stored t2 \<subseteq>\<^sub>m stored t3"
    "\<forall>x \<in> set l. stored t3 (hash (fst x)) = Some (fst x)" "block_buffer t3 = block_buffer t2"
    "nh_hash (canonical_head t3) = (if head_block_hash st \<in> (hash \<circ> fst) ` set l then head_block_hash st
        else nh_hash (canonical_head t2))" by blast
  have "connect_blocks L (x # l) t = connect_blocks L l t2"
    unfolding x connect_blocks.simps i(1) by (simp only: Option.bind.simps prod.case sum.case m(1))
  moreover have "stored t3 (hash b) = Some b" using sb m(3) c(3) by (metis domI map_le_def)
  then have "\<forall>y \<in> set (x # l). stored t3 (hash (fst y)) = Some (fst y)" using c(4) by (simp add: x)
  moreover have "stored t \<subseteq>\<^sub>m stored t3" using map_le_trans [OF le c(3)] .
  ultimately show ?case using c m(4,5) x by (intro exI [of _ t3]) auto
qed simp


lemma follows_cong:
  assumes "follows L keys ents rk U nm g st t" and "tree_inv L keys ents rk U t'"
    and "provider t' = provider t" and "canonical_head t' = canonical_head t"
    and "forkchoice_state_tracker t' = forkchoice_state_tracker t" and "no_invalid ents t'"
  shows "follows L keys ents rk U nm g st t'"
  using assms by (simp add: follows_def tree_good_def)

text \<open>Taking a buffered chain out of the buffer: all its blocks, parents first, and nothing remains.\<close>

lemma remove_chain:
  assumes laws: "buffer_lib_laws L keys" and inv: "buffer_inv L keys (\<lambda>_. True) buf" and rank: "buffer_ranked rk buf"
    and h: "holds L n W bs bs buf" and c: "chained x bs" "distinct (map hash bs)"
    and rb: "remove_block_with_children L x buf = (rs, buf')"
  shows "set rs = (\<lambda>c. (c, W (hash c))) ` set bs" and "distinct (map (hash \<circ> fst) rs)"
    and "connectable {x} rs" and "holds L n W [] [] buf'" and "buffer_inv L keys (\<lambda>_. True) buf'"
proof -
  note r = holds_remove_children [OF laws inv rank h c(2) rb]
  have "\<forall>b \<in> set bs. hash b \<in> descendants buf {x}" using chain_descendants [OF h c(1)] by blast
  then have all: "filter (\<lambda>b. hash b \<in> descendants buf {x}) bs = bs"
    "filter (\<lambda>b. hash b \<notin> descendants buf {x}) bs = []"
    by (simp_all add: filter_id_conv filter_empty_conv)
  show rs: "set rs = (\<lambda>c. (c, W (hash c))) ` set bs" using r(1) unfolding all .
  show "holds L n W [] [] buf'" using r(4) unfolding all .
  show "distinct (map (hash \<circ> fst) rs)" "buffer_inv L keys (\<lambda>_. True) buf'" by (fact r(2), fact r(5))
  have parent: "chained x cs \<Longrightarrow> c \<in> set cs \<Longrightarrow> parent_hash c \<in> insert x (hash ` set cs)" for x cs and c :: recovered_block
    by (induction cs arbitrary: x) auto
  have hashes: "(hash \<circ> fst) ` set rs = hash ` set bs" unfolding rs by force
  show "connectable {x} rs"
  proof (rule connectable_parents_first)
    show "parent_hash (fst r) \<in> {x} \<union> (hash \<circ> fst) ` set rs" if "r \<in> set rs" for r
      using that parent [OF c(1), of "fst r"] unfolding hashes by (auto simp: rs)
  qed (use r(3) in blast)
qed

text \<open>
  The first block of the chain is downloaded on top of \<open>g\<close> while the others wait in the buffer.
\<close>

lemma connect_chain:
  assumes env: "tree_env L keys ents rk U" and num: "numbers_checked L nm U"
    and f: "follows L keys ents rk U nm g st t" and b: "stored t (hash b) \<noteq> None" "hash b \<notin> hash ` set bs"
      "ancestor_in (chain_state_of (provider t)) (hash b) g"
    and c: "chained (hash b) bs" "distinct (map hash bs)"
      "\<forall>c \<in> set bs. c \<in> U \<and> acceptable L U c (W (hash c)) \<and> stored t (hash c) = None"
    and h: "holds (buffer_ops L) n W bs bs (block_buffer t)"
  shows "\<exists>t'. try_connect_buffered_blocks L (hash b) t = Some (None, t') \<and>
    follows L keys ents rk U nm g st t' \<and> stored t \<subseteq>\<^sub>m stored t' \<and> (\<forall>c \<in> set bs. stored t' (hash c) = Some c) \<and>
    holds (buffer_ops L) n W [] [] (block_buffer t') \<and>
    nh_hash (canonical_head t') = (if head_block_hash st \<in> hash ` set bs then head_block_hash st
      else nh_hash (canonical_head t))"
proof -
  note inv = followsD(2) [OF f]
  obtain rs buf where rb: "remove_block_with_children (buffer_ops L) (hash b) (block_buffer t) = (rs, buf)"
    by (cases "remove_block_with_children (buffer_ops L) (hash b) (block_buffer t)")
  note chain = remove_chain [OF tree_envD(2) [OF env] tree_invD(4) [OF inv] tree_ranked(2) [OF env inv] h c(1,2) rb]
  have "fmlookup (blocks buf) x = None" for x using chain(4) by (simp add: holds_def)
  moreover have "lru_max_length (buffer_ops L) (lru buf) = lru_max_length (buffer_ops L) (lru (block_buffer t))"
    using remove_block_with_children_limit [OF tree_envD(2) [OF env], of "hash b" "block_buffer t"] rb by simp
  ultimately have "tree_inv L keys ents rk U (t\<lparr>block_buffer := buf\<rparr>)" using inv chain(5) by (simp add: tree_inv_def)
  then have f1: "follows L keys ents rk U nm g st (t\<lparr>block_buffer := buf\<rparr>)"
    by (rule follows_cong [OF f]) (use followsD(3) [OF f] in \<open>simp_all add: no_invalid_def\<close>)
  have hashes: "(hash \<circ> fst) ` set rs = hash ` set bs" unfolding chain(1) by force
  have "\<forall>x \<in> {hash b}. stored (t\<lparr>block_buffer := buf\<rparr>) x \<noteq> None \<and>
      ancestor_in (chain_state_of (provider (t\<lparr>block_buffer := buf\<rparr>))) x g" using b(1,3) by simp
  moreover have "\<forall>(c, w) \<in> set rs. c \<in> U \<and> acceptable L U c w \<and> stored (t\<lparr>block_buffer := buf\<rparr>) (hash c) = None"
    using c(3) unfolding chain(1) by auto
  ultimately obtain t' where t': "connect_blocks L rs (t\<lparr>block_buffer := buf\<rparr>) = Some (None, t')"
    "follows L keys ents rk U nm g st t'" "stored t \<subseteq>\<^sub>m stored t'" "\<forall>x \<in> set rs. stored t' (hash (fst x)) = Some (fst x)"
    "nh_hash (canonical_head t') = (if head_block_hash st \<in> (hash \<circ> fst) ` set rs then head_block_hash st
        else nh_hash (canonical_head t))" "block_buffer t' = buf"
    using connect_blocks_follows [OF env num f1 chain(3,2)] by auto
  have "try_connect_buffered_blocks L (hash b) t = Some (None, t')"
    using t'(1) rb by (cases rs) (simp_all add: try_connect_buffered_blocks_def Let_def)
  then show ?thesis using t'(2-6) chain(4) unfolding hashes by (intro exI [of _ t']) (simp add: chain(1))
qed

lemma downloaded_connected:
  assumes env: "tree_env L keys ents rk U" and num: "numbers_checked L nm U"
    and f: "follows L keys ents rk U nm g st t" and c: "chained g (b # bs)"
      "\<forall>c \<in> set (b # bs). c \<in> U \<and> acceptable L U c (W (hash c)) \<and> stored t (hash c) = None"
    and h: "holds (buffer_ops L) n W bs bs (block_buffer t)"
  shows "\<exists>r t'. on_downloaded_block L b (W (hash b)) t = Some (Inr r, t') \<and>
    follows L keys ents rk U nm g st t' \<and> (\<forall>c \<in> set (b # bs). stored t' (hash c) = Some c) \<and>
    ancestor_in (chain_state_of (provider t')) (hash b) g \<and> (\<exists>c. stored t' (hash b) = Some c \<and> number c \<noteq> 0) \<and>
    event r = (if head_block_hash st = hash b then Some (make_canonical_event (hash b)) else None) \<and>
    holds (buffer_ops L) n W [] [] (block_buffer t') \<and>
    nh_hash (canonical_head t') = (if head_block_hash st \<in> hash ` set bs then head_block_hash st
      else nh_hash (canonical_head t))"
proof -
  have U: "\<forall>c \<in> set (b # bs). hash_ranked rk c" using c(2) tree_envD(5) [OF env] by blast
  have dist: "hash b \<notin> hash ` set bs" "distinct (map hash bs)" using chained_distinct [OF c(1) U] by simp_all
  have "buffered t (hash b) = None" using holds_lookup(1) [OF h] dist(1) by blast
  then have low: "lowest_buffered_ancestor_or t (hash b) = Some (hash b)" by (rule not_buffered_ancestor)
  obtain i where i: "check_invalid_ancestor_with_head L (hash b) (hash b) t = Some (None, t\<lparr>invalid_headers := i\<rparr>)"
    "ents i = Map.empty"
    using check_invalid_none [OF env followsD(3) [OF f]] by blast
  let ?t = "t\<lparr>invalid_headers := i\<rparr>"
  have "tree_inv L keys ents rk U ?t" using followsD(2) [OF f] i(2) by (simp add: tree_inv_def ranked_entries_def)
  then have f1: "follows L keys ents rk U nm g st ?t"
    by (rule follows_cong [OF f]) (simp_all add: no_invalid_def i(2))
  have p: "parent_hash b = g" using c(1) by simp
  have "b \<in> U" "acceptable L U b (W (hash b))" "stored ?t (hash b) = None" "stored ?t (parent_hash b) \<noteq> None"
    "ancestor_in (chain_state_of (provider ?t)) (parent_hash b) g"
    using c(2) followsD(4) [OF f] p by (simp_all add: is_ancestor_refl)
  from insert_follows [OF env num f1 this] obtain t1 where
    t1: "insert_block L b (Some (W (hash b))) ?t = Some (Inr (Inserted Valid), t1)"
    "follows L keys ents rk U nm g st t1" "stored t1 = (stored t)(hash b \<mapsto> b)"
    "ancestor_in (chain_state_of (provider t1)) (hash b) g" "canonical_head t1 = canonical_head t"
    "number b \<noteq> 0" "block_buffer t1 = block_buffer t" by auto
  have "\<forall>c \<in> set bs. hash c \<noteq> hash b" using dist(1) by (metis imageI)
  then have "\<forall>c \<in> set bs. c \<in> U \<and> acceptable L U c (W (hash c)) \<and> stored t1 (hash c) = None"
    using c(2) t1(3) by simp
  from connect_chain [OF env num t1(2) _ dist(1) t1(4) _ dist(2) this, of n] obtain t2 where
    t2: "try_connect_buffered_blocks L (hash b) t1 = Some (None, t2)" "follows L keys ents rk U nm g st t2"
    "stored t1 \<subseteq>\<^sub>m stored t2" "\<forall>c \<in> set bs. stored t2 (hash c) = Some c"
    "nh_hash (canonical_head t2) = (if head_block_hash st \<in> hash ` set bs then head_block_hash st
      else nh_hash (canonical_head t))" "holds (buffer_ops L) n W [] [] (block_buffer t2)"
    using t1(3,5,7) h c(1) by auto
  have sb: "stored t2 (hash b) = Some b" using t2(3) t1(3) by (auto simp: map_le_def)
  have target: "is_sync_target_head L t1 (hash b) \<longleftrightarrow> head_block_hash st = hash b"
    using follows_target [OF t1(2), of "hash b"] by auto
  have "on_downloaded_block L b (W (hash b)) t = Some (Inr (with_maybe_event
      (tree_outcome_new (payload_status_new StatusValid (Some (hash b))))
      (if head_block_hash st = hash b then Some (make_canonical_event (hash b)) else None)), t2)"
    using low i(1) t1(1) t2(1) target by (simp add: on_downloaded_block_def Let_def)
  then show ?thesis
    using t2 sb t1(6) ancestor_mono [OF t1(4) t2(3)]
    by (intro exI [of _ t2] exI conjI) (auto simp: with_maybe_event_def tree_outcome_new_def with_event_def)
qed

end
