(* ===== verification/Engine_Sync.thy ===== *)
theory Engine_Sync
  imports Engine_Props Chain_Sync
begin

text \<open>
  How the engine follows a chain to an unknown head: the forkchoice update that starts it, one poll for
  each block that a peer serves, and the state of the engine between the polls.
\<close>

section \<open>Serving one block\<close>

text \<open>The downloader waits for the block with the hash and for its proof, and for nothing else.\<close>

definition awaits :: "b256 \<Rightarrow> 'p downloader \<Rightarrow> bool" where
  "awaits h d \<longleftrightarrow> outcomes d = [] \<and> inflight_finalized_block_requests d = [] \<and>
     map fb_block_hash (inflight_full_block_requests d) = [h] \<and>
     map pf_block_hash (inflight_proof_requests d) = [h] \<and>
     (\<forall>f \<in> set (inflight_full_block_requests d). fb_header f = None \<and> fb_body f = None \<and>
        pending_header_request f \<noteq> None \<and> pending_body_request f \<noteq> None)"

definition rests :: "'p downloader \<Rightarrow> bool" where
  "rests d \<longleftrightarrow> outcomes d = [] \<and> inflight_finalized_block_requests d = [] \<and>
     inflight_full_block_requests d = [] \<and> inflight_proof_requests d = []"

text \<open>
  What a peer that has the block answers to the requests for it; what else is answered in the same poll
  does not matter.
\<close>

definition serves_block :: "('p \<Rightarrow> bytes) \<Rightarrow> (b256 \<Rightarrow> 'p) \<Rightarrow> recovered_block \<Rightarrow> poll_answers \<Rightarrow> bool" where
  "serves_block encode W b a \<longleftrightarrow>
     header_polls (full_answers a (hash b)) = [Ready (Inr [clone_header b])] \<and>
     body_polls (full_answers a (hash b)) = [Ready (Inr [body b])] \<and>
     proof_polls (proof_answers a (hash b)) = [Ready (Inr (encode (W (hash b))))]"

text \<open>The hash of the block is the hash of its header, its body fits, and its proof is read back.\<close>

definition servable ::
  "('p, 'z) fetch_lib_scheme \<Rightarrow> ('p \<Rightarrow> bytes) \<Rightarrow> (b256 \<Rightarrow> 'p) \<Rightarrow> recovered_block \<Rightarrow> bool" where
  "servable F encode W b \<longleftrightarrow> good_block F (hash b) (clone_sealed_block b) \<and>
     decode_proof F (encode (W (hash b))) = Some (W (hash b)) \<and> \<not> proof_is_empty F (W (hash b))"

lemma seal_same: "hash_slow F (clone_header b) = hash b \<Longrightarrow> seal_slow F (clone_header b) = clone_sealed_header b"
  by (rule sealed_header.equality) (simp_all add: seal_slow_def header.defs clone_header_def)

lemma from_parts_same: "from_sealed_parts (clone_sealed_header b) (body b) = clone_sealed_block b"
  by (rule sealed_block.equality)
     (simp_all add: from_sealed_parts_def clone_sealed_header_def sealed_header.defs)

lemma clone_header_sealed_block: "clone_header (clone_sealed_block b) = clone_header b"
  by (rule header.equality) simp_all

lemma poll_full_block_served:
  assumes s: "servable F encode W b" and f: "fb_block_hash f = hash b" "fb_header f = None" "fb_body f = None"
    "pending_header_request f \<noteq> None" "pending_body_request f \<noteq> None"
  shows "\<exists>f'. poll_full_block F f [Ready (Inr [clone_header b])] [Ready (Inr [body b])] =
    (Ready (clone_sealed_block b), f', [], [])"
proof -
  have "hash_slow F (clone_header b) = hash b"
    "validate_body_against_header F (body b) (clone_sealed_header b) = None"
    using s by (simp_all add: servable_def good_block_def clone_header_sealed_block)
  then show ?thesis
    using f seal_same [of F b]
    by (subst poll_full_block.simps)
       (auto simp: poll_header_request_def poll_body_request_def on_header_response_def
         on_body_response_def first_of_def Let_def from_parts_same)
qed

lemma poll_awaited:
  assumes s: "servable F encode W b" and d: "awaits (hash b) d" and a: "serves_block encode W b a"
  shows "\<exists>d'. poll_downloader F a d =
      Some (Ready (FullBlockData (clone_sealed_block b)), d'\<lparr>outcomes := [ProofData (hash b) (W (hash b))]\<rparr>) \<and> rests d'"
proof -
  obtain f g where fg: "inflight_full_block_requests d = [f]" "inflight_proof_requests d = [g]"
    "fb_block_hash f = hash b" "pf_block_hash g = hash b"
    using d by (auto simp: awaits_def)
  obtain f' where "poll_full_block F f [Ready (Inr [clone_header b])] [Ready (Inr [body b])] =
    (Ready (clone_sealed_block b), f', [], [])"
    using poll_full_block_served [OF s fg(3)] d fg(1) by (auto simp: awaits_def)
  then have p: "drop_env (poll_full_block_env F f (full_answers a (hash b))) = (Ready (clone_sealed_block b), f')"
    using a by (simp add: poll_full_block_env_def serves_block_def drop_env_def)
  have q: "drop_env (poll_proof_env F g (proof_answers a (hash b))) = (Ready (W (hash b)), g)"
    using s a by (simp add: poll_proof_env_def serves_block_def drop_env_def accept_proof_def servable_def)
  show ?thesis
    using d fg p q
    by (simp add: awaits_def rests_def poll_downloader_def pop_outcome_def advance_finalized_def
        advance_full_blocks_def advance_proofs_def swap_remove_def)
       (rule exI, auto)
qed

lemma poll_awaiting_quiet:
  assumes d: "awaits h d"
  shows "\<exists>d'. poll_downloader F no_answers d = Some (Pending, d') \<and> awaits h d'"
proof -
  obtain f g where fg: "inflight_full_block_requests d = [f]" "inflight_proof_requests d = [g]"
    "fb_block_hash f = h" "pf_block_hash g = h" "\<not> both_parts f"
    using d by (auto simp: awaits_def both_parts_def)
  show ?thesis
    using d fg poll_full_block_quiet [OF fg(5), of F]
    by (simp add: awaits_def poll_downloader_def pop_outcome_def advance_finalized_def no_answers_def no_polls_def
        advance_full_blocks_def advance_proofs_def swap_remove_def drop_env_def poll_full_block_env_def poll_proof_env_def)
qed

lemma poll_rests_quiet:
  "rests d \<Longrightarrow> \<exists>d'. poll_downloader F a d = Some (Pending, d') \<and> rests d'"
  by (simp add: rests_def poll_downloader_def pop_outcome_def advance_finalized_def
        advance_full_blocks_def advance_proofs_def)

lemma awaits_new: "rests d \<Longrightarrow> awaits h (download_proof h (download_full_block h d))"
  by (auto simp: rests_def awaits_def download_full_block_def download_proof_def Let_def full_block_new_def
      proof_future_new_def header_request_def body_request_def)


section \<open>One poll of the engine\<close>

lemma poll_engine_step:
  "engine_iteration L F rc (env_hd now envs) ms e = Some (None, ms', e') \<Longrightarrow>
     poll_engine L F rc now envs ms e = poll_engine L F rc (env_now (env_hd now envs)) (tl envs) ms' e'"
  by (subst poll_engine.simps) simp

lemma poll_engine_ends:
  assumes "poll_downloader F no_answers (downloader e) = Some (Pending, d)" and "parked e = None"
  shows "poll_engine L F rc now [] [] e = Some (Pending, [], e\<lparr>downloader := d\<rparr>)"
  using assms
  by (subst poll_engine.simps) (simp add: engine_iteration_def env_hd_def quiet_env_def check_parked_def)

text \<open>The engine waits for a block of the chain, with the blocks \<open>ds\<close> on top of it in the buffer.\<close>

definition sync_waits ::
  "('p, 'x, 'e, 'a, 'i, 'f, 'l) tree_lib \<Rightarrow> ('l \<Rightarrow> b256 list) \<Rightarrow>
     ('i \<Rightarrow> b256 \<rightharpoonup> block_with_parent) \<Rightarrow> (b256 \<Rightarrow> nat) \<Rightarrow> recovered_block set \<Rightarrow> (b256 \<Rightarrow> nat) \<Rightarrow>
     b256 \<Rightarrow> forkchoice_state \<Rightarrow> nat \<Rightarrow> (b256 \<Rightarrow> 'p) \<Rightarrow> b256 \<Rightarrow> recovered_block list \<Rightarrow>
     ('p, 'i, 'f, 'l) engine \<Rightarrow> bool" where
  "sync_waits L keys ents rk U nm g st n W h ds e \<longleftrightarrow>
     follows L keys ents rk U nm g st (tree e) \<and> parked e = None \<and> awaits h (downloader e) \<and>
     holds (buffer_ops L) n W ds ds (block_buffer (tree e))"

text \<open>The block and its proof arrive: both pass through the buffer to the tree.\<close>

lemma poll_served:
  assumes env: "tree_env L keys ents rk U" and inv: "tree_inv L keys ents rk U (tree e)"
    and w: "parked e = None" "awaits (hash b) (downloader e)" "holds (buffer_ops L) n W ds ds (block_buffer (tree e))"
    and b: "b \<in> U" "rc (clone_sealed_block b) = Some b" "servable F encode W b" "hash b \<notin> hash ` set ds"
    and ds: "distinct (map hash ds)" "length ds < n" and pe: "serves_block encode W b (env_answers pe)"
  shows "\<exists>buf d. holds (buffer_ops L) n W ds ds buf \<and> rests d \<and>
    tree_inv L keys ents rk U ((tree e)\<lparr>block_buffer := buf\<rparr>) \<and>
    (\<forall>r t' e'. on_downloaded_block L b (W (hash b)) ((tree e)\<lparr>block_buffer := buf\<rparr>) = Some (Inr r, t') \<longrightarrow>
       on_maybe_tree_event L (event r) (e\<lparr>downloader := d, tree := t'\<rparr>) = Some e' \<longrightarrow> parked e' = None \<longrightarrow>
       poll_engine L F rc now [pe] [] e = poll_engine L F rc (env_now pe) [] [] e')"
proof -
  note laws = tree_envD(2) [OF env]
  obtain d where d: "poll_downloader F (env_answers pe) (downloader e) = Some
      (Ready (FullBlockData (clone_sealed_block b)), d\<lparr>outcomes := [ProofData (hash b) (W (hash b))]\<rparr>)" "rests d"
    using poll_awaited [OF b(3) w(2) pe] by blast
  let ?d = "d\<lparr>outcomes := [ProofData (hash b) (W (hash b))]\<rparr>"
  let ?b1 = "Block_Buffer.insert_block (buffer_ops L) b (block_buffer (tree e))"
  let ?b2 = "insert_proof (hash b) (W (hash b)) ?b1"
  have h1: "holds (buffer_ops L) n W (b # ds) ds ?b1"
    by (rule holds_insert [OF laws tree_invD(4) [OF inv] w(3) ds(1) b(4) ds(2)])
  have inv1: "tree_inv L keys ents rk U ((tree e)\<lparr>block_buffer := ?b1\<rparr>)"
    by (rule tree_inv_buffer_insert [OF env inv b(1)])
  have inv2: "tree_inv L keys ents rk U ((tree e)\<lparr>block_buffer := ?b2\<rparr>)"
    using tree_inv_insert_proof [OF inv1, of "hash b" "W (hash b)"] by simp
  obtain buf where buf: "remove_block (buffer_ops L) (hash b) ?b2 = (Some (b, W (hash b)), buf)"
    "holds (buffer_ops L) n W ds ds buf"
    using holds_remove [OF laws _ holds_insert_proof [OF h1]] tree_invD(4) [OF inv2] b(4) by auto
  have inv3: "tree_inv L keys ents rk U ((tree e)\<lparr>block_buffer := buf\<rparr>)"
    using tree_inv_remove_block(1) [OF env inv2, of "hash b"] buf(1) by simp
  let ?e1 = "e\<lparr>downloader := ?d, tree := (tree e)\<lparr>block_buffer := ?b1\<rparr>\<rparr>"
  have "engine_iteration L F rc pe [] e = Some (None, [], ?e1)"
    using d(1) b(2) holds_no_proof [OF h1 b(4)]
    by (simp add: engine_iteration_def on_download_outcome_def insert_unlocked_def Let_def)
  then have s1: "poll_engine L F rc now [pe] [] e = poll_engine L F rc (env_now pe) [] [] ?e1"
    using poll_engine_step [where envs = "[pe]"] by (simp add: env_hd_def)
  let ?d' = "d\<lparr>outcomes := []\<rparr>"
  have "poll_engine L F rc (env_now pe) [] [] ?e1 = poll_engine L F rc (env_now pe) [] [] e'"
    if o': "on_downloaded_block L b (W (hash b)) ((tree e)\<lparr>block_buffer := buf\<rparr>) = Some (Inr r, t')"
      "on_maybe_tree_event L (event r) (e\<lparr>downloader := ?d', tree := t'\<rparr>) = Some e'" "parked e' = None" for r t' e'
  proof -
    have "poll_downloader F no_answers ?d = Some (Ready (ProofData (hash b) (W (hash b))), ?d')"
      by (simp add: poll_downloader_def pop_outcome_def)
    then have "engine_iteration L F rc (quiet_env (env_now pe)) [] ?e1 = Some (None, [], e')"
      using o' buf(1)
      by (simp add: engine_iteration_def quiet_env_def on_download_outcome_def insert_unlocked_def Let_def answer_parked_def)
    then show ?thesis
      using poll_engine_step [where envs = "[]" and now = "env_now pe"] by (simp add: env_hd_def quiet_env_def)
  qed
  then show ?thesis
    using s1 buf(2) inv3 d(2) by (intro exI [of _ buf] exI [of _ ?d']) (auto simp: rests_def)
qed


text \<open>The chain goes on below the block: its parent is asked for next.\<close>

lemma poll_served_waits:
  assumes env: "tree_env L keys ents rk U"
    and w: "sync_waits L keys ents rk U nm g st n W (hash b) ds e"
    and b: "b \<in> U" "rc (clone_sealed_block b) = Some b" "acceptable L U b (W (hash b))" "servable F encode W b"
    and new: "hash b \<notin> hash ` set ds" "stored (tree e) (hash b) = None"
      "parent_hash b \<notin> hash ` set (b # ds)" "stored (tree e) (parent_hash b) = None"
    and ds: "distinct (map hash ds)" "length ds < n" and pe: "serves_block encode W b (env_answers pe)"
  shows "\<exists>e'. poll_engine L F rc now [pe] [] e = Some (Pending, [], e') \<and>
    sync_waits L keys ents rk U nm g st n W (parent_hash b) (b # ds) e' \<and>
    stored (tree e') = stored (tree e) \<and> responses e' = responses e"
proof -
  have f: "follows L keys ents rk U nm g st (tree e)" and w: "parked e = None" "awaits (hash b) (downloader e)"
    "holds (buffer_ops L) n W ds ds (block_buffer (tree e))"
    using w by (simp_all add: sync_waits_def)
  obtain buf d where p: "holds (buffer_ops L) n W ds ds buf" "rests d"
    "tree_inv L keys ents rk U ((tree e)\<lparr>block_buffer := buf\<rparr>)"
    "\<And>r t' e'. on_downloaded_block L b (W (hash b)) ((tree e)\<lparr>block_buffer := buf\<rparr>) = Some (Inr r, t') \<Longrightarrow>
       on_maybe_tree_event L (event r) (e\<lparr>downloader := d, tree := t'\<rparr>) = Some e' \<Longrightarrow> parked e' = None \<Longrightarrow>
       poll_engine L F rc now [pe] [] e = poll_engine L F rc (env_now pe) [] [] e'"
    using poll_served [where rc = rc and now = now, OF env followsD(2) [OF f] w b(1,2,4) new(1) ds pe] by blast
  let ?t = "(tree e)\<lparr>block_buffer := buf\<rparr>"
  let ?b1 = "insert_proof (hash b) (W (hash b)) buf"
  let ?b2 = "Block_Buffer.insert_block (buffer_ops L) b ?b1"
  have nb: "buffered ?t (hash b) = None" "buffered ?t (parent_hash b) = None"
    using holds_lookup(1) [OF p(1)] new(1,3) by simp_all
  obtain i where i: "on_downloaded_block L b (W (hash b)) ?t =
      Some (Inr (with_event (tree_outcome_new (payload_status_new StatusSyncing None))
        (download_block_event (parent_hash b))), ?t\<lparr>invalid_headers := i, block_buffer := ?b2\<rparr>)" "ents i = Map.empty"
    using downloaded_disconnected [OF env, of ?t b "W (hash b)"] followsD(3) [OF f] nb new(2,4) b(3)
    by (auto simp: no_invalid_def acceptable_def)
  let ?t' = "?t\<lparr>invalid_headers := i, block_buffer := ?b2\<rparr>"
  have inv1: "tree_inv L keys ents rk U ((tree e)\<lparr>block_buffer := ?b1\<rparr>)"
    using tree_inv_insert_proof [OF p(3), of "hash b" "W (hash b)"] by simp
  have "tree_inv L keys ents rk U ((tree e)\<lparr>block_buffer := ?b2\<rparr>)"
    using tree_inv_buffer_insert [OF env inv1 b(1)] by simp
  then have "tree_inv L keys ents rk U ?t'" using i(2) by (simp add: tree_inv_def ranked_entries_def)
  then have f': "follows L keys ents rk U nm g st ?t'"
    by (rule follows_cong [OF f]) (simp_all add: no_invalid_def i(2))
  have h: "holds (buffer_ops L) n W (b # ds) (b # ds) ?b2"
    using holds_insert [OF tree_envD(2) [OF env] _ holds_insert_proof [OF p(1)] ds(1) new(1) ds(2)]
      tree_invD(4) [OF inv1] by simp
  let ?d = "download_proof (parent_hash b) (download_full_block (parent_hash b) d)"
  let ?e = "e\<lparr>downloader := ?d, tree := ?t'\<rparr>"
  have "on_tree_event L (download_block_event (parent_hash b)) (e\<lparr>downloader := d, tree := ?t'\<rparr>) = Some ?e"
    using holds_lookup(2) [OF h] new(3) by (simp add: on_tree_event_def download_block_event_def Let_def)
  then have "poll_engine L F rc now [pe] [] e = poll_engine L F rc (env_now pe) [] [] ?e"
    using p(4) [OF i(1)] w(1) by (simp add: on_maybe_tree_event_def)
  moreover obtain d' where "poll_downloader F no_answers ?d = Some (Pending, d')" "awaits (parent_hash b) d'"
    using poll_awaiting_quiet [OF awaits_new [OF p(2)]] by blast
  ultimately show ?thesis
    using poll_engine_ends [of F ?e d' L rc "env_now pe"] w(1) f' h by (auto simp: sync_waits_def)
qed


text \<open>An engine at rest: nothing is asked for, parked or buffered, and no block is known to be invalid.\<close>

definition at_rest ::
  "('p, 'x, 'e, 'a, 'i, 'f, 'l) tree_lib \<Rightarrow> ('l \<Rightarrow> b256 list) \<Rightarrow> ('i \<Rightarrow> b256 \<rightharpoonup> block_with_parent) \<Rightarrow>
     (b256 \<Rightarrow> nat) \<Rightarrow> recovered_block set \<Rightarrow> (b256 \<Rightarrow> nat) \<Rightarrow> nat \<Rightarrow> ('p, 'i, 'f, 'l) engine \<Rightarrow> bool" where
  "at_rest L keys ents rk U nm n e \<longleftrightarrow>
     tree_good L keys ents rk U nm (tree e) \<and> no_invalid ents (tree e) \<and> parked e = None \<and> rests (downloader e) \<and>
     blocks (block_buffer (tree e)) = fmempty \<and> buffered_proofs (block_buffer (tree e)) = fmempty \<and>
     unat (lru_max_length (buffer_ops L) (lru (block_buffer (tree e)))) = n"

lemma holds_empty:
  "holds L n W [] [] buf \<longleftrightarrow> blocks buf = fmempty \<and> buffered_proofs buf = fmempty \<and> unat (lru_max_length L (lru buf)) = n"
  by (auto simp: holds_def fun_eq_iff intro: fmap_ext)

text \<open>The end of a chain that was connected becomes the head, by the connection or by its event.\<close>

lemma end_made_head:
  assumes env: "tree_env L keys ents rk U" and num: "numbers_checked L nm U"
    and f: "follows L keys ents rk U nm g st t" and b: "stored t (hash b) = Some c" "number c \<noteq> 0"
      "ancestor_in (chain_state_of (provider t)) (hash b) g"
    and ev: "ev = (if head_block_hash st = hash b then Some (make_canonical_event (hash b)) else None)"
    and head: "head_block_hash st = hash (last (b # ds))" "hash b \<notin> hash ` set ds"
      "head_block_hash st \<in> hash ` set ds \<Longrightarrow> nh_hash (canonical_head t) = head_block_hash st"
  shows "\<exists>t'. on_maybe_tree_event L ev (e\<lparr>downloader := d, tree := t\<rparr>) = Some (e\<lparr>downloader := d, tree := t'\<rparr>) \<and>
    follows L keys ents rk U nm g st t' \<and> stored t' = stored t \<and> block_buffer t' = block_buffer t \<and>
    nh_hash (canonical_head t') = head_block_hash st"
proof (cases "ds = []")
  case True
  then have h: "head_block_hash st = hash b" using head(1) by simp
  obtain t' where "make_canonical L (hash b) t = Some t'" "follows L keys ents rk U nm g st t'"
    "stored t' = stored t" "nh_hash (canonical_head t') = hash b" "block_buffer t' = block_buffer t"
    using make_canonical_follows [OF env num f b] by blast
  then show ?thesis
    using h ev by (intro exI [of _ t']) (simp add: on_maybe_tree_event_def on_tree_event_def make_canonical_event_def)
next
  case False
  then have "head_block_hash st \<in> hash ` set ds" using head(1) by simp
  moreover from this have "head_block_hash st \<noteq> hash b" using head(2) by metis
  ultimately show ?thesis
    using f ev head(3) by (intro exI [of _ t]) (simp add: on_maybe_tree_event_def)
qed

text \<open>The parent of the block is stored: the whole chain is stored, and its end is the head.\<close>

lemma poll_served_connects:
  assumes env: "tree_env L keys ents rk U" and num: "numbers_checked L nm U"
    and w: "sync_waits L keys ents rk U nm g st n W (hash b) ds e"
    and c: "chained g (b # ds)" "rc (clone_sealed_block b) = Some b" "servable F encode W b"
      "\<forall>c \<in> set (b # ds). c \<in> U \<and> acceptable L U c (W (hash c)) \<and> stored (tree e) (hash c) = None"
    and head: "head_block_hash st = hash (last (b # ds))"
    and ds: "length ds < n" and pe: "serves_block encode W b (env_answers pe)"
  shows "\<exists>e'. poll_engine L F rc now [pe] [] e = Some (Pending, [], e') \<and>
    at_rest L keys ents rk U nm n e' \<and> (\<forall>c \<in> set (b # ds). stored (tree e') (hash c) = Some c) \<and>
    nh_hash (canonical_head (tree e')) = head_block_hash st \<and> responses e' = responses e"
proof -
  have f: "follows L keys ents rk U nm g st (tree e)" and w: "parked e = None" "awaits (hash b) (downloader e)"
    "holds (buffer_ops L) n W ds ds (block_buffer (tree e))"
    using w by (simp_all add: sync_waits_def)
  have U: "\<forall>c \<in> set (b # ds). hash_ranked rk c" using c(4) tree_envD(5) [OF env] by blast
  have dist: "hash b \<notin> hash ` set ds" "distinct (map hash ds)" using chained_distinct [OF c(1) U] by simp_all
  have "b \<in> U" using c(4) by simp
  obtain buf d where p: "holds (buffer_ops L) n W ds ds buf" "rests d"
    "tree_inv L keys ents rk U ((tree e)\<lparr>block_buffer := buf\<rparr>)"
    "\<And>r t' e'. on_downloaded_block L b (W (hash b)) ((tree e)\<lparr>block_buffer := buf\<rparr>) = Some (Inr r, t') \<Longrightarrow>
       on_maybe_tree_event L (event r) (e\<lparr>downloader := d, tree := t'\<rparr>) = Some e' \<Longrightarrow> parked e' = None \<Longrightarrow>
       poll_engine L F rc now [pe] [] e = poll_engine L F rc (env_now pe) [] [] e'"
    using poll_served [where rc = rc and now = now, OF env followsD(2) [OF f] w \<open>b \<in> U\<close> c(2,3) dist ds pe] by blast
  let ?t = "(tree e)\<lparr>block_buffer := buf\<rparr>"
  have f': "follows L keys ents rk U nm g st ?t"
    by (rule follows_cong [OF f p(3)]) (use followsD(3) [OF f] in \<open>simp_all add: no_invalid_def\<close>)
  obtain r t1 c1 where t1: "on_downloaded_block L b (W (hash b)) ?t = Some (Inr r, t1)"
    "follows L keys ents rk U nm g st t1" "\<forall>c \<in> set (b # ds). stored t1 (hash c) = Some c"
    "ancestor_in (chain_state_of (provider t1)) (hash b) g" "stored t1 (hash b) = Some c1" "number c1 \<noteq> 0"
    "event r = (if head_block_hash st = hash b then Some (make_canonical_event (hash b)) else None)"
    "holds (buffer_ops L) n W [] [] (block_buffer t1)"
    "nh_hash (canonical_head t1) = (if head_block_hash st \<in> hash ` set ds then head_block_hash st
      else nh_hash (canonical_head ?t))"
    using downloaded_connected [OF env num f' c(1), of W n] c(4) p(1) by auto
  obtain t2 where t2: "on_maybe_tree_event L (event r) (e\<lparr>downloader := d, tree := t1\<rparr>) =
      Some (e\<lparr>downloader := d, tree := t2\<rparr>)" "follows L keys ents rk U nm g st t2" "stored t2 = stored t1"
    "block_buffer t2 = block_buffer t1" "nh_hash (canonical_head t2) = head_block_hash st"
    using end_made_head [OF env num t1(2,5,6,4,7) head dist(1) _, of d e] t1(9) by auto
  let ?e = "e\<lparr>downloader := d, tree := t2\<rparr>"
  have "poll_engine L F rc now [pe] [] e = poll_engine L F rc (env_now pe) [] [] ?e"
    using p(4) [OF t1(1) t2(1)] w(1) by simp
  moreover obtain d' where "poll_downloader F no_answers d = Some (Pending, d')" "rests d'"
    using poll_rests_quiet [OF p(2)] by blast
  moreover have "tree_good L keys ents rk U nm t2" "no_invalid ents t2" using followsD(1,3) [OF t2(2)] by simp_all
  moreover have "holds (buffer_ops L) n W [] [] (block_buffer t2)" using t1(8) t2(4) by simp
  ultimately show ?thesis
    using poll_engine_ends [of F ?e d' L rc "env_now pe"] w(1) t1(3) t2(3,5)
    by (auto simp: at_rest_def holds_empty)
qed

section \<open>All the blocks of a chain\<close>

text \<open>Successive polls, each with what the network answers to it.\<close>

fun poll_rounds ::
  "('p, 'x, 'e, 'a, 'i, 'f, 'l) tree_lib \<Rightarrow> 'p fetch_lib \<Rightarrow> (sealed_block \<Rightarrow> recovered_block option) \<Rightarrow>
     instant \<Rightarrow> poll_env list \<Rightarrow> ('p, 'i, 'f, 'l) engine \<Rightarrow> ('p, 'i, 'f, 'l) engine option" where
  "poll_rounds L F rc now [] e = Some e"
| "poll_rounds L F rc now (pe # pes) e =
     (case poll_engine L F rc now [pe] [] e of
        Some (Pending, [], e) \<Rightarrow> poll_rounds L F rc (env_now pe) pes e
      | _ \<Rightarrow> None)"

text \<open>A chain on top of \<open>g\<close> whose blocks and proofs the peers have and the checks accept.\<close>

definition served_chain ::
  "('p, 'x, 'e, 'a, 'i, 'f, 'l) tree_lib \<Rightarrow> 'p fetch_lib \<Rightarrow> recovered_block set \<Rightarrow>
     (sealed_block \<Rightarrow> recovered_block option) \<Rightarrow> ('p \<Rightarrow> bytes) \<Rightarrow> (b256 \<Rightarrow> 'p) \<Rightarrow> b256 \<Rightarrow>
     recovered_block list \<Rightarrow> bool" where
  "served_chain L F U rc encode W g bs \<longleftrightarrow> chained g bs \<and>
     (\<forall>b \<in> set bs. b \<in> U \<and> rc (clone_sealed_block b) = Some b \<and> acceptable L U b (W (hash b)) \<and>
        servable F encode W b)"

text \<open>
  The sync between two polls: the blocks \<open>ds\<close> wait in the buffer for those of \<open>bs\<close>, the last of which is
  asked for; when none is missing, all are stored and the engine is at rest.
\<close>

definition sync_stage ::
  "('p, 'x, 'e, 'a, 'i, 'f, 'l) tree_lib \<Rightarrow> ('l \<Rightarrow> b256 list) \<Rightarrow>
     ('i \<Rightarrow> b256 \<rightharpoonup> block_with_parent) \<Rightarrow> (b256 \<Rightarrow> nat) \<Rightarrow> recovered_block set \<Rightarrow> (b256 \<Rightarrow> nat) \<Rightarrow>
     b256 \<Rightarrow> forkchoice_state \<Rightarrow> nat \<Rightarrow> (b256 \<Rightarrow> 'p) \<Rightarrow> recovered_block list \<Rightarrow> recovered_block list \<Rightarrow>
     ('p, 'i, 'f, 'l) engine \<Rightarrow> bool" where
  "sync_stage L keys ents rk U nm g st n W bs ds e \<longleftrightarrow>
     (if bs = [] then at_rest L keys ents rk U nm n e \<and> (\<forall>b \<in> set ds. stored (tree e) (hash b) = Some b) \<and>
        nh_hash (canonical_head (tree e)) = head_block_hash st
      else sync_waits L keys ents rk U nm g st n W (hash (last bs)) ds e \<and>
        (\<forall>b \<in> set (bs @ ds). stored (tree e) (hash b) = None))"

lemma poll_served_stage:
  assumes env: "tree_env L keys ents rk U" and num: "numbers_checked L nm U"
    and chain: "served_chain L F U rc encode W g (bs @ b # ds)" "length (bs @ b # ds) \<le> n"
      "head_block_hash st = hash (last (bs @ b # ds))"
    and stage: "sync_stage L keys ents rk U nm g st n W (bs @ [b]) ds e"
    and pe: "serves_block encode W b (env_answers pe)"
  shows "\<exists>e'. poll_engine L F rc now [pe] [] e = Some (Pending, [], e') \<and>
    sync_stage L keys ents rk U nm g st n W bs (b # ds) e' \<and> responses e' = responses e"
proof -
  have c: "chained g (bs @ b # ds)" and each: "\<forall>c \<in> set (bs @ b # ds). c \<in> U \<and>
      rc (clone_sealed_block c) = Some c \<and> acceptable L U c (W (hash c)) \<and> servable F encode W c"
    using chain(1) by (simp_all add: served_chain_def)
  have "\<forall>c \<in> set (bs @ b # ds). hash_ranked rk c" using each tree_envD(5) [OF env] by blast
  then have dist: "distinct (map hash (bs @ b # ds))" by (rule chained_distinct [OF c])
  have w: "sync_waits L keys ents rk U nm g st n W (hash b) ds e" and
    new: "\<forall>c \<in> set (bs @ b # ds). stored (tree e) (hash c) = None"
    using stage by (simp_all add: sync_stage_def)
  have b: "b \<in> U" "rc (clone_sealed_block b) = Some b" "acceptable L U b (W (hash b))" "servable F encode W b"
    using each by simp_all
  have len: "length ds < n" using chain(2) by simp
  show ?thesis
  proof (cases "bs = []")
    case True
    have "chained g (b # ds)" "head_block_hash st = hash (last (b # ds))"
      "\<forall>c \<in> set (b # ds). c \<in> U \<and> acceptable L U c (W (hash c)) \<and> stored (tree e) (hash c) = None"
      using c each new chain(3) True by simp_all
    from poll_served_connects [where rc = rc and now = now, OF env num w this(1) b(2,4) this(3,2) len pe]
    show ?thesis using True by (simp add: sync_stage_def)
  next
    case False
    have p: "parent_hash b = hash (last bs)" using c False chained_append [of g bs "b # ds"] by simp
    have "parent_hash b \<notin> hash ` set (b # ds)"
    proof -
      have "hash ` set bs \<inter> hash ` set (b # ds) = {}" using dist by simp
      moreover have "hash (last bs) \<in> hash ` set bs" using False by simp
      ultimately show ?thesis unfolding p by blast
    qed
    moreover have "stored (tree e) (parent_hash b) = None" "stored (tree e) (hash b) = None"
      using new p False by simp_all
    moreover have "hash b \<notin> hash ` set ds" "distinct (map hash ds)" using dist by simp_all
    ultimately obtain e1 where "poll_engine L F rc now [pe] [] e = Some (Pending, [], e1)"
      "sync_waits L keys ents rk U nm g st n W (hash (last bs)) (b # ds) e1"
      "stored (tree e1) = stored (tree e)" "responses e1 = responses e"
      using poll_served_waits [where rc = rc and now = now, OF env w b _ _ _ _ _ len pe] p by metis
    then show ?thesis using False new by (simp add: sync_stage_def)
  qed
qed

lemma poll_rounds_sync:
  assumes env: "tree_env L keys ents rk U" and num: "numbers_checked L nm U"
  shows "served_chain L F U rc encode W g (bs @ ds) \<Longrightarrow> length (bs @ ds) \<le> n \<Longrightarrow>
    head_block_hash st = hash (last (bs @ ds)) \<Longrightarrow> sync_stage L keys ents rk U nm g st n W bs ds e \<Longrightarrow>
    list_all2 (\<lambda>b pe. serves_block encode W b (env_answers pe)) (rev bs) pes \<Longrightarrow>
    \<exists>e'. poll_rounds L F rc now pes e = Some e' \<and>
      sync_stage L keys ents rk U nm g st n W [] (bs @ ds) e' \<and> responses e' = responses e"
proof (induction bs arbitrary: ds e pes now rule: rev_induct)
  case (snoc b bs)
  obtain pe pes' where pes: "pes = pe # pes'" "serves_block encode W b (env_answers pe)"
    "list_all2 (\<lambda>b pe. serves_block encode W b (env_answers pe)) (rev bs) pes'"
    using snoc.prems(5) by (cases pes) auto
  have c: "served_chain L F U rc encode W g (bs @ b # ds)" "length (bs @ b # ds) \<le> n"
    "head_block_hash st = hash (last (bs @ b # ds))"
    using snoc.prems(1-3) by simp_all
  obtain e1 where e1: "poll_engine L F rc now [pe] [] e = Some (Pending, [], e1)"
    "sync_stage L keys ents rk U nm g st n W bs (b # ds) e1" "responses e1 = responses e"
    using poll_served_stage [OF env num c snoc.prems(4) pes(2)] by blast
  from snoc.IH [OF c e1(2) pes(3), of "env_now pe"] show ?case using e1 pes(1) by auto
qed simp


section \<open>The forkchoice update that starts it\<close>

lemma rest_not_buffered: "at_rest L keys ents rk U nm n e \<Longrightarrow> buffered (tree e) h = None"
  by (simp add: at_rest_def)

text \<open>No block is known to be invalid, so that the checks of an update pass it on.\<close>

lemma rest_prevalidated:
  assumes env: "tree_env L keys ents rk U" and rest: "at_rest L keys ents rk U nm n e"
    and h: "head_block_hash st \<noteq> 0"
  shows "\<exists>i. pre_validate_forkchoice_update L st (tree e) = Some (None, (tree e)\<lparr>invalid_headers := i\<rparr>) \<and>
    ents i = Map.empty"
proof -
  have "no_invalid ents (tree e)" using rest by (simp add: at_rest_def)
  then obtain i where "check_invalid_ancestor L (head_block_hash st) (tree e) =
      Some (None, (tree e)\<lparr>invalid_headers := i\<rparr>)" "ents i = Map.empty"
    using check_invalid_none [OF env] by blast
  then show ?thesis
    using h not_buffered_ancestor [OF rest_not_buffered [OF rest]]
    by (intro exI [of _ i]) (simp add: pre_validate_forkchoice_update_def)
qed

lemma head_stored:
  "tree_good L keys ents rk U nm t \<Longrightarrow> stored t (nh_hash (canonical_head t)) \<noteq> None"
  unfolding tree_good_def chain_ok_def canonical_chain_def by fastforce

text \<open>The tracker keeps the state of the latest update that was answered \<open>SYNCING\<close> as the target.\<close>

definition tracker_keeps :: "('p, 'x, 'e, 'a, 'i, 'f, 'l) tree_lib \<Rightarrow> bool" where
  "tracker_keeps L \<longleftrightarrow> (\<forall>st f. sync_target_state L (tracker_set_latest L st
     (forkchoice_status_of L (FcuValid (payload_status_from_status StatusSyncing))) f) = Some st)"

lemma unknown_head_asked:
  assumes env: "tree_env L keys ents rk U" and rest: "at_rest L keys ents rk U nm n e"
    and track: "tracker_keeps L" and g: "stored (tree e) g \<noteq> None"
      "ancestor_in (chain_state_of (provider (tree e))) (nh_hash (canonical_head (tree e))) g"
    and st: "head_block_hash st \<noteq> 0" "safe_block_hash st = 0" "finalized_block_hash st = 0"
      "stored (tree e) (head_block_hash st) = None"
  shows "\<exists>e'. on_forkchoice_message L tx st None v e = Some e' \<and>
    sync_waits L keys ents rk U nm g st n W (head_block_hash st) [] e' \<and> stored (tree e') = stored (tree e) \<and>
    responses e' = responses e @ [(tx, ForkchoiceResponse (Inr (FcuValid (payload_status_from_status StatusSyncing))))]"
proof -
  let ?h = "head_block_hash st"
  have good: "tree_good L keys ents rk U nm (tree e)" using rest by (simp add: at_rest_def)
  obtain i where i: "pre_validate_forkchoice_update L st (tree e) = Some (None, (tree e)\<lparr>invalid_headers := i\<rparr>)"
    "ents i = Map.empty"
    using rest_prevalidated [OF env rest st(1)] by blast
  let ?t = "(tree e)\<lparr>invalid_headers := i\<rparr>"
  let ?o = "with_event (tree_outcome_new (FcuValid (payload_status_from_status StatusSyncing))) (download_block_event ?h)"
  have ne: "nh_hash (canonical_head (tree e)) \<noteq> ?h" using head_stored [OF good] st(4) by metis
  have none: "provider_sealed_header (provider (tree e)) ?h = None" using st(4) by (simp add: provider_sealed_header_None)
  have "fcu_sync st ?t = Some ?o"
    using st none rest_not_buffered [OF rest] not_buffered_ancestor [of ?t ?h]
    by (simp add: fcu_sync_def is_block_persisted_or_buffered_def Let_def)
  then have u: "on_forkchoice_updated L st None v (tree e) = Some (Inr ?o, ?t)"
    using i(1) ne none by (simp add: on_forkchoice_updated_def on_new_head_def)
  let ?s = "forkchoice_status_of L (FcuValid (payload_status_from_status StatusSyncing))"
  let ?t' = "emit_event (ForkchoiceUpdated st ?s)
    (?t\<lparr>forkchoice_state_tracker := tracker_set_latest L st ?s (forkchoice_state_tracker (tree e))\<rparr>)"
  let ?d = "download_proof ?h (download_full_block ?h (downloader e))"
  let ?e = "send_response tx (ForkchoiceResponse (Inr (FcuValid (payload_status_from_status StatusSyncing))))
    (e\<lparr>tree := ?t', downloader := ?d\<rparr>)"
  have p: "buffered_proofs (block_buffer (tree e)) = fmempty" using rest by (simp add: at_rest_def)
  have "on_forkchoice_message L tx st None v e = Some ?e"
    using u p by (simp add: on_forkchoice_message_def on_maybe_tree_event_def on_tree_event_def
        download_block_event_def Let_def emit_event_def)
  moreover have "tree_inv L keys ents rk U ?t'"
    using good i(2) by (simp add: tree_good_def tree_inv_def ranked_entries_def emit_event_def)
  then have "follows L keys ents rk U nm g st ?t'"
    using good g i(2) track by (simp add: follows_def tree_good_def no_invalid_def emit_event_def tracker_keeps_def)
  moreover have "awaits ?h ?d" using rest awaits_new by (auto simp: at_rest_def)
  moreover have "holds (buffer_ops L) n W [] [] (block_buffer ?t')"
    using rest by (simp add: at_rest_def holds_empty emit_event_def)
  ultimately show ?thesis
    using rest by (intro exI [of _ ?e]) (simp add: sync_waits_def at_rest_def emit_event_def)
qed

text \<open>An update whose head is canonical already.\<close>

lemma known_head_valid:
  assumes env: "tree_env L keys ents rk U" and rest: "at_rest L keys ents rk U nm n e"
    and st: "head_block_hash st \<noteq> 0" "safe_block_hash st = 0" "finalized_block_hash st = 0"
      "nh_hash (canonical_head (tree e)) = head_block_hash st"
  shows "\<exists>e'. on_forkchoice_message L tx st None v e = Some e' \<and> rests (downloader e') \<and> parked e' = None \<and>
    responses e' = responses e @
      [(tx, ForkchoiceResponse (Inr (FcuValid (payload_status_new StatusValid (Some (head_block_hash st))))))]"
proof -
  obtain i where i: "pre_validate_forkchoice_update L st (tree e) = Some (None, (tree e)\<lparr>invalid_headers := i\<rparr>)"
    using rest_prevalidated [OF env rest st(1)] by blast
  have "on_forkchoice_updated L st None v (tree e) = Some (Inr (fcu_valid_head st), (tree e)\<lparr>invalid_headers := i\<rparr>)"
    using i st by (simp add: on_forkchoice_updated_def fcu_same_head_def ensure_consistent_forkchoice_state_def)
  then show ?thesis
    using rest by (simp add: on_forkchoice_message_def fcu_valid_head_def on_maybe_tree_event_def Let_def at_rest_def)
qed

text \<open>A message that waits is taken by the next poll, which then ends.\<close>

lemma poll_takes_message:
  assumes rest: "rests (downloader e)" "parked e = None"
    and m: "\<And>d. rests d \<Longrightarrow> \<exists>e'. on_engine_message L now m (e\<lparr>downloader := d\<rparr>) = Some e' \<and> parked e' = None \<and> P e' \<and>
      (\<exists>d'. poll_downloader F no_answers (downloader e') = Some (Pending, d') \<and> P (e'\<lparr>downloader := d'\<rparr>))"
  shows "\<exists>e'. poll_engine L F rc now [] [m] e = Some (Pending, [], e') \<and> P e'"
proof -
  obtain d where d: "poll_downloader F no_answers (downloader e) = Some (Pending, d)" "rests d"
    using poll_rests_quiet [OF rest(1)] by blast
  obtain e1 d' where e1: "on_engine_message L now m (e\<lparr>downloader := d\<rparr>) = Some e1" "parked e1 = None"
    "poll_downloader F no_answers (downloader e1) = Some (Pending, d')" "P (e1\<lparr>downloader := d'\<rparr>)"
    using m [OF d(2)] by blast
  have "engine_iteration L F rc (quiet_env now) [m] e = Some (None, [], e1)"
    using d(1) rest(2) e1(1) by (simp add: engine_iteration_def quiet_env_def check_parked_def)
  then have "poll_engine L F rc now [] [m] e = poll_engine L F rc now [] [] e1"
    using poll_engine_step [where envs = "[]" and now = now] by (simp add: env_hd_def quiet_env_def)
  then show ?thesis using poll_engine_ends [OF e1(3,2)] e1(4) by auto
qed


lemma at_rest_downloader:
  "at_rest L keys ents rk U nm n e \<Longrightarrow> rests d \<Longrightarrow> at_rest L keys ents rk U nm n (e\<lparr>downloader := d\<rparr>)"
  by (simp add: at_rest_def)

lemma launched_at_rest:
  assumes "tree_env L keys ents rk U" and "tree_good L keys ents rk U nm (launch_tree L spec)"
  shows "at_rest L keys ents rk U nm 256 (engine_new L (launch_provider spec))"
  using assms
  by (simp add: at_rest_def engine_new_def launch_tree_def engine_tree_new_def no_invalid_def tree_env_def
      invalid_cache_laws_def rests_def downloader_new_def buffer_new_def buffer_lib_laws_def Let_def)

text \<open>The first poll takes the update, the last one the same update again.\<close>

lemma poll_asks_head:
  assumes env: "tree_env L keys ents rk U" and rest: "at_rest L keys ents rk U nm n e"
    and track: "tracker_keeps L" and g: "stored (tree e) g \<noteq> None"
      "ancestor_in (chain_state_of (provider (tree e))) (nh_hash (canonical_head (tree e))) g"
    and st: "head_block_hash st \<noteq> 0" "safe_block_hash st = 0" "finalized_block_hash st = 0"
      "stored (tree e) (head_block_hash st) = None"
  shows "\<exists>e'. poll_engine L F rc now [] [ForkchoiceUpdate tx st None v] e = Some (Pending, [], e') \<and>
    sync_waits L keys ents rk U nm g st n W (head_block_hash st) [] e' \<and> stored (tree e') = stored (tree e) \<and>
    responses e' = responses e @ [(tx, ForkchoiceResponse (Inr (FcuValid (payload_status_from_status StatusSyncing))))]"
proof (rule poll_takes_message)
  fix d :: "'a downloader"
  assume "rests d"
  then have "at_rest L keys ents rk U nm n (e\<lparr>downloader := d\<rparr>)" by (rule at_rest_downloader [OF rest])
  from unknown_head_asked [where st = st and W = W and tx = tx and v = v, OF env this track, of g] obtain e1 where
    e1: "on_forkchoice_message L tx st None v (e\<lparr>downloader := d\<rparr>) = Some e1"
    "sync_waits L keys ents rk U nm g st n W (head_block_hash st) [] e1" "stored (tree e1) = stored (tree e)"
    "responses e1 = responses e @ [(tx, ForkchoiceResponse (Inr (FcuValid (payload_status_from_status StatusSyncing))))]"
    using g st by auto
  moreover from e1(2) obtain d' where "poll_downloader F no_answers (downloader e1) = Some (Pending, d')"
    "awaits (head_block_hash st) d'"
    using poll_awaiting_quiet unfolding sync_waits_def by blast
  ultimately show "\<exists>e'. on_engine_message L now (ForkchoiceUpdate tx st None v) (e\<lparr>downloader := d\<rparr>) = Some e' \<and>
      parked e' = None \<and> (sync_waits L keys ents rk U nm g st n W (head_block_hash st) [] e' \<and>
        stored (tree e') = stored (tree e) \<and> responses e' = responses e @
          [(tx, ForkchoiceResponse (Inr (FcuValid (payload_status_from_status StatusSyncing))))]) \<and>
      (\<exists>d'. poll_downloader F no_answers (downloader e') = Some (Pending, d') \<and>
        sync_waits L keys ents rk U nm g st n W (head_block_hash st) [] (e'\<lparr>downloader := d'\<rparr>) \<and>
        stored (tree (e'\<lparr>downloader := d'\<rparr>)) = stored (tree e) \<and> responses (e'\<lparr>downloader := d'\<rparr>) = responses e @
          [(tx, ForkchoiceResponse (Inr (FcuValid (payload_status_from_status StatusSyncing))))])"
    by (auto simp: on_engine_message_def sync_waits_def)
qed (use rest in \<open>simp_all add: at_rest_def\<close>)

lemma poll_confirms_head:
  assumes env: "tree_env L keys ents rk U" and rest: "at_rest L keys ents rk U nm n e"
    and st: "head_block_hash st \<noteq> 0" "safe_block_hash st = 0" "finalized_block_hash st = 0"
      "nh_hash (canonical_head (tree e)) = head_block_hash st"
  shows "\<exists>e'. poll_engine L F rc now [] [ForkchoiceUpdate tx st None v] e = Some (Pending, [], e') \<and>
    responses e' = responses e @
      [(tx, ForkchoiceResponse (Inr (FcuValid (payload_status_new StatusValid (Some (head_block_hash st))))))]"
proof (rule poll_takes_message)
  fix d :: "'a downloader"
  assume "rests d"
  then have "at_rest L keys ents rk U nm n (e\<lparr>downloader := d\<rparr>)" by (rule at_rest_downloader [OF rest])
  from known_head_valid [where st = st and tx = tx and v = v, OF env this] obtain e1 where
    e1: "on_forkchoice_message L tx st None v (e\<lparr>downloader := d\<rparr>) = Some e1" "rests (downloader e1)"
    "parked e1 = None" "responses e1 = responses e @
      [(tx, ForkchoiceResponse (Inr (FcuValid (payload_status_new StatusValid (Some (head_block_hash st))))))]"
    using st by auto
  moreover obtain d' where "poll_downloader F no_answers (downloader e1) = Some (Pending, d')"
    using poll_rests_quiet [OF e1(2)] by blast
  ultimately show "\<exists>e'. on_engine_message L now (ForkchoiceUpdate tx st None v) (e\<lparr>downloader := d\<rparr>) = Some e' \<and>
      parked e' = None \<and> responses e' = responses e @
        [(tx, ForkchoiceResponse (Inr (FcuValid (payload_status_new StatusValid (Some (head_block_hash st))))))] \<and>
      (\<exists>d'. poll_downloader F no_answers (downloader e') = Some (Pending, d') \<and>
        responses (e'\<lparr>downloader := d'\<rparr>) = responses e @
          [(tx, ForkchoiceResponse (Inr (FcuValid (payload_status_new StatusValid (Some (head_block_hash st))))))])"
    by (auto simp: on_engine_message_def)
qed (use rest in \<open>simp_all add: at_rest_def\<close>)

section \<open>Properties\<close>


section \<open>A concrete run\<close>

definition ex_sync_fetch :: "nat fetch_lib" where
  "ex_sync_fetch = ex_fetch\<lparr>
     validate_body_against_header := (\<lambda>b h. if b = [] then None else Some (OtherConsensusError ''body'')),
     decode_proof := (\<lambda>bs. case bs of [x] \<Rightarrow> Some (unat x) | _ \<Rightarrow> None)\<rparr>"

definition ex_encode :: "nat \<Rightarrow> bytes" where
  "ex_encode w = [of_nat w]"

definition ex_sync_chain :: "recovered_block list" where
  "ex_sync_chain = [mk_block 1 11 10, mk_block 2 12 11, mk_block 3 13 12]"

text \<open>Each poll is given the answers to the requests for one block.\<close>

definition serve_block :: "('p \<Rightarrow> bytes) \<Rightarrow> (b256 \<Rightarrow> 'p) \<Rightarrow> recovered_block \<Rightarrow> poll_answers" where
  "serve_block encode W b = no_answers\<lparr>
     full_answers := (\<lambda>_. no_polls)(hash b := no_polls\<lparr>header_polls := [Ready (Inr [clone_header b])],
                                                   body_polls := [Ready (Inr [body b])]\<rparr>),
     proof_answers := (\<lambda>_. no_polls)(hash b := no_polls\<lparr>proof_polls := [Ready (Inr (encode (W (hash b))))]\<rparr>)\<rparr>"

definition ex_sync_answers :: "poll_env list" where
  "ex_sync_answers = map (\<lambda>b. \<lparr>env_answers = serve_block ex_encode (\<lambda>_. 7) b, env_now = 5\<rparr>) (rev ex_sync_chain)"

lemma ex_served: "served_chain ex_lib ex_sync_fetch (set ex_universe) ex_recover ex_encode (\<lambda>_. 7) 10 ex_sync_chain"
proof -
  have "ex_recover (clone_sealed_block b) = Some b" if "b \<in> set ex_sync_chain" for b
    using that by (auto simp: ex_sync_chain_def ex_recover_def ex_universe_def)
  then show ?thesis
    by (auto simp: served_chain_def ex_sync_chain_def ex_universe_def servable_def good_block_def acceptable_def
        validate_block_def ex_lib_def ex_sync_fetch_def ex_fetch_def fits_number_def ex_encode_def)
qed


end
