(* ===== verification/Node_Sync.thy ===== *)
theory Node_Sync
  imports Node_Props Engine_Sync
begin

text \<open>
  How the node as a whole follows its peer: the requests for each block of an unknown chain go through
  the network manager to a peer, whose answers, made from its provider, bring the node to the head.
\<close>

section \<open>Peers that serve\<close>

text \<open>
  Steps in which the peers answer each request with what \<open>serves\<close> gives; no message arrives from the
  beacon client.
\<close>

inductive served_step ::
  "('p, 'x, 'e, 'a, 'i, 'f, 'l) tree_lib \<Rightarrow> 'p fetch_lib \<Rightarrow>
     (sealed_block \<Rightarrow> recovered_block option) \<Rightarrow> (peer_request \<Rightarrow> peer_answer option) \<Rightarrow>
     ('p, 'x, 'a, 'i, 'f, 'l) node \<Rightarrow> ('p, 'x, 'a, 'i, 'f, 'l) node \<Rightarrow> bool"
  for L :: "('p, 'x, 'e, 'a, 'i, 'f, 'l) tree_lib" and F rc serves where
  served_send: "t \<in> set (open_requests (downloader (consensus_engine s))) \<Longrightarrow>
    fst t \<notin> fst ` set (in_transit s) \<Longrightarrow> \<not> answered (waiting_answers s) (fst t) \<Longrightarrow>
    served_step L F rc serves s (node_send t s)"
| served_forward: "served_step L F rc serves s (node_forward closed new s)"
| served_answer: "q \<in> set (at_peers s) \<Longrightarrow>
    served_step L F rc serves s (node_answer q (serves (snd (snd q))) s)"
| served_poll: "node_poll L F rc now s = Some s' \<Longrightarrow> served_step L F rc serves s s'"

abbreviation served_run ::
  "('p, 'x, 'e, 'a, 'i, 'f, 'l) tree_lib \<Rightarrow> 'p fetch_lib \<Rightarrow>
     (sealed_block \<Rightarrow> recovered_block option) \<Rightarrow> (peer_request \<Rightarrow> peer_answer option) \<Rightarrow>
     ('p, 'x, 'a, 'i, 'f, 'l) node \<Rightarrow> ('p, 'x, 'a, 'i, 'f, 'l) node \<Rightarrow> bool" where
  "served_run L F rc serves \<equiv> (served_step L F rc serves)\<^sup>*\<^sup>*"

lemma served_node_step: "served_step L F rc serves s s' \<Longrightarrow> node_step L F rc s s'"
  by (induction rule: served_step.induct) (blast intro: node_step.intros)+

lemma served_node_run: "served_run L F rc serves s s' \<Longrightarrow> node_run L F rc s s'"
  by (rule rtranclp_mono [THEN predicate2D, rotated]) (auto intro: served_node_step)

text \<open>
  What the sub protocol makes of the provider of the peer: the handler of the protocol is library code,
  which answers a request for one header, one body or one proof with what the provider returns.
\<close>

definition protocol_laws ::
  "('p \<Rightarrow> bytes) \<Rightarrow> 'p provider \<Rightarrow> (peer_request \<Rightarrow> peer_answer option) \<Rightarrow> bool" where
  "protocol_laws encode peer serves \<longleftrightarrow>
     (\<forall>h x. protocol_header peer h = Inr (Some x) \<longrightarrow> serves (GetHeaders h 1) = Some (HeadersAnswer [x])) \<and>
     (\<forall>h x. protocol_block_body peer h = Inr (Some x) \<longrightarrow> serves (GetBlockBodies [h]) = Some (BodiesAnswer [x])) \<and>
     (\<forall>h x. protocol_proof encode peer h = Inr x \<longrightarrow> serves (GetProof h) = Some (ProofAnswer x))"

definition peer_has :: "'p provider \<Rightarrow> (b256 \<Rightarrow> 'p) \<Rightarrow> recovered_block \<Rightarrow> bool" where
  "peer_has peer W b \<longleftrightarrow> fmlookup (blocks_by_hash (chain_state_of peer)) (hash b) = Some b \<and>
     proof_of (chain_state_of peer) (hash b) = Some (W (hash b))"

lemma peer_serves:
  assumes "protocol_laws encode peer serves" and "peer_has peer W b"
  shows "serves (GetHeaders (hash b) 1) = Some (HeadersAnswer [clone_header b])"
    and "serves (GetBlockBodies [hash b]) = Some (BodiesAnswer [body b])"
    and "serves (GetProof (hash b)) = Some (ProofAnswer (encode (W (hash b))))"
proof -
  have "protocol_header peer (hash b) = Inr (Some (clone_header b))"
    "protocol_block_body peer (hash b) = Inr (Some (body b))"
    "protocol_proof encode peer (hash b) = Inr (encode (W (hash b)))"
    using assms(2)
    by (simp_all add: peer_has_def protocol_header_def protocol_block_body_def protocol_proof_def
        header_of_def block_body_def map_recovered_block_def)
  then show "serves (GetHeaders (hash b) 1) = Some (HeadersAnswer [clone_header b])"
    "serves (GetBlockBodies [hash b]) = Some (BodiesAnswer [body b])"
    "serves (GetProof (hash b)) = Some (ProofAnswer (encode (W (hash b))))"
    using assms(1) unfolding protocol_laws_def by blast+
qed

section \<open>One request\<close>

text \<open>With nothing in transit, an open request can be sent, forwarded to a peer and answered.\<close>

lemma serve_request:
  assumes ok: "node_ok L F rc spec s" and t: "in_transit s = []"
    and x: "(x, r) \<in> set (open_requests (downloader (consensus_engine s)))" "\<not> answered (waiting_answers s) x"
  shows "\<exists>s'. served_run L F rc serves s s' \<and> in_transit s' = [] \<and> consensus_engine s' = consensus_engine s \<and>
    node_messages s' = node_messages s \<and> waiting_answers s' = route_answer x (serves r) (waiting_answers s)"
proof -
  let ?c = "\<lparr>peer_id = 0, to_connection = 0\<rparr>"
  let ?s1 = "node_send (x, r) s"
  let ?s2 = "node_forward {} [?c] ?s1"
  have m: "sent (node_manager ?s1) = []" using node_okD(4) [OF ok] by simp
  have t1: "in_transit ?s1 = [(x, r)]" using t by (simp add: in_transit_def node_send_def)
  have one: "ts = [(x, r)]" if "mset ts = mset (in_transit ?s1)" for ts using that by (simp add: t1)
  have "map snd (at_peers ?s2) = [(x, r)]" by (rule one) (rule node_forward_delivers [OF m])
  moreover have "in_transit ?s2 = [(x, r)]" by (rule one) (rule node_forward_transit [OF m])
  ultimately obtain c where c: "at_peers ?s2 = [(c, x, r)]" "request_channel ?s2 = []" "pending_requests (node_manager ?s2) = []"
    by (auto simp: in_transit_def)
  let ?s3 = "node_answer (c, x, r) (serves r) ?s2"
  have "(c, x, r) \<in> set (at_peers ?s2)" unfolding c(1) by simp
  from served_answer [OF this, of L F rc serves] have "served_step L F rc serves ?s2 ?s3" by (simp only: snd_conv)
  moreover have "served_step L F rc serves s ?s1" using x t by (intro served_send) simp_all
  moreover have "served_step L F rc serves ?s1 ?s2" by (rule served_forward)
  ultimately have "served_run L F rc serves s ?s3" by (meson rtranclp.rtrancl_into_rtrancl rtranclp.rtrancl_refl)
  then show ?thesis using c by (intro exI [of _ ?s3]) (simp add: in_transit_def node_answer_def)
qed

section \<open>One block\<close>

definition node_idle :: "('p, 'x, 'a, 'i, 'f, 'l) node \<Rightarrow> bool" where
  "node_idle s \<longleftrightarrow> node_messages s = [] \<and> in_transit s = [] \<and> waiting_answers s = no_answers"

lemma no_answers_iff: "a = no_answers \<longleftrightarrow> (\<forall>x. \<not> answered a x)"
proof
  assume "\<forall>x. \<not> answered a x"
  then have "answers_to a x = no_polls" for x unfolding no_polls_iff answered_def by (metis fst_conv snd_conv)
  then have "full_answers a h = no_polls" "proof_answers a h = no_polls" "finalized_answers a h = no_polls" for h
    by (metis answers_to_simps(1), metis answers_to_simps(2), metis answers_to_simps(3))
  then show "a = no_answers" by (intro poll_answers.equality) (simp_all add: no_answers_def fun_eq_iff)
qed simp

text \<open>A downloader at rest has nothing open, so that nothing is in transit and no answer waits.\<close>

lemma rests_idle:
  assumes ok: "node_ok L F rc spec s" and rest: "rests (downloader (consensus_engine s))"
    and m: "node_messages s = []"
  shows "node_idle s"
proof -
  have none: "open_requests (downloader (consensus_engine s)) = []"
    using rest by (simp add: rests_def open_requests_def open_of_def)
  have "in_transit s = []" using node_okD(6) [OF ok] none by (metis empty_iff list.set(1) list.set_intros(1) neq_Nil_conv)
  moreover have "waiting_answers s = no_answers"
    using node_okD(8) [OF ok] none by (simp add: no_answers_iff answers_routed_def)
  ultimately show ?thesis using m by (simp add: node_idle_def)
qed

lemma awaits_open:
  assumes "awaits h d" and "x \<in> {((FullBlockTy, h), HeaderPart), ((FullBlockTy, h), BodyPart), ((ProofTy, h), ProofPart)}"
  shows "x \<in> fst ` set (open_requests d)"
  using assms by (fastforce simp: awaits_def in_image_fst in_open_requests in_open_of proof_requests_def)

lemma serve_part:
  assumes ok: "node_ok L F rc spec s" and t: "in_transit s = []" and a: "awaits h (downloader (consensus_engine s))"
    and x: "x \<in> {((FullBlockTy, h), HeaderPart), ((FullBlockTy, h), BodyPart), ((ProofTy, h), ProofPart)}"
    "\<not> answered (waiting_answers s) x" and r: "\<And>r'. asks_for x r' \<Longrightarrow> r' = r"
  shows "\<exists>s'. served_run L F rc serves s s' \<and> in_transit s' = [] \<and> consensus_engine s' = consensus_engine s \<and>
    node_messages s' = node_messages s \<and> waiting_answers s' = route_answer x (serves r) (waiting_answers s)"
proof -
  obtain r' where r': "(x, r') \<in> set (open_requests (downloader (consensus_engine s)))"
    using awaits_open [OF a x(1)] by auto
  then have "r' = r" using r open_request_asks [OF node_okD(2) [OF ok]] by blast
  then show ?thesis using serve_request [OF ok t r' x(2)] by blast
qed

text \<open>The last answer of the three makes the next poll read the block and its proof.\<close>

lemma serve_block_parts:
  assumes env: "engine_env L keys ents rk U rc" and g: "genesis_block spec \<in> U"
    and ok: "node_ok L F rc spec s" and idle: "node_idle s" and a: "awaits (hash b) (downloader (consensus_engine s))"
    and laws: "protocol_laws encode peer serves" and has: "peer_has peer W b"
  shows "\<exists>s'. served_run L F rc serves s s' \<and> in_transit s' = [] \<and> consensus_engine s' = consensus_engine s \<and>
    node_messages s' = [] \<and> serves_block encode W b (waiting_answers s')"
proof -
  let ?h = "hash b"
  let ?x = "((FullBlockTy, ?h), HeaderPart)" and ?y = "((FullBlockTy, ?h), BodyPart)" and ?z = "((ProofTy, ?h), ProofPart)"
  note idle = idle [unfolded node_idle_def]
  obtain s1 where s1: "served_run L F rc serves s s1" "in_transit s1 = []" "consensus_engine s1 = consensus_engine s"
    "node_messages s1 = []" "waiting_answers s1 = route_answer ?x (serves (GetHeaders ?h 1)) no_answers"
    using serve_part [OF ok _ a, of ?x "GetHeaders ?h 1" serves] idle by (auto simp: asks_for_def)
  note ok1 = node_run_ok [OF env g served_node_run [OF s1(1)] ok]
  obtain s2 where s2: "served_run L F rc serves s1 s2" "in_transit s2 = []" "consensus_engine s2 = consensus_engine s"
    "node_messages s2 = []" "waiting_answers s2 = route_answer ?y (serves (GetBlockBodies [?h])) (waiting_answers s1)"
    using serve_part [OF ok1 s1(2), of ?h ?y "GetBlockBodies [?h]" serves] a s1(3-5)
    by (auto simp: asks_for_def answered_route)
  note ok2 = node_run_ok [OF env g served_node_run [OF s2(1)] ok1]
  obtain s3 where s3: "served_run L F rc serves s2 s3" "in_transit s3 = []" "consensus_engine s3 = consensus_engine s"
    "node_messages s3 = []" "waiting_answers s3 = route_answer ?z (serves (GetProof ?h)) (waiting_answers s2)"
    using serve_part [OF ok2 s2(2), of ?h ?z "GetProof ?h" serves] a s1(5) s2(3-5)
    by (auto simp: asks_for_def answered_route)
  have "serves_block encode W b (waiting_answers s3)"
    by (simp add: s1(5) s2(5) s3(5) peer_serves [OF laws has] serves_block_def route_answer_def push_answer_def
        fetch_result_def no_answers_def no_polls_def)
  then show ?thesis using s1(1) s2(1) s3 by (meson rtranclp_trans)
qed

lemma serve_stage:
  assumes env: "engine_env L keys ents rk U rc" and num: "numbers_checked L nm U" and g: "genesis_block spec \<in> U"
    and chain: "served_chain L F U rc encode W a (bs @ b # ds)" "length (bs @ b # ds) \<le> n"
      "head_block_hash st = hash (last (bs @ b # ds))"
    and laws: "protocol_laws encode peer serves" and has: "peer_has peer W b"
    and ok: "node_ok L F rc spec s" and idle: "node_idle s"
    and stage: "sync_stage L keys ents rk U nm a st n W (bs @ [b]) ds (consensus_engine s)"
  shows "\<exists>s'. served_run L F rc serves s s' \<and> node_ok L F rc spec s' \<and> node_idle s' \<and>
    sync_stage L keys ents rk U nm a st n W bs (b # ds) (consensus_engine s') \<and>
    responses (consensus_engine s') = responses (consensus_engine s)"
proof -
  have tenv: "tree_env L keys ents rk U" using env by (simp add: engine_env_def)
  have "awaits (hash b) (downloader (consensus_engine s))" using stage by (simp add: sync_stage_def sync_waits_def)
  then obtain s1 where s1: "served_run L F rc serves s s1" "in_transit s1 = []"
    "consensus_engine s1 = consensus_engine s" "node_messages s1 = []" "serves_block encode W b (waiting_answers s1)"
    using serve_block_parts [OF env g ok idle _ laws has] by blast
  let ?pe = "\<lparr>env_answers = waiting_answers s1, env_now = 0\<rparr>"
  have pe: "serves_block encode W b (env_answers ?pe)" using s1(5) by simp
  obtain e where e: "poll_engine L F rc 0 [?pe] [] (consensus_engine s) = Some (Pending, [], e)"
    "sync_stage L keys ents rk U nm a st n W bs (b # ds) e" "responses e = responses (consensus_engine s)"
    using poll_served_stage [OF tenv num chain stage pe] by blast
  let ?s2 = "s1\<lparr>consensus_engine := e, node_messages := [], waiting_answers := no_answers\<rparr>"
  have "node_poll L F rc 0 s1 = Some ?s2" using e(1) s1(3,4) by (simp add: node_poll_def)
  then have "served_run L F rc serves s ?s2" by (rule rtranclp.rtrancl_into_rtrancl [OF s1(1) served_poll])
  moreover have "node_idle ?s2" using s1(2) by (simp add: node_idle_def in_transit_def)
  ultimately show ?thesis
    using node_run_ok [OF env g served_node_run ok] e(2,3) by (intro exI [of _ ?s2]) simp
qed

section \<open>The whole chain\<close>

lemma poll_engine_no_env: "poll_engine L F rc now [quiet_env now] = poll_engine L F rc now []"
  by (intro ext, subst (1 2) poll_engine.simps) (simp add: env_hd_def quiet_env_def cong: option.case_cong)

lemma serve_chain:
  assumes env: "engine_env L keys ents rk U rc" and num: "numbers_checked L nm U" and g: "genesis_block spec \<in> U"
    and laws: "protocol_laws encode peer serves"
  shows "served_chain L F U rc encode W a (bs @ ds) \<Longrightarrow> length (bs @ ds) \<le> n \<Longrightarrow>
    head_block_hash st = hash (last (bs @ ds)) \<Longrightarrow> \<forall>b \<in> set bs. peer_has peer W b \<Longrightarrow>
    node_ok L F rc spec s \<Longrightarrow> node_idle s \<Longrightarrow>
    sync_stage L keys ents rk U nm a st n W bs ds (consensus_engine s) \<Longrightarrow>
    \<exists>s'. served_run L F rc serves s s' \<and>
      sync_stage L keys ents rk U nm a st n W [] (bs @ ds) (consensus_engine s') \<and>
      responses (consensus_engine s') = responses (consensus_engine s)"
proof (induction bs arbitrary: ds s rule: rev_induct)
  case (snoc b bs)
  have c: "served_chain L F U rc encode W a (bs @ b # ds)" "length (bs @ b # ds) \<le> n"
    "head_block_hash st = hash (last (bs @ b # ds))" and has: "peer_has peer W b" "\<forall>b \<in> set bs. peer_has peer W b"
    using snoc.prems(1-4) by simp_all
  obtain s1 where s1: "served_run L F rc serves s s1" "node_ok L F rc spec s1" "node_idle s1"
    "sync_stage L keys ents rk U nm a st n W bs (b # ds) (consensus_engine s1)"
    "responses (consensus_engine s1) = responses (consensus_engine s)"
    using serve_stage [OF env num g c laws has(1) snoc.prems(5-7)] by blast
  obtain s2 where "served_run L F rc serves s1 s2"
    "sync_stage L keys ents rk U nm a st n W [] (bs @ b # ds) (consensus_engine s2)"
    "responses (consensus_engine s2) = responses (consensus_engine s1)"
    using snoc.IH [OF c has(2) s1(2-4)] by blast
  then show ?case using s1(1,5) by (auto intro: rtranclp_trans)
qed auto

section \<open>Properties\<close>


section \<open>A concrete peer\<close>

text \<open>A handler of the protocol that answers requests for one item, and a peer that stores the chain.\<close>

definition handle_request :: "('p \<Rightarrow> bytes) \<Rightarrow> 'p provider \<Rightarrow> peer_request \<Rightarrow> peer_answer option" where
  "handle_request encode peer r =
     (case r of
        GetHeaders h n \<Rightarrow> (case protocol_header peer h of Inr (Some x) \<Rightarrow> Some (HeadersAnswer [x]) | _ \<Rightarrow> None)
      | GetBlockBodies hs \<Rightarrow>
          (case protocol_block_body peer (hd hs) of Inr (Some x) \<Rightarrow> Some (BodiesAnswer [x]) | _ \<Rightarrow> None)
      | GetProof h \<Rightarrow> served_proof encode peer h)"

lemma handle_request_laws: "protocol_laws encode peer (handle_request encode peer)"
  by (simp add: protocol_laws_def handle_request_def served_proof_def)

definition ex_sync_peer :: "nat provider" where
  "ex_sync_peer = foldl (\<lambda>peer b. provider_insert_block b (Some 7) peer) (launch_provider ex_spec) ex_sync_chain"

lemma ex_sync_peer_has: "\<forall>b \<in> set ex_sync_chain. peer_has ex_sync_peer (\<lambda>_. 7) b"
proof -
  have "list_all (\<lambda>b. fmlookup (blocks_by_hash (chain_state_of ex_sync_peer)) (hash b) = Some b \<and>
      proof_of (chain_state_of ex_sync_peer) (hash b) = Some 7) ex_sync_chain" by code_simp
  then show ?thesis by (simp add: list_all_iff peer_has_def)
qed


end
