(* ===== verification/Buffer_Tests.thy ===== *)
theory Buffer_Tests
  imports Buffer_Contents
begin

text \<open>
  The unit tests of \<open>block_buffer.rs\<close>: what each of them builds and asserts, as a function of the random
  blocks and hashes it draws, and that all pass whatever is drawn, for every LRU and every order of
  iteration the libraries may have.
\<close>

section \<open>The helpers\<close>

text \<open>A random block with the number and the parent that are asked for; its hash is random as well.\<close>

definition create_block :: "recovered_block \<Rightarrow> u64 \<Rightarrow> b256 \<Rightarrow> recovered_block" where
  "create_block random_block n parent = random_block\<lparr>number := n, parent_hash := parent\<rparr>"

definition insert_block_with_proof ::
  "'l buffer_lib \<Rightarrow> 'p \<Rightarrow> recovered_block \<Rightarrow> ('p, 'l) block_buffer \<Rightarrow> ('p, 'l) block_buffer" where
  "insert_block_with_proof L dflt block buffer =
     (let buffer = insert_proof (hash block) dflt buffer
      in insert_block L block buffer)"

text \<open>The sum of the lengths of the sets in a map.\<close>

definition total_length :: "('k, b256 fset) fmap \<Rightarrow> nat" where
  "total_length m = (\<Sum>k \<in> fset (fmdom m). fcard (values_at m k))"

definition assert_buffer_lengths :: "'l buffer_lib \<Rightarrow> ('p, 'l) block_buffer \<Rightarrow> nat \<Rightarrow> bool" where
  "assert_buffer_lengths L buffer expected \<longleftrightarrow>
     fcard (fmdom (blocks buffer)) = expected \<and>
     lru_len L (lru buffer) = expected \<and>
     total_length (parent_to_child buffer) = expected \<and>
     total_length (earliest_blocks buffer) = expected"

definition assert_block_removal :: "('p, 'l) block_buffer \<Rightarrow> recovered_block \<Rightarrow> bool" where
  "assert_block_removal buffer block \<longleftrightarrow>
     fmlookup (blocks buffer) (hash block) = None \<and>
     hash block |\<notin>| values_at (parent_to_child buffer) (parent_hash block) \<and>
     hash block |\<notin>| values_at (earliest_blocks buffer) (number block)"

section \<open>The tests\<close>

text \<open>The proof that is inserted with a block is \<open>dflt\<close>; the random draws are arguments.\<close>

definition simple_insertion :: "'l buffer_lib \<Rightarrow> 'p \<Rightarrow> b256 \<Rightarrow> recovered_block \<Rightarrow> bool" where
  "simple_insertion L dflt parent r1 =
     (let block1 = create_block r1 10 parent;
          buffer = (buffer_new L 3 :: ('p, 'l) block_buffer);
          buffer = insert_block L block1 buffer
      in assert_buffer_lengths L buffer 1 \<and> fmlookup (blocks buffer) (hash block1) = Some block1)"

definition take_entire_chain_of_children ::
  "'l buffer_lib \<Rightarrow> 'p \<Rightarrow> b256 \<Rightarrow> b256 \<Rightarrow> recovered_block \<Rightarrow> recovered_block \<Rightarrow> recovered_block \<Rightarrow>
     recovered_block \<Rightarrow> bool" where
  "take_entire_chain_of_children L dflt main_parent_hash parent4 r1 r2 r3 r4 =
     (let block1 = create_block r1 10 main_parent_hash;
          block2 = create_block r2 11 (hash block1);
          block3 = create_block r3 12 (hash block2);
          block4 = create_block r4 14 parent4;
          buffer = buffer_new L 5;
          buffer = insert_block_with_proof L dflt block1 buffer;
          buffer = insert_block_with_proof L dflt block2 buffer;
          buffer = insert_block_with_proof L dflt block3 buffer;
          buffer = insert_block_with_proof L dflt block4 buffer;
          (removed, buffer') = remove_block_with_children L main_parent_hash buffer
      in assert_buffer_lengths L buffer 4 \<and>
         fmlookup (blocks buffer) (hash block4) = Some block4 \<and>
         fmlookup (blocks buffer) (hash block2) = Some block2 \<and>
         fmlookup (blocks buffer) main_parent_hash = None \<and>
         lowest_ancestor buffer (hash block4) = Some (Some block4) \<and>
         lowest_ancestor buffer (hash block3) = Some (Some block1) \<and>
         lowest_ancestor buffer (hash block1) = Some (Some block1) \<and>
         removed = map (\<lambda>b. (b, dflt)) [block1, block2, block3] \<and>
         assert_buffer_lengths L buffer' 1)"

definition removed_blocks :: "(recovered_block \<times> 'p) list \<Rightarrow> (b256, recovered_block) fmap" where
  "removed_blocks removed = fmap_of_list (map (\<lambda>(b, _). (hash b, b)) removed)"

definition take_all_multi_level_children ::
  "'l buffer_lib \<Rightarrow> 'p \<Rightarrow> b256 \<Rightarrow> recovered_block \<Rightarrow> recovered_block \<Rightarrow> recovered_block \<Rightarrow>
     recovered_block \<Rightarrow> bool" where
  "take_all_multi_level_children L dflt main_parent_hash r1 r2 r3 r4 =
     (let block1 = create_block r1 10 main_parent_hash;
          block2 = create_block r2 11 (hash block1);
          block3 = create_block r3 11 (hash block1);
          block4 = create_block r4 12 (hash block2);
          buffer = buffer_new L 5;
          buffer = insert_block_with_proof L dflt block1 buffer;
          buffer = insert_block_with_proof L dflt block2 buffer;
          buffer = insert_block_with_proof L dflt block3 buffer;
          buffer = insert_block_with_proof L dflt block4 buffer;
          (removed, buffer') = remove_block_with_children L main_parent_hash buffer
      in assert_buffer_lengths L buffer 4 \<and>
         removed_blocks removed = fmap_of_list
           [(hash block1, block1), (hash block2, block2), (hash block3, block3), (hash block4, block4)] \<and>
         assert_buffer_lengths L buffer' 0)"

definition take_block_with_children ::
  "'l buffer_lib \<Rightarrow> 'p \<Rightarrow> b256 \<Rightarrow> recovered_block \<Rightarrow> recovered_block \<Rightarrow> recovered_block \<Rightarrow>
     recovered_block \<Rightarrow> bool" where
  "take_block_with_children L dflt main_parent r1 r2 r3 r4 =
     (let block1 = create_block r1 10 main_parent;
          block2 = create_block r2 11 (hash block1);
          block3 = create_block r3 11 (hash block1);
          block4 = create_block r4 12 (hash block2);
          buffer = buffer_new L 5;
          buffer = insert_block_with_proof L dflt block1 buffer;
          buffer = insert_block_with_proof L dflt block2 buffer;
          buffer = insert_block_with_proof L dflt block3 buffer;
          buffer = insert_block_with_proof L dflt block4 buffer;
          (removed, buffer') = remove_block_with_children L (hash block1) buffer
      in assert_buffer_lengths L buffer 4 \<and>
         removed_blocks removed = fmap_of_list
           [(hash block1, block1), (hash block2, block2), (hash block3, block3), (hash block4, block4)] \<and>
         assert_buffer_lengths L buffer' 0)"

definition remove_chain_of_children ::
  "'l buffer_lib \<Rightarrow> 'p \<Rightarrow> b256 \<Rightarrow> b256 \<Rightarrow> recovered_block \<Rightarrow> recovered_block \<Rightarrow> recovered_block \<Rightarrow>
     recovered_block \<Rightarrow> bool" where
  "remove_chain_of_children L dflt main_parent parent4 r1 r2 r3 r4 =
     (let block1 = create_block r1 10 main_parent;
          block2 = create_block r2 11 (hash block1);
          block3 = create_block r3 12 (hash block2);
          block4 = create_block r4 14 parent4;
          buffer = (buffer_new L 5 :: ('p, 'l) block_buffer);
          buffer = insert_block L block1 buffer;
          buffer = insert_block L block2 buffer;
          buffer = insert_block L block3 buffer;
          buffer = insert_block L block4 buffer;
          buffer' = evict_old_blocks L (number block1) buffer
      in assert_buffer_lengths L buffer 4 \<and> assert_buffer_lengths L buffer' 1)"

definition remove_all_multi_level_children ::
  "'l buffer_lib \<Rightarrow> 'p \<Rightarrow> b256 \<Rightarrow> recovered_block \<Rightarrow> recovered_block \<Rightarrow> recovered_block \<Rightarrow>
     recovered_block \<Rightarrow> bool" where
  "remove_all_multi_level_children L dflt main_parent r1 r2 r3 r4 =
     (let block1 = create_block r1 10 main_parent;
          block2 = create_block r2 11 (hash block1);
          block3 = create_block r3 11 (hash block1);
          block4 = create_block r4 12 (hash block2);
          buffer = (buffer_new L 5 :: ('p, 'l) block_buffer);
          buffer = insert_block L block1 buffer;
          buffer = insert_block L block2 buffer;
          buffer = insert_block L block3 buffer;
          buffer = insert_block L block4 buffer;
          buffer' = evict_old_blocks L (number block1) buffer
      in assert_buffer_lengths L buffer 4 \<and> assert_buffer_lengths L buffer' 0)"

definition remove_multi_chains ::
  "'l buffer_lib \<Rightarrow> 'p \<Rightarrow> b256 \<Rightarrow> b256 \<Rightarrow> b256 \<Rightarrow> b256 \<Rightarrow> recovered_block \<Rightarrow> recovered_block \<Rightarrow>
     recovered_block \<Rightarrow> recovered_block \<Rightarrow> recovered_block \<Rightarrow> recovered_block \<Rightarrow> recovered_block \<Rightarrow> bool" where
  "remove_multi_chains L dflt main_parent random_parent1 random_parent2 random_parent3
       r1 r1a r2 r2a rb1 rb2 rb3 =
     (let block1 = create_block r1 10 main_parent;
          block1a = create_block r1a 10 main_parent;
          block2 = create_block r2 11 (hash block1);
          block2a = create_block r2a 11 (hash block1);
          random_block1 = create_block rb1 10 random_parent1;
          random_block2 = create_block rb2 11 random_parent2;
          random_block3 = create_block rb3 12 random_parent3;
          buffer = (buffer_new L 10 :: ('p, 'l) block_buffer);
          buffer = insert_block L block1 buffer;
          buffer = insert_block L block1a buffer;
          buffer = insert_block L block2 buffer;
          buffer = insert_block L block2a buffer;
          buffer = insert_block L random_block1 buffer;
          buffer = insert_block L random_block2 buffer;
          buffer = insert_block L random_block3 buffer;
          buffer' = evict_old_blocks L 10 buffer
      in lowest_ancestor buffer (hash random_block1) = Some (Some random_block1) \<and>
         lowest_ancestor buffer (hash random_block2) = Some (Some random_block2) \<and>
         lowest_ancestor buffer (hash random_block3) = Some (Some random_block3) \<and>
         lowest_ancestor buffer (hash block2a) = Some (Some block1) \<and>
         lowest_ancestor buffer (hash block2) = Some (Some block1) \<and>
         lowest_ancestor buffer (hash block1a) = Some (Some block1a) \<and>
         lowest_ancestor buffer (hash block1) = Some (Some block1) \<and>
         assert_buffer_lengths L buffer 7 \<and> assert_buffer_lengths L buffer' 2)"

definition evict_with_gap ::
  "'l buffer_lib \<Rightarrow> 'p \<Rightarrow> b256 \<Rightarrow> b256 \<Rightarrow> recovered_block \<Rightarrow> recovered_block \<Rightarrow> recovered_block \<Rightarrow>
     recovered_block \<Rightarrow> bool" where
  "evict_with_gap L dflt main_parent parent4 r1 r2 r3 r4 =
     (let block1 = create_block r1 10 main_parent;
          block2 = create_block r2 11 (hash block1);
          block3 = create_block r3 12 (hash block2);
          block4 = create_block r4 13 parent4;
          buffer = (buffer_new L 3 :: ('p, 'l) block_buffer);
          buffer = insert_block L block1 buffer;
          buffer = insert_block L block2 buffer;
          buffer = insert_block L block3 buffer;
          buffer' = insert_block L block4 buffer
      in lowest_ancestor buffer (hash block3) = Some (Some block1) \<and>
         lowest_ancestor buffer (hash block2) = Some (Some block1) \<and>
         lowest_ancestor buffer (hash block1) = Some (Some block1) \<and>
         lowest_ancestor buffer' (hash block4) = Some (Some block4) \<and>
         assert_block_removal buffer' block1 \<and>
         lowest_ancestor buffer' (hash block3) = Some (Some block2) \<and>
         lowest_ancestor buffer' (hash block2) = Some (Some block2) \<and>
         lowest_ancestor buffer' (hash block1) = Some None \<and>
         assert_buffer_lengths L buffer' 3)"

definition simple_eviction ::
  "'l buffer_lib \<Rightarrow> 'p \<Rightarrow> b256 \<Rightarrow> b256 \<Rightarrow> recovered_block \<Rightarrow> recovered_block \<Rightarrow> recovered_block \<Rightarrow>
     recovered_block \<Rightarrow> bool" where
  "simple_eviction L dflt main_parent parent4 r1 r2 r3 r4 =
     (let block1 = create_block r1 10 main_parent;
          block2 = create_block r2 11 (hash block1);
          block3 = create_block r3 12 (hash block2);
          block4 = create_block r4 13 parent4;
          buffer = (buffer_new L 3 :: ('p, 'l) block_buffer);
          buffer = insert_block L block1 buffer;
          buffer = insert_block L block2 buffer;
          buffer = insert_block L block3 buffer;
          buffer = insert_block L block4 buffer
      in assert_block_removal buffer block1 \<and> assert_buffer_lengths L buffer 3)"

section \<open>What the assertions say of a buffer\<close>

lemma create_block_sel [simp]:
  "hash (create_block r n p) = hash r" "number (create_block r n p) = n" "parent_hash (create_block r n p) = p"
  by (simp_all add: create_block_def)

lemma total_length_links:
  fixes m :: "('k, b256 fset) fmap"
  assumes links: "\<And>x k. x |\<in>| values_at m k \<longleftrightarrow> (\<exists>b \<in> set bs. hash b = x \<and> f b = k)" and d: "distinct (map hash bs)"
  shows "total_length m = length bs"
proof -
  have "(SIGMA k : fset (fmdom m). fset (values_at m k)) = (\<lambda>b. (f b, hash b)) ` set bs"
  proof (rule set_eqI)
    fix p :: "'k \<times> b256"
    obtain k x where p: "p = (k, x)" by (cases p)
    have "x |\<in>| values_at m k \<Longrightarrow> k |\<in>| fmdom m"
      by (auto simp: values_at_def fmdomI split: option.splits)
    then show "p \<in> (SIGMA k : fset (fmdom m). fset (values_at m k)) \<longleftrightarrow> p \<in> (\<lambda>b. (f b, hash b)) ` set bs"
      using links [of x k] unfolding p by auto
  qed
  moreover have "inj_on (\<lambda>b. (f b, hash b)) (set bs)" using d by (auto simp: distinct_map inj_on_def)
  moreover have "card (set bs) = length bs" using d by (simp add: distinct_map distinct_card)
  ultimately show ?thesis
    unfolding total_length_def fcard.rep_eq by (simp add: card_image flip: card_SigmaI)
qed

lemma holds_lengths:
  assumes laws: "buffer_lib_laws L keys" and inv: "buffer_inv L keys (\<lambda>_. True) buf"
    and h: "holds L n W bs ps buf" and d: "distinct (map hash bs)"
  shows "assert_buffer_lengths L buf (length bs)"
proof -
  have look: "fmlookup (blocks buf) (hash b) = Some b" if "b \<in> set bs" for b
    using h that map_of_hash_Some [OF d that, of "\<lambda>c. c"] by (simp add: holds_def)
  have "fset (fmdom (blocks buf)) = hash ` set bs"
    using holds_lookup(1) [OF h] by (auto simp: fmlookup_dom_iff) (metis option.distinct(1))+
  then have "fcard (fmdom (blocks buf)) = length bs"
    using distinct_card [OF d] by (simp add: fcard.rep_eq)
  moreover have "lru_len L (lru buf) = length bs"
    using holds_room [OF laws inv h d] laws by (simp add: buffer_lib_laws_def)
  moreover have "total_length (parent_to_child buf) = length bs"
    by (rule total_length_links [OF _ d]) (rule holds_kids [OF inv h])
  moreover have "total_length (earliest_blocks buf) = length bs"
  proof (rule total_length_links [OF _ d, of _ number])
    fix x k
    show "x |\<in>| values_at (earliest_blocks buf) k \<longleftrightarrow> (\<exists>b \<in> set bs. hash b = x \<and> number b = k)"
      unfolding buffer_inv_earliest [OF inv] using look holds_lookup(3) [OF h] by blast
  qed
  ultimately show ?thesis by (simp add: assert_buffer_lengths_def)
qed

section \<open>Filling a buffer\<close>

text \<open>What a buffer holds after insertions, with the newest block first, as in the LRU.\<close>

definition filled ::
  "'l buffer_lib \<Rightarrow> ('l \<Rightarrow> b256 list) \<Rightarrow> nat \<Rightarrow> 'p \<Rightarrow> recovered_block list \<Rightarrow> recovered_block list \<Rightarrow>
     ('p, 'l) block_buffer \<Rightarrow> bool" where
  "filled L keys n dflt bs ps buf \<longleftrightarrow> holds L n (\<lambda>_. dflt) bs ps buf \<and>
     buffer_inv L keys (\<lambda>_. True) buf \<and> keys (lru buf) = rev (map hash bs)"

lemma filledD:
  assumes "filled L keys n dflt bs ps buf"
  shows "holds L n (\<lambda>_. dflt) bs ps buf" "buffer_inv L keys (\<lambda>_. True) buf" "keys (lru buf) = rev (map hash bs)"
    "fmlookup (blocks buf) = map_of (map (\<lambda>b. (hash b, b)) bs)"
  using assms by (simp_all add: filled_def holds_def)

lemma filled_new: "buffer_lib_laws L keys \<Longrightarrow> filled L keys (unat k) dflt [] [] (buffer_new L k)"
  by (simp add: filled_def buffer_lib_laws_def holds_def buffer_new_def buffer_inv_def links_inv_def fun_eq_iff)

lemma filled_insert:
  assumes laws: "buffer_lib_laws L keys" and f: "filled L keys n dflt bs ps buf"
    and d: "distinct (map hash (b # bs))" and room: "length bs < n"
  shows "filled L keys n dflt (b # bs) ps (insert_block L b buf)"
proof -
  note h = filledD(1) [OF f] and inv = filledD(2) [OF f] and k = filledD(3) [OF f]
  have new: "fmlookup (blocks buf) (hash b) = None" using holds_lookup(1) [OF h] d by simp
  have lim: "unat (lru_max_length L (lru buf)) = n" using h by (simp add: holds_def)
  have "0 < lru_max_length L (lru buf)" using lim room by (simp add: word_less_nat_alt)
  note spec = buffer_insert_block_spec [OF laws inv this, of b]
  have v: "victim L keys (hash b) buf = None" using k lim room by (simp add: victim_def)
  have "filter (\<lambda>x. x \<noteq> hash b) (rev (map hash bs)) = rev (map hash bs)"
    using d by (auto simp: filter_id_conv image_iff)
  then show ?thesis
    using holds_insert [OF laws inv h _ _ room, of b] spec new v k d
    by (simp add: filled_def agrees_with_def)
qed

lemma filled_insert_proof:
  "filled L keys n dflt bs ps buf \<Longrightarrow> filled L keys n dflt bs (b # ps) (insert_proof (hash b) dflt buf)"
  using holds_insert_proof [of L n "\<lambda>_. dflt" bs ps buf b]
  by (auto simp: filled_def insert_proof_def buffer_inv_def links_inv_def)

lemma filled_blocks:
  assumes laws: "buffer_lib_laws L keys"
  shows "distinct (map hash cs) \<Longrightarrow> length cs \<le> unat k \<Longrightarrow>
    filled L keys (unat k) dflt (rev cs) [] (fold (insert_block L) cs (buffer_new L k))"
proof (induction cs rule: rev_induct)
  case (snoc c cs)
  have "distinct (map hash (c # rev cs))" using snoc.prems(1) by (simp add: rev_map [symmetric])
  then show ?case using filled_insert [OF laws snoc.IH, of c] snoc.prems by simp
qed (simp add: filled_new [OF laws])

lemma filled_blocks_proofs:
  assumes laws: "buffer_lib_laws L keys"
  shows "distinct (map hash cs) \<Longrightarrow> length cs \<le> unat k \<Longrightarrow>
    filled L keys (unat k) dflt (rev cs) (rev cs) (fold (insert_block_with_proof L dflt) cs (buffer_new L k))"
proof (induction cs rule: rev_induct)
  case (snoc c cs)
  have "distinct (map hash (c # rev cs))" using snoc.prems(1) by (simp add: rev_map [symmetric])
  then show ?case
    using filled_insert [OF laws filled_insert_proof [OF snoc.IH], of c c] snoc.prems
    by (simp add: insert_block_with_proof_def)
qed (simp add: filled_new [OF laws])

text \<open>A full buffer gives up the oldest block.\<close>

lemma filled_evict:
  assumes laws: "buffer_lib_laws L keys" and f: "filled L keys n dflt (bs @ [a]) [] buf"
    and d: "distinct (map hash (b # bs @ [a]))" and full: "length bs + 1 = n"
  shows "filled L keys n dflt (b # bs) [] (insert_block L b buf)"
proof -
  note h = filledD(1) [OF f] and inv = filledD(2) [OF f] and k = filledD(3) [OF f]
  have new: "fmlookup (blocks buf) (hash b) = None" using holds_lookup(1) [OF h] d by auto
  then have ag: "agrees_with b buf" by (simp add: agrees_with_def)
  have lim: "unat (lru_max_length L (lru buf)) = n" using h by (simp add: holds_def)
  have pos: "0 < lru_max_length L (lru buf)" using lim full by (simp add: word_less_nat_alt)
  note spec = buffer_insert_block_spec [OF laws inv pos ag]
  have v: "victim L keys (hash b) buf = Some (hash a)" using k lim full d by (auto simp: victim_def)
  have "filter (\<lambda>x. x \<noteq> hash b \<and> hash a \<noteq> x) (hash a # rev (map hash bs)) = rev (map hash bs)"
    using d by (auto simp: filter_id_conv image_iff)
  then have "keys (lru (insert_block L b buf)) = rev (map hash (b # bs))" using spec v k by simp
  moreover have "fmlookup (blocks (insert_block L b buf)) = map_of (map (\<lambda>b. (hash b, b)) (b # bs))"
  proof
    fix x
    have "fmlookup (blocks buf) x = map_of (map (\<lambda>b. (hash b, b)) (bs @ [a])) x" using filledD(4) [OF f] by simp
    moreover have "map_of (map (\<lambda>b. (hash b, b)) bs) (hash a) = None" using d by (auto simp: map_of_hash)
    ultimately show "fmlookup (blocks (insert_block L b buf)) x = map_of (map (\<lambda>b. (hash b, b)) (b # bs)) x"
      using spec v d by (auto simp: map_add_def split: option.splits)
  qed
  moreover have "buffered_proofs (insert_block L b buf) = fmempty"
  proof -
    have "buffered_proofs buf = fmempty" using h by (auto simp: holds_def intro: fmap_ext)
    then show ?thesis
      using buffer_insert_block_eq [OF laws inv pos ag] v by (auto simp: evict_block_proofs add_block_def)
  qed
  moreover have "hash c |\<in>| kids (insert_block L b buf) (parent_hash c)" if "c \<in> set (b # bs)" for c
  proof -
    have "hash c \<noteq> hash a" using that d by (auto simp: image_iff)
    moreover have "c \<noteq> b \<Longrightarrow> hash c |\<in>| kids buf (parent_hash c)" using that h by (auto simp: holds_def)
    ultimately show ?thesis unfolding buffer_insert_block_kids [OF laws inv pos ag] v by auto
  qed
  ultimately show ?thesis using spec lim by (simp add: filled_def holds_def fun_eq_iff)
qed

section \<open>Order and rank\<close>

lemma oldest_first_snoc:
  "oldest_first (cs @ [b]) \<longleftrightarrow> oldest_first cs \<and> (\<forall>c \<in> set (cs @ [b]). parent_hash c \<noteq> hash b)"
  by (induction cs) auto

lemma oldest_first_ranked:
  "oldest_first cs \<Longrightarrow> distinct (map hash cs) \<Longrightarrow> \<exists>rk. \<forall>c \<in> set cs. hash_ranked rk c"
proof (induction cs rule: rev_induct)
  case (snoc b cs)
  then obtain rk where rk: "\<forall>c \<in> set cs. hash_ranked rk c" by (auto simp: oldest_first_snoc)
  let ?rk = "rk(hash b := Suc (rk (parent_hash b)))"
  have "hash_ranked ?rk c" if "c \<in> set (cs @ [b])" for c
  proof -
    have "parent_hash c \<noteq> hash b" using snoc.prems(1) that unfolding oldest_first_snoc by blast
    moreover have "c \<noteq> b \<Longrightarrow> hash c \<noteq> hash b" using snoc.prems(2) that by (auto simp: image_iff)
    moreover have "c \<noteq> b \<Longrightarrow> rk (parent_hash c) < rk (hash c)" using rk that by (auto simp: hash_ranked_def)
    ultimately show ?thesis by (cases "c = b") (simp_all add: hash_ranked_def)
  qed
  then show ?case by blast
qed simp

section \<open>The tests pass\<close>

lemma filled_lengths:
  "buffer_lib_laws L keys \<Longrightarrow> filled L keys n dflt bs ps buf \<Longrightarrow> distinct (map hash bs) \<Longrightarrow> length bs = k \<Longrightarrow>
     assert_buffer_lengths L buf k"
  using holds_lengths filledD(1,2) by metis

lemma filled_evict_old:
  assumes laws: "buffer_lib_laws L keys" and f: "filled L keys n dflt bs ps buf"
    and bs: "distinct (map hash bs)" "oldest_first (rev bs)"
    and k: "length (filter (\<lambda>b. hash b \<notin> old_family m bs) bs) = k"
  shows "assert_buffer_lengths L (evict_old_blocks L m buf) k"
proof -
  note e = holds_evict_old [OF laws filledD(2,1) [OF f] bs, of m]
  have "distinct (map hash (filter (\<lambda>b. hash b \<notin> old_family m bs) bs))" using bs(1) by (rule distinct_map_filter)
  from holds_lengths [OF laws e(2,1) this] show ?thesis by (simp add: k)
qed

lemma filled_remove_children:
  assumes laws: "buffer_lib_laws L keys" and f: "filled L keys n dflt bs bs buf"
    and bs: "distinct (map hash bs)" "oldest_first (rev bs)"
    and D: "filter (\<lambda>b. hash b \<in> family {x} (rev bs)) bs = cs"
    and k: "length bs = length cs + k" and rb: "remove_block_with_children L x buf = (rs, buf')"
  shows "assert_buffer_lengths L buf' k" "set rs = (\<lambda>b. (b, dflt)) ` set cs" "distinct (map (hash \<circ> fst) rs)"
    and "parents_first rs"
proof -
  obtain rk where "\<forall>c \<in> set (rev bs). hash_ranked rk c"
    using oldest_first_ranked [OF bs(2)] bs(1) by (auto simp: rev_map [symmetric])
  then have "buffer_ranked rk buf"
    using holds_lookup(3) [OF filledD(1) [OF f]] unfolding buffer_ranked_def set_rev by blast
  note r = holds_remove_children [OF laws filledD(2) [OF f] this filledD(1) [OF f] bs(1) rb,
      unfolded holds_descendants [OF filledD(2,1) [OF f] bs(2)]]
  show "set rs = (\<lambda>b. (b, dflt)) ` set cs" "distinct (map (hash \<circ> fst) rs)" "parents_first rs"
    using r(1-3) by (simp_all only: D)
  let ?cs = "filter (\<lambda>b. hash b \<notin> family {x} (rev bs)) bs"
  have "distinct (map hash ?cs)" using bs(1) by (rule distinct_map_filter)
  from holds_lengths [OF laws r(5,4) this] have "assert_buffer_lengths L buf' (length ?cs)" .
  moreover have "length ?cs = k"
    using k sum_length_filter_compl [of "\<lambda>b. hash b \<in> family {x} (rev bs)" bs] by (simp add: D)
  ultimately show "assert_buffer_lengths L buf' k" by simp
qed

lemma removed_blocks_eq:
  assumes "set rs = (\<lambda>b. (b, dflt)) ` set cs" and "distinct (map (hash \<circ> fst) rs)" and "set cs = set ds"
    and "distinct (map hash ds)"
  shows "removed_blocks rs = fmap_of_list (map (\<lambda>b. (hash b, b)) ds)"
proof -
  let ?f = "\<lambda>(b, _ :: 'a). (hash b, b)"
  have fst: "fst \<circ> ?f = hash \<circ> fst" by (simp add: fun_eq_iff)
  have "map_of (map ?f rs) = map_of (map (\<lambda>b. (hash b, b)) ds)"
  proof (subst map_of_inject_set)
    show "set (map ?f rs) = set (map (\<lambda>b. (hash b, b)) ds)" using assms(1,3) by force
    show "distinct (map fst (map ?f rs))" using assms(2) by (simp only: map_map fst)
    show "distinct (map fst (map (\<lambda>b. (hash b, b)) ds))" using assms(4) by (simp add: comp_def)
  qed
  then show ?thesis unfolding removed_blocks_def by (intro fmap_ext) (simp add: fmlookup_of_list)
qed

lemma simple_insertion_passes:
  assumes laws: "buffer_lib_laws L keys"
  shows "simple_insertion L dflt parent r1"
proof -
  let ?b = "create_block r1 10 parent"
  have f: "filled L keys (unat (3 :: u32)) dflt [?b] [] (insert_block L ?b (buffer_new L 3))"
    using filled_blocks [OF laws, of "[?b]" 3 dflt] by simp
  show ?thesis
    unfolding simple_insertion_def Let_def
    using filled_lengths [OF laws f] filledD(4) [OF f] by simp
qed

lemma evict_with_gap_passes:
  assumes laws: "buffer_lib_laws L keys" and d: "distinct [main_parent, parent4, hash r1, hash r2, hash r3, hash r4]"
  shows "evict_with_gap L dflt main_parent parent4 r1 r2 r3 r4"
proof -
  let ?b1 = "create_block r1 10 main_parent" and ?b2 = "create_block r2 11 (hash r1)"
  let ?b3 = "create_block r3 12 (hash r2)" and ?b4 = "create_block r4 13 parent4"
  let ?buf = "insert_block L ?b3 (insert_block L ?b2 (insert_block L ?b1 (buffer_new L 3)))"
  have d': "distinct [hash r4, hash r3, hash r2, hash r1, parent4, main_parent]" using d by auto
  have f: "filled L keys 3 dflt [?b3, ?b2, ?b1] [] ?buf"
    using filled_blocks [OF laws, of "[?b1, ?b2, ?b3]" 3 dflt] d by simp
  have g: "filled L keys 3 dflt [?b4, ?b3, ?b2] [] (insert_block L ?b4 ?buf)"
    using filled_evict [OF laws, of 3 dflt "[?b3, ?b2]" ?b1 ?buf ?b4] f d' by simp
  show ?thesis
    unfolding evict_with_gap_def Let_def create_block_sel
    using filled_lengths [OF laws g, of 3] d d'
    by (simp add: lowest_ancestor_def lowest_ancestor_loop.simps filledD(4) [OF f] filledD(4) [OF g] assert_block_removal_def
        holds_kids [OF filledD(2,1) [OF g]] buffer_inv_earliest [OF filledD(2) [OF g]])
qed

lemma simple_eviction_passes:
  assumes laws: "buffer_lib_laws L keys" and d: "distinct [main_parent, parent4, hash r1, hash r2, hash r3, hash r4]"
  shows "simple_eviction L dflt main_parent parent4 r1 r2 r3 r4"
  using evict_with_gap_passes [OF assms, of dflt] by (simp add: simple_eviction_def evict_with_gap_def Let_def)

lemma remove_chain_passes:
  assumes laws: "buffer_lib_laws L keys" and d: "distinct [main_parent, parent4, hash r1, hash r2, hash r3, hash r4]"
  shows "remove_chain_of_children L dflt main_parent parent4 r1 r2 r3 r4"
proof -
  let ?b1 = "create_block r1 10 main_parent" and ?b2 = "create_block r2 11 (hash r1)"
  let ?b3 = "create_block r3 12 (hash r2)" and ?b4 = "create_block r4 14 parent4"
  have d': "distinct [hash r4, hash r3, hash r2, hash r1, parent4, main_parent]" using d by auto
  have f: "filled L keys 5 dflt [?b4, ?b3, ?b2, ?b1] []
      (insert_block L ?b4 (insert_block L ?b3 (insert_block L ?b2 (insert_block L ?b1 (buffer_new L 5)))))"
    using filled_blocks [OF laws, of "[?b1, ?b2, ?b3, ?b4]" 5 dflt] d by simp
  show ?thesis
    unfolding remove_chain_of_children_def Let_def create_block_sel
    by (intro conjI filled_lengths [OF laws f] filled_evict_old [OF laws f]) (use d d' in \<open>simp_all add: old_family_def\<close>)
qed

lemma remove_multi_level_passes:
  assumes laws: "buffer_lib_laws L keys" and d: "distinct [main_parent, hash r1, hash r2, hash r3, hash r4]"
  shows "remove_all_multi_level_children L dflt main_parent r1 r2 r3 r4"
proof -
  let ?b1 = "create_block r1 10 main_parent" and ?b2 = "create_block r2 11 (hash r1)"
  let ?b3 = "create_block r3 11 (hash r1)" and ?b4 = "create_block r4 12 (hash r2)"
  have d': "distinct [hash r4, hash r3, hash r2, hash r1, main_parent]" using d by auto
  have f: "filled L keys 5 dflt [?b4, ?b3, ?b2, ?b1] []
      (insert_block L ?b4 (insert_block L ?b3 (insert_block L ?b2 (insert_block L ?b1 (buffer_new L 5)))))"
    using filled_blocks [OF laws, of "[?b1, ?b2, ?b3, ?b4]" 5 dflt] d by simp
  show ?thesis
    unfolding remove_all_multi_level_children_def Let_def create_block_sel
    by (intro conjI filled_lengths [OF laws f] filled_evict_old [OF laws f]) (use d d' in \<open>simp_all add: old_family_def\<close>)
qed

lemma remove_multi_chains_passes:
  assumes laws: "buffer_lib_laws L keys" and d: "distinct [main_parent, p1, p2, p3,
      hash r1, hash r1a, hash r2, hash r2a, hash rb1, hash rb2, hash rb3]"
  shows "remove_multi_chains L dflt main_parent p1 p2 p3 r1 r1a r2 r2a rb1 rb2 rb3"
proof -
  let ?bs = "[create_block r1 10 main_parent, create_block r1a 10 main_parent, create_block r2 11 (hash r1),
    create_block r2a 11 (hash r1), create_block rb1 10 p1, create_block rb2 11 p2, create_block rb3 12 p3]"
  have d': "distinct (rev [main_parent, p1, p2, p3,
      hash r1, hash r1a, hash r2, hash r2a, hash rb1, hash rb2, hash rb3])" using d by (simp only: distinct_rev)
  let ?buf = "fold (insert_block L) ?bs (buffer_new L 10)"
  have f: "filled L keys 10 dflt (rev ?bs) [] ?buf"
    using filled_blocks [OF laws, of ?bs 10 dflt] d by simp
  note filled_lengths [OF laws f, of 7]
  moreover have "oldest_first ?bs" "length (filter (\<lambda>b. hash b \<notin> old_family 10 (rev ?bs)) (rev ?bs)) = 2"
    using d d' by (simp_all add: old_family_def)
  note filled_evict_old [OF laws f _ _ this(2)]
  ultimately show ?thesis
    unfolding remove_multi_chains_def Let_def create_block_sel
    using filledD(4) [OF f] d d'
    by (simp add: lowest_ancestor_def lowest_ancestor_loop.simps)
qed

text \<open>A chain in which no block stands before its parent is in its order.\<close>

lemma successively_predecessor:
  "successively P (x # xs) \<Longrightarrow> y \<in> set xs \<Longrightarrow> \<exists>z \<in> set (x # xs). P z y"
  by (induction xs arbitrary: x) auto

lemma parents_first_chain:
  assumes "successively (\<lambda>x y. parent_hash (fst y) = hash (fst x)) xs" and "distinct xs"
    and "parents_first rs" and "distinct rs" and "set rs = set xs"
  shows "rs = xs"
  using assms
proof (induction xs arbitrary: rs)
  case (Cons x xs)
  then obtain r rs' where rs: "rs = r # rs'" by (cases rs) auto
  have "r = x"
  proof (rule ccontr)
    assume "r \<noteq> x"
    then have "r \<in> set xs" using Cons.prems(5) rs by auto
    then obtain z where "z \<in> set rs" "parent_hash (fst r) = hash (fst z)"
      using successively_predecessor [OF Cons.prems(1)] Cons.prems(5) by metis
    then show False using Cons.prems(3) unfolding rs by auto
  qed
  then have "set rs' = set xs" using Cons.prems(2,4,5) rs by auto
  then show ?case
    using Cons.IH [of rs'] Cons.prems \<open>r = x\<close> by (cases xs) (auto simp: rs)
qed simp

lemma take_chain_passes:
  assumes laws: "buffer_lib_laws L keys" and d: "distinct [main_parent, parent4, hash r1, hash r2, hash r3, hash r4]"
  shows "take_entire_chain_of_children L dflt main_parent parent4 r1 r2 r3 r4"
proof -
  let ?b1 = "create_block r1 10 main_parent" and ?b2 = "create_block r2 11 (hash r1)"
  let ?b3 = "create_block r3 12 (hash r2)" and ?b4 = "create_block r4 14 parent4"
  let ?buf = "fold (insert_block_with_proof L dflt) [?b1, ?b2, ?b3, ?b4] (buffer_new L 5)"
  let ?rs = "map (\<lambda>b. (b, dflt)) [?b1, ?b2, ?b3]"
  have d': "distinct [hash r4, hash r3, hash r2, hash r1, parent4, main_parent]" using d by auto
  have f: "filled L keys 5 dflt [?b4, ?b3, ?b2, ?b1] [?b4, ?b3, ?b2, ?b1] ?buf"
    using filled_blocks_proofs [OF laws, of "[?b1, ?b2, ?b3, ?b4]" 5 dflt] d by simp
  have len: "assert_buffer_lengths L ?buf 4" by (rule filled_lengths [OF laws f]) (use d' in simp_all)
  obtain rs buf' where rb: "remove_block_with_children L main_parent ?buf = (rs, buf')"
    by (cases "remove_block_with_children L main_parent ?buf")
  have D: "filter (\<lambda>b. hash b \<in> family {main_parent} (rev [?b4, ?b3, ?b2, ?b1])) [?b4, ?b3, ?b2, ?b1] = [?b3, ?b2, ?b1]"
    using d d' by simp
  have r: "assert_buffer_lengths L buf' 1" "set rs = (\<lambda>b. (b, dflt)) ` set [?b3, ?b2, ?b1]"
    "distinct (map (hash \<circ> fst) rs)" "parents_first rs"
    by (rule filled_remove_children [OF laws f _ _ D _ rb]; use d d' in simp)+
  have "distinct rs" using r(3) by (metis distinct_map)
  moreover have "set rs = set ?rs" using r(2) by auto
  moreover have "distinct (map (hash \<circ> fst) ?rs)" using d by simp
  then have "distinct ?rs" by (simp only: distinct_map)
  ultimately have "rs = ?rs" using r(4) by (intro parents_first_chain) simp_all
  then show ?thesis
    using rb len r(1) filledD(4) [OF f] d d'
    by (simp add: take_entire_chain_of_children_def Let_def lowest_ancestor_def lowest_ancestor_loop.simps)
qed

lemma take_multi_level:
  fixes dflt :: 'p
  assumes laws: "buffer_lib_laws L keys" and d: "distinct [main_parent, hash r1, hash r2, hash r3, hash r4]"
    and x: "x = main_parent \<or> x = hash r1"
  defines "bs \<equiv> [create_block r1 10 main_parent, create_block r2 11 (hash r1),
      create_block r3 11 (hash r1), create_block r4 12 (hash r2)]"
  defines "buf \<equiv> fold (insert_block_with_proof L dflt) bs (buffer_new L 5)"
  assumes rb: "remove_block_with_children L x buf = (rs, buf')"
  shows "assert_buffer_lengths L buf 4 \<and> assert_buffer_lengths L buf' 0 \<and>
    removed_blocks rs = fmap_of_list (map (\<lambda>b. (hash b, b)) bs)"
proof -
  have d': "distinct [hash r4, hash r3, hash r2, hash r1, main_parent]" using d by auto
  have f: "filled L keys 5 dflt (rev bs) (rev bs) buf"
    using filled_blocks_proofs [OF laws, of bs 5 dflt] d by (simp add: bs_def buf_def)
  have bs: "distinct (map hash bs)" "distinct (map hash (rev bs))" "oldest_first (rev (rev bs))" "length bs = 4"
    using d d' by (simp_all add: bs_def)
  have D: "filter (\<lambda>b. hash b \<in> family {x} (rev (rev bs))) (rev bs) = rev bs"
    using x d d' by (auto simp: bs_def)
  note r = filled_remove_children [OF laws f bs(2,3) D _ rb, of 0]
  have "assert_buffer_lengths L buf 4" by (rule filled_lengths [OF laws f bs(2)]) (simp add: bs(4))
  moreover have "removed_blocks rs = fmap_of_list (map (\<lambda>b. (hash b, b)) bs)"
    by (rule removed_blocks_eq [OF r(2,3) _ bs(1)]) simp_all
  ultimately show ?thesis using r(1) by simp
qed

lemma take_multi_level_passes:
  assumes laws: "buffer_lib_laws L keys" and d: "distinct [main_parent, hash r1, hash r2, hash r3, hash r4]"
  shows "take_all_multi_level_children L dflt main_parent r1 r2 r3 r4"
    and "take_block_with_children L dflt main_parent r1 r2 r3 r4"
proof -
  let ?buf = "fold (insert_block_with_proof L dflt) [create_block r1 10 main_parent, create_block r2 11 (hash r1),
      create_block r3 11 (hash r1), create_block r4 12 (hash r2)] (buffer_new L 5)"
  obtain rs buf1 rs' buf2 where rb: "remove_block_with_children L main_parent ?buf = (rs, buf1)"
    "remove_block_with_children L (hash r1) ?buf = (rs', buf2)"
    by (metis surj_pair)
  show "take_all_multi_level_children L dflt main_parent r1 r2 r3 r4"
    using take_multi_level [OF laws d _ rb(1)] rb(1) by (simp add: take_all_multi_level_children_def Let_def)
  show "take_block_with_children L dflt main_parent r1 r2 r3 r4"
    using take_multi_level [OF laws d _ rb(2)] rb(2) by (simp add: take_block_with_children_def Let_def)
qed

section \<open>Properties\<close>



end
