(* ===== verification/Spec2Isabelle.thy ===== *)
theory Spec2Isabelle
  imports Tree_Props Fetch_Futures Rpc_Adapter Adapter Node_Launch Reth_Main Node_Sync Buffer_Tests
begin

text \<open>
  \<^bold>\<open>A stateless execution client: zk-ress\<close>

  \<^bold>\<open>The program.\<close> zk-ress follows an Ethereum chain without the state. A beacon client sends new
  payloads and forkchoice updates to the consensus engine (\<open>crates/engine/src/engine.rs\<close>). The engine
  gives them to the engine tree (\<open>crates/engine/src/tree/mod.rs\<close>), which checks a block with the block
  verifier (\<open>crates/verifier\<close>, which executes it with \<open>crates/evm\<close> on a witness), stores it in the
  provider (\<open>crates/provider\<close>) or keeps it in the block buffer (\<open>tree/block_buffer.rs\<close>) until its
  proof or its ancestors are there, and maintains the canonical chain. What is missing the tree asks
  for with events; the engine hands them to the downloader (\<open>download/mod.rs\<close>), whose futures
  (\<open>download/futs.rs\<close>) send requests through the network handle and the network manager
  (\<open>crates/network\<close>) to peers. The outcomes of downloads go back into the tree.

  \<^bold>\<open>Theories, bottom up.\<close>

  \<^item> \<open>Prelude\<close>, \<open>Chain_Types\<close>: lists, maps and words the components share; blocks, headers and the
    error types. A hash is an uninterpreted 256 bit word that a block carries.
  \<^item> \<open>Chain_State\<close>, \<open>Provider\<close> (\<open>chain_state.rs\<close>, \<open>provider.rs\<close>): the record of four maps and every
    operation on it. The walk for the hash at a number may run forever on a cyclic store: it is a
    partial function, proved to return on well formed, ranked states.
  \<^item> \<open>Block_Buffer\<close>, \<open>Buffer_Worklists\<close>, \<open>Buffer_Props\<close> (\<open>block_buffer.rs\<close>): five maps and an LRU, the
    work lists of removal and eviction, and the invariant over all reachable buffers.
  \<^item> \<open>Buffer_Contents\<close>, \<open>Buffer_Tests\<close> (the unit tests of \<open>block_buffer.rs\<close>): buffers whose contents are
    known as lists; each test as a function of the random blocks and hashes it draws, and that all pass
    for every draw of different hashes, every LRU and every order in which a set is iterated.
  \<^item> \<open>Tree_Types\<close>, \<open>Engine_Tree\<close>, \<open>Tree_Facts\<close>, \<open>Canonical_Chain\<close>, \<open>Tree_Invariant\<close>,
    \<open>Tree_Handlers\<close>, \<open>Head_Update\<close>, \<open>Launch\<close>, \<open>Tree_Props\<close> (\<open>tree/mod.rs\<close>, \<open>tree/outcome.rs\<close>, the
    start of \<open>launch.rs\<close>): every method of the tree, the invariants of its stores and of the canonical
    chain, and that the handlers keep them and answer truthfully. A result \<open>None\<close> of a method is a
    panic or a walk that does not return; the lemmas show it does not occur.
  \<^item> \<open>Download_Futs\<close>, \<open>Fetch_Futures\<close> (\<open>futs.rs\<close>, \<open>handle.rs\<close>): the five futures. The answers of the
    network to successive polls are a list; a poll consumes it, so that it always returns.
  \<^item> \<open>Downloader\<close> (\<open>download/mod.rs\<close>): the requests in flight, the loop with \<open>swap_remove\<close> and the
    reference partition it equals, the conservation of downloads.
  \<^item> \<open>Engine\<close>, \<open>Engine_Facts\<close>, \<open>Engine_Props\<close>, \<open>Engine_Clock\<close> (\<open>engine.rs\<close>): the loop of the engine as
    a partial function over a list with one environment per iteration (what the network answers, and
    the time); when the list is used up nothing more arrives and time stands still. A parked payload
    has the deadline of its \<open>Sleep\<close>, three seconds after it was parked. The loop is proved to return
    for every such list, without fuel. \<open>engine_reachable\<close> closes a launched engine under receiving a
    message and under polling.
  \<^item> \<open>Chain_Sync\<close>, \<open>Engine_Sync\<close>: how the tree and the engine follow a chain of unknown blocks, from
    the forkchoice update that names its end, through the downloads from the last block down and the
    buffer that keeps them, to the insertion of all of them once the first has a stored parent.
    \<open>poll_rounds\<close> polls the engine once for each environment of a list.
  \<^item> \<open>Network\<close> (\<open>manager.rs\<close>): the rotation over the connections, and its refinement of an abstract
    network of undelivered and delivered requests.
  \<^item> \<open>Open_Requests\<close>: which requests the futures of the downloader wait for, as a contract
    (\<open>routed_future\<close>) each of them meets: a request that is not answered stays open, an answer is read
    by the next poll.
  \<^item> \<open>Node_System\<close>, \<open>Node_Props\<close>: the composition. A state of the node is its engine with the messages
    in its channel, the channel of requests to the network manager, the manager, the requests at the
    peers and the answers that wait; \<open>node_step\<close> receives a message, sends an open request, polls the
    manager, lets a peer answer (anything, or not at all), or polls the engine with the answers that
    wait, until it is pending. A poll of the engine that ends in its fatal error ends the node.
  \<^item> \<open>Node_Sync\<close>: the sync of \<open>Engine_Sync\<close> for the node as a whole, with a peer whose provider has the
    chain. \<open>served_step\<close> are the steps of the node in which peers answer with what a function of the
    request gives; \<open>protocol_laws\<close> says that the handler of the sub protocol, a library, answers a request
    for one header, body or proof with what the provider returns.
  \<^item> \<open>State_Root\<close>, \<open>Witness_Evm\<close>, \<open>Verifier\<close>, \<open>Verifier_Props\<close> (\<open>verifier/src/root.rs\<close>, \<open>evm/src\<close>,
    \<open>verifier/src/lib.rs\<close>): the computation of the state root against a specification over maps, the
    database of the EVM, the executor, and the verifier with the contract the tree asks of it.
  \<^item> \<open>Rpc_Adapter\<close> (\<open>testing/src/rpc_adapter.rs\<close>), \<open>Adapter\<close> (\<open>bin/adapter/src/main.rs\<close>),
    \<open>Node_Interface\<close> (\<open>bin/zk-ress/src/rpc.rs\<close>, \<open>cli.rs\<close>): the server of peer requests from a JSON-RPC
    node, the proxy between the clients, and the outside of the node.
  \<^item> \<open>Node_Launch\<close> (\<open>launch.rs\<close>, the arguments of \<open>cli.rs\<close>, \<open>bin/zk-ress/src/main.rs\<close>): the launch in
    its order, with the errors that end it and the engine, network manager and provider of the launched
    node, which are those the composed node starts with; the metrics endpoint and the debug blocks.
  \<^item> \<open>Reth_Main\<close> (\<open>bin/reth/src/main.rs\<close>): the sub protocols installed on the stateful node.

  \<^bold>\<open>What the properties show.\<close> For the stores: a well formed state is kept by every operation, and
  each operation has exactly its documented effect. For the tree: every handler answers, the answer
  is truthful (\<open>VALID\<close> means stored, \<open>SYNCING\<close> means buffered), only checked blocks are stored, and
  the canonical hashes remain the chain of the canonical head. For the engine: a poll returns, every
  message is answered once and in order, and every stored block is genesis, verified, or downloaded
  as finalized; with the witness verifier, verified means that it passed every check, that execution
  on its witness succeeded and that it names the resulting state root. An engine told of an unknown head
  reaches it when the peers answer, if the chain to it is no longer than the buffer; and the node can
  always get these answers from one peer that has the chain. For the network side: fetched
  data is what was asked for, no download and no request is lost. For the node as a whole: a request
  is in transit at most once and is one the downloader waits for, every answer is read by the future
  that asked, every run is a run of the engine in its own environment, so that the properties of the
  engine hold of it, and the proof a peer has can always be brought to the payload parked for it.

  \<^bold>\<open>Parameters.\<close> The libraries are records of functions (\<open>tree_lib\<close>, \<open>buffer_lib\<close>, \<open>fetch_lib\<close>,
  \<open>trie_lib\<close>, \<open>evm_lib\<close>, \<open>executor_lib\<close>, \<open>verifier_lib\<close>, \<open>rpc_node\<close>, \<open>json_lib\<close>, \<open>path_lib\<close>,
  \<open>launch_lib\<close>); the laws the properties assume of them state documented behaviour and are discharged for concrete instances
  in the witnesses. The assumptions on the data say that hashes do not collide on a
  set \<open>U\<close> of blocks that may occur: a hash determines the parent and the number, and hashes rank the
  blocks, each above its parent, as no cycle of hashes can be made. Word arithmetic keeps its width.

  \<^bold>\<open>Bounds.\<close> The buffer holds 256 blocks, the cache of invalid headers 256 entries, finality keeps
  256 canonical hashes, and a finalized download asks for 256 ancestors, as in the code.

  \<^bold>\<open>Not modelled.\<close> Logging, histograms and elapsed times. The lock of the provider, which every
  operation holds for its whole run. The engine API and the HTTP servers, the debug client and the
  logging of events, which are libraries; the connection of the adapter; the build script; the
  generated parser of the command line.
  Cancellation of a client's response channel, whose result is only logged.

  \<^bold>\<open>Left for later.\<close> Answers that arrive while the engine is being polled reach the composed node with
  its next poll. The durations of downloads.
\<close>

end
